(* ===== verification/Mpedb_Prelude.thy ===== *)
theory Mpedb_Prelude
  imports Main "HOL-Library.Word" "HOL-Library.List_Lexorder"
begin

unbundle bit_operations_syntax

text \<open>
  The types and generic lemmas that the component theories share: machine integers as words,
  the workspace's error type and its \<open>?\<close> operator, bounds-checked reads of a byte buffer, the
  little- and big-endian images of a word, Rust's \<open>Ordering\<close>, and two interfaces (a positional
  codec and an order-preserving code) whose laws give the composite versions once and for all.
\<close>

section \<open>Machine types, errors\<close>

type_synonym byte = "8 word"
type_synonym bytes = "8 word list"
type_synonym u16 = "16 word"
type_synonym u32 = "32 word"
type_synonym u64 = "64 word"
type_synonym i64 = "64 word"
type_synonym f64 = "64 word"

text \<open>
  The variants of the workspace's \<open>Error\<close> that the modelled code raises. The message strings
  carry no information the code branches on and are not modelled. \<open>Panic\<close> is not a variant of the
  source's type: it is the outcome of an operation that panics (a slice off a character boundary).
\<close>

datatype error =
    Corrupt
  | TypeMismatch
  | Unsupported
  | Internal
  | Config
  | DbFull
  | ReadersFull
  | WriteConflict
  | Io
  | Panic

type_synonym 'a result = "error + 'a"

abbreviation Ok :: "'a \<Rightarrow> 'a result" where
  "Ok \<equiv> Inr"

abbreviation Err :: "error \<Rightarrow> 'a result" where
  "Err \<equiv> Inl"

text \<open>The \<open>?\<close> operator: go on with the value, or return the error.\<close>

definition rbind :: "'a result \<Rightarrow> ('a \<Rightarrow> 'b result) \<Rightarrow> 'b result" where
  "rbind m f = (case m of Inl e \<Rightarrow> Inl e | Inr x \<Rightarrow> f x)"

definition ok_or :: "error \<Rightarrow> 'a option \<Rightarrow> 'a result" where
  "ok_or e m = (case m of None \<Rightarrow> Inl e | Some x \<Rightarrow> Inr x)"

section \<open>Ordering\<close>

datatype ordering = Less | Equal | Greater

definition ord_cmp :: "'a::linorder \<Rightarrow> 'a \<Rightarrow> ordering" where
  "ord_cmp a b = (if a < b then Less else if a = b then Equal else Greater)"

fun ord_reverse :: "ordering \<Rightarrow> ordering" where
  "ord_reverse Less = Greater"
| "ord_reverse Equal = Equal"
| "ord_reverse Greater = Less"

text \<open>\<open>then_with\<close>: the second comparison decides where the first says equal.\<close>

definition ord_then :: "ordering \<Rightarrow> ordering \<Rightarrow> ordering" where
  "ord_then a b = (if a = Equal then b else a)"

text \<open>An \<open>i64\<close> compares by its signed reading.\<close>

definition icmp :: "i64 \<Rightarrow> i64 \<Rightarrow> ordering" where
  "icmp a b = ord_cmp (sint a) (sint b)"

section \<open>Buffers\<close>

text \<open>\<open>buf.get(i)\<close> and \<open>buf.get(a..b)\<close>: \<open>None\<close> out of range, never a wrong byte.\<close>

definition get_at :: "'a list \<Rightarrow> nat \<Rightarrow> 'a option" where
  "get_at xs i = (if i < length xs then Some (xs ! i) else None)"

definition get_range :: "'a list \<Rightarrow> nat \<Rightarrow> nat \<Rightarrow> 'a list option" where
  "get_range xs a b = (if a \<le> b \<and> b \<le> length xs then Some (take (b - a) (drop a xs)) else None)"

text \<open>\<open>buf[a..a + ys.len()].copy_from_slice(ys)\<close> for a range inside the buffer.\<close>

definition put_at :: "'a list \<Rightarrow> nat \<Rightarrow> 'a list \<Rightarrow> 'a list" where
  "put_at xs a ys = take a xs @ ys @ drop (a + length ys) xs"

text \<open>What is left of a buffer at a position inside it.\<close>

definition at_pos :: "'a list \<Rightarrow> nat \<Rightarrow> 'a list \<Rightarrow> bool" where
  "at_pos buf p bs \<longleftrightarrow> p \<le> length buf \<and> drop p buf = bs"

text \<open>
  The loop \<open>for &ty in types { out.push(decode(buf, &mut pos, ty)?) }\<close>, shared by every list
  decoder of the code base.
\<close>

fun decode_each :: "('t \<Rightarrow> bytes \<Rightarrow> nat \<Rightarrow> ('v \<times> nat) result) \<Rightarrow> 't list \<Rightarrow> bytes \<Rightarrow> nat
    \<Rightarrow> ('v list \<times> nat) result" where
  "decode_each dec [] buf p = Inr ([], p)"
| "decode_each dec (t # ts) buf p =
     rbind (dec t buf p) (\<lambda>(v, q).
     rbind (decode_each dec ts buf q) (\<lambda>(vs, r). Inr (v # vs, r)))"

section \<open>Little- and big-endian images\<close>

fun nat_le :: "nat \<Rightarrow> nat \<Rightarrow> bytes" where
  "nat_le 0 x = []"
| "nat_le (Suc n) x = word_of_nat x # nat_le n (x div 256)"

fun le_nat :: "bytes \<Rightarrow> nat" where
  "le_nat [] = 0"
| "le_nat (b # bs) = unat b + 256 * le_nat bs"

fun nat_be :: "nat \<Rightarrow> nat \<Rightarrow> bytes" where
  "nat_be 0 x = []"
| "nat_be (Suc n) x = word_of_nat (x div 256 ^ n) # nat_be n (x mod 256 ^ n)"

fun be_nat :: "bytes \<Rightarrow> nat" where
  "be_nat [] = 0"
| "be_nat (b # bs) = unat b * 256 ^ length bs + be_nat bs"

definition to_le_bytes :: "'a::len word \<Rightarrow> bytes" where
  "to_le_bytes w = nat_le (LENGTH('a) div 8) (unat w)"

definition from_le_bytes :: "bytes \<Rightarrow> 'a::len word" where
  "from_le_bytes bs = word_of_nat (le_nat bs)"

definition to_be_bytes :: "'a::len word \<Rightarrow> bytes" where
  "to_be_bytes w = nat_be (LENGTH('a) div 8) (unat w)"

definition from_be_bytes :: "bytes \<Rightarrow> 'a::len word" where
  "from_be_bytes bs = word_of_nat (be_nat bs)"

section \<open>Strings\<close>

text \<open>
  A Rust \<open>String\<close> is its UTF-8 bytes: a \<open>string\<close> here, one \<open>char\<close> per byte, that satisfies
  \<open>utf8\<close> below. \<open>as_bytes\<close> and \<open>String::from_utf8\<close> are the two conversions the code uses.
\<close>

definition byte_of_char :: "char \<Rightarrow> byte" where
  "byte_of_char c = word_of_nat (of_char c)"

definition char_of_byte :: "byte \<Rightarrow> char" where
  "char_of_byte b = char_of (unat b)"

definition as_bytes :: "string \<Rightarrow> bytes" where
  "as_bytes s = map byte_of_char s"

definition cont_byte :: "byte \<Rightarrow> bool" where
  "cont_byte b \<longleftrightarrow> 128 \<le> b \<and> b \<le> 191"

text \<open>The well-formed byte sequences of Unicode's table 3-7, which \<open>str::from_utf8\<close> accepts.\<close>

fun utf8 :: "bytes \<Rightarrow> bool" where
  "utf8 [] \<longleftrightarrow> True"
| "utf8 (b0 # bs) \<longleftrightarrow>
     (if b0 < 128 then utf8 bs
      else if 194 \<le> b0 \<and> b0 \<le> 223 then
        (case bs of b1 # r \<Rightarrow> cont_byte b1 \<and> utf8 r | [] \<Rightarrow> False)
      else if 224 \<le> b0 \<and> b0 \<le> 239 then
        (case bs of b1 # b2 # r \<Rightarrow>
             cont_byte b1 \<and> (b0 = 224 \<longrightarrow> 160 \<le> b1) \<and> (b0 = 237 \<longrightarrow> b1 \<le> 159)
             \<and> cont_byte b2 \<and> utf8 r
         | _ \<Rightarrow> False)
      else if 240 \<le> b0 \<and> b0 \<le> 244 then
        (case bs of b1 # b2 # b3 # r \<Rightarrow>
             cont_byte b1 \<and> (b0 = 240 \<longrightarrow> 144 \<le> b1) \<and> (b0 = 244 \<longrightarrow> b1 \<le> 143)
             \<and> cont_byte b2 \<and> cont_byte b3 \<and> utf8 r
         | _ \<Rightarrow> False)
      else False)"

definition valid_str :: "string \<Rightarrow> bool" where
  "valid_str s \<longleftrightarrow> utf8 (as_bytes s)"

definition from_utf8 :: "bytes \<Rightarrow> string result" where
  "from_utf8 bs = (if utf8 bs then Inr (map char_of_byte bs) else Inl Corrupt)"

section \<open>Lemmas: results and orderings\<close>

named_theorems read_simps \<open>reading a buffer whose remainder is known\<close>

lemma rbind_simps [simp]:
  "rbind (Inl e) f = Inl e"
  "rbind (Inr x) f = f x"
  by (simp_all add: rbind_def)

lemma rbind_cong [fundef_cong]:
  "m = m' \<Longrightarrow> (\<And>x. m' = Inr x \<Longrightarrow> f x = f' x) \<Longrightarrow> rbind m f = rbind m' f'"
  by (auto simp: rbind_def split: sum.split)

lemma rbind_Ok_iff: "rbind m f = Inr y \<longleftrightarrow> (\<exists>x. m = Inr x \<and> f x = Inr y)"
  by (auto simp: rbind_def split: sum.split)

lemma rbind_Err_iff: "rbind m f = Inl e \<longleftrightarrow> m = Inl e \<or> (\<exists>x. m = Inr x \<and> f x = Inl e)"
  by (auto simp: rbind_def split: sum.split)

lemma ok_or_simps [simp]:
  "ok_or e None = Inl e"
  "ok_or e (Some x) = Inr x"
  by (simp_all add: ok_or_def)

lemma ok_or_Ok_iff: "ok_or e m = Inr x \<longleftrightarrow> m = Some x"
  by (cases m) simp_all

lemma ord_cmp_iffs [simp]:
  "ord_cmp a b = Less \<longleftrightarrow> a < b"
  "ord_cmp a b = Equal \<longleftrightarrow> a = b"
  "ord_cmp a b = Greater \<longleftrightarrow> b < a"
  by (auto simp: ord_cmp_def)

lemma ord_cmp_refl [simp]: "ord_cmp a a = Equal"
  by simp

lemma ord_reverse_ord_cmp [simp]: "ord_reverse (ord_cmp a b) = ord_cmp b a"
  by (cases a b rule: linorder_cases) (auto simp: ord_cmp_def)

lemma ord_reverse_iffs [simp]:
  "ord_reverse o1 = Less \<longleftrightarrow> o1 = Greater"
  "ord_reverse o1 = Equal \<longleftrightarrow> o1 = Equal"
  "ord_reverse o1 = Greater \<longleftrightarrow> o1 = Less"
  by (cases o1; simp)+

lemma ord_then_simps [simp]:
  "ord_then Equal b = b"
  "ord_then Less b = Less"
  "ord_then Greater b = Greater"
  by (simp_all add: ord_then_def)

lemma ord_then_assoc: "ord_then (ord_then a b) c = ord_then a (ord_then b c)"
  by (simp add: ord_then_def)

lemma ord_reverse_then: "ord_reverse (ord_then a b) = ord_then (ord_reverse a) (ord_reverse b)"
  by (cases a) simp_all

text \<open>Two monotone images of the same pair compare alike.\<close>

lemma ord_cmp_mono:
  assumes "(a < b) = (c < d)" and "(b < a) = (d < c)"
  shows "ord_cmp a b = ord_cmp c d"
  using assms by (cases a b rule: linorder_cases) (auto simp: ord_cmp_def)

lemma append_less_same_prefix [simp]:
  "xs @ ys < xs @ zs \<longleftrightarrow> ys < (zs :: 'a::linorder list)"
  by (induction xs) simp_all

section \<open>Lemmas: buffers\<close>

lemma at_pos_0 [simp]: "at_pos buf 0 buf"
  by (simp add: at_pos_def)

lemma at_pos_length: "at_pos buf p bs \<Longrightarrow> length buf = p + length bs"
  by (auto simp: at_pos_def)

lemma at_pos_get_at [read_simps]: "at_pos buf p (x # xs) \<Longrightarrow> get_at buf p = Some x"
  unfolding at_pos_def get_at_def
  by (metis hd_drop_conv_nth drop_eq_Nil2 list.distinct(1) list.sel(1) not_le_imp_less)

lemma at_pos_get_at_end: "at_pos buf p [] \<Longrightarrow> get_at buf p = None"
  by (auto simp: at_pos_def get_at_def)

lemma at_pos_Suc [read_simps]: "at_pos buf p (x # xs) \<Longrightarrow> at_pos buf (Suc p) xs"
  unfolding at_pos_def
  by (metis Suc_leI drop_Suc drop_all list.distinct(1) list.sel(3) not_less tl_drop)

lemma at_pos_get_range [read_simps]:
  assumes "at_pos buf p (xs @ ys)" and "length xs = n"
  shows "get_range buf p (p + n) = Some xs"
  using assms at_pos_length [OF assms(1)] by (auto simp: at_pos_def get_range_def)

lemma at_pos_add [read_simps]:
  assumes "at_pos buf p (xs @ ys)" and "length xs = n"
  shows "at_pos buf (p + n) ys"
proof -
  have "drop (p + n) buf = drop n (drop p buf)"
    by (simp add: add.commute)
  also have "\<dots> = ys"
    using assms by (simp add: at_pos_def)
  finally show ?thesis
    using assms at_pos_length [OF assms(1)] by (simp add: at_pos_def)
qed

lemma length_put_at [simp]: "a + length ys \<le> length xs \<Longrightarrow> length (put_at xs a ys) = length xs"
  by (simp add: put_at_def)

lemma nth_put_at:
  assumes "a + length ys \<le> length xs" and "i < length xs"
  shows "put_at xs a ys ! i = (if a \<le> i \<and> i < a + length ys then ys ! (i - a) else xs ! i)"
  using assms by (auto simp: put_at_def nth_append min_def)

lemma take_drop_put_at [simp]:
  "a + length ys \<le> length xs \<Longrightarrow> take (length ys) (drop a (put_at xs a ys)) = ys"
  by (simp add: put_at_def)

section \<open>Lemmas: images of words\<close>

lemma length_nat_le [simp]: "length (nat_le n x) = n"
  by (induction n arbitrary: x) auto

lemma length_nat_be [simp]: "length (nat_be n x) = n"
  by (induction n arbitrary: x) auto

lemma unat_byte_less [simp]: "unat (b :: byte) < 256"
  using unsigned_less [of b] by simp

lemma le_nat_nat_le: "le_nat (nat_le n x) = x mod 256 ^ n"
proof (induction n arbitrary: x)
  case 0
  then show ?case by simp
next
  case (Suc n)
  have "le_nat (nat_le (Suc n) x) = x mod 256 + 256 * (x div 256 mod 256 ^ n)"
    by (simp add: Suc unat_of_nat)
  also have "\<dots> = x mod (256 * 256 ^ n)"
    by (simp add: mod_mult2_eq)
  finally show ?case by simp
qed

lemma nat_le_le_nat: "length bs = n \<Longrightarrow> nat_le n (le_nat bs) = bs"
proof (induction bs arbitrary: n)
  case (Cons b bs)
  have "unat b < 256"
    by simp
  then have "(unat b + 256 * le_nat bs) div 256 = le_nat bs"
    by simp
  moreover have "unat (word_of_nat (unat b + 256 * le_nat bs) :: byte) = unat b"
    by (simp only: unat_of_nat) simp
  then have "word_of_nat (unat b + 256 * le_nat bs) = b"
    by (rule word_unat_eq_iff [THEN iffD2])
  ultimately show ?case
    using Cons by auto
qed simp

lemma le_nat_less: "le_nat bs < 256 ^ length bs"
proof (induction bs)
  case (Cons b bs)
  have "le_nat (b # bs) < 256 * (le_nat bs + 1)"
    using unat_byte_less [of b] by simp
  also have "\<dots> \<le> 256 * 256 ^ length bs"
    using Cons by (intro mult_le_mono2) simp
  finally show ?case
    by (simp only: length_Cons power_Suc)
qed simp

lemma nat_be_less_iff:
  "x < 256 ^ n \<Longrightarrow> y < 256 ^ n \<Longrightarrow> nat_be n x < nat_be n y \<longleftrightarrow> x < y"
proof (induction n arbitrary: x y)
  case 0
  then show ?case by simp
next
  case (Suc n)
  let ?m = "256 ^ n :: nat"
  have dx: "x div ?m < 256" and dy: "y div ?m < 256"
    using Suc.prems by (simp_all add: less_mult_imp_div_less mult.commute)
  have w: "(word_of_nat (x div ?m) :: byte) < word_of_nat (y div ?m) \<longleftrightarrow> x div ?m < y div ?m"
    "(word_of_nat (x div ?m) :: byte) = word_of_nat (y div ?m) \<longleftrightarrow> x div ?m = y div ?m"
    using dx dy by (simp_all add: word_less_nat_alt word_unat_eq_iff unat_of_nat)
  have IH: "nat_be n (x mod ?m) < nat_be n (y mod ?m) \<longleftrightarrow> x mod ?m < y mod ?m"
    by (rule Suc.IH) simp_all
  have "x < y \<longleftrightarrow> x div ?m < y div ?m \<or> x div ?m = y div ?m \<and> x mod ?m < y mod ?m"
  proof -
    have sx: "x = ?m * (x div ?m) + x mod ?m" and sy: "y = ?m * (y div ?m) + y mod ?m"
      by simp_all
    have mx: "x mod ?m < ?m" and my: "y mod ?m < ?m" by simp_all
    show ?thesis
    proof (cases "x div ?m" "y div ?m" rule: linorder_cases)
      case less
      then show ?thesis by (metis div_le_mono leD not_le_imp_less)
    next
      case equal
      then show ?thesis using sx sy by (metis add_less_cancel_left less_irrefl)
    next
      case greater
      then show ?thesis by (metis div_le_mono leD less_imp_le not_less_iff_gr_or_eq)
    qed
  qed
  then show ?case
    by (simp add: w IH)
qed

lemma be_nat_nat_be: "x < 256 ^ n \<Longrightarrow> be_nat (nat_be n x) = x"
proof (induction n arbitrary: x)
  case 0
  then show ?case by simp
next
  case (Suc n)
  have "x div 256 ^ n < 256"
    using Suc.prems by (simp add: less_mult_imp_div_less mult.commute)
  moreover have "be_nat (nat_be n (x mod 256 ^ n)) = x mod 256 ^ n"
    by (rule Suc.IH) simp
  moreover have "x div 256 ^ n * 256 ^ n + x mod 256 ^ n = x"
    by (rule div_mult_mod_eq)
  ultimately show ?case
    by (simp add: unat_of_nat)
qed

lemma length_to_le_bytes [simp]: "length (to_le_bytes (w :: 'a::len word)) = LENGTH('a) div 8"
  by (simp add: to_le_bytes_def)

lemma length_to_be_bytes [simp]: "length (to_be_bytes (w :: 'a::len word)) = LENGTH('a) div 8"
  by (simp add: to_be_bytes_def)

lemma unat_less_256_pow:
  assumes "8 dvd LENGTH('a)"
  shows "unat (w :: 'a::len word) < 256 ^ (LENGTH('a) div 8)"
proof -
  have "(256 :: nat) ^ (LENGTH('a) div 8) = 2 ^ (8 * (LENGTH('a) div 8))"
    by (simp add: power_mult)
  also have "\<dots> = 2 ^ LENGTH('a)"
    using assms by simp
  finally show ?thesis
    using unsigned_less [of w] by simp
qed

lemma from_to_le_bytes:
  assumes "8 dvd LENGTH('a)"
  shows "from_le_bytes (to_le_bytes (w :: 'a::len word)) = w"
  using unat_less_256_pow [OF assms, of w]
  by (simp add: from_le_bytes_def to_le_bytes_def le_nat_nat_le)

lemma to_from_le_bytes:
  assumes "length bs = LENGTH('a) div 8" "8 dvd LENGTH('a)"
  shows "to_le_bytes (from_le_bytes bs :: 'a::len word) = bs"
proof -
  have "le_nat bs < 256 ^ (LENGTH('a) div 8)"
    using le_nat_less [of bs] assms(1) by simp
  also have "\<dots> = 2 ^ (8 * (LENGTH('a) div 8))" by (simp add: power_mult)
  also have "\<dots> = 2 ^ LENGTH('a)" using assms(2) by simp
  finally have "unat (from_le_bytes bs :: 'a word) = le_nat bs"
    by (simp add: from_le_bytes_def unat_of_nat)
  then show ?thesis
    using nat_le_le_nat [OF assms(1)] by (simp add: to_le_bytes_def)
qed

lemma from_to_be_bytes:
  assumes "8 dvd LENGTH('a)"
  shows "from_be_bytes (to_be_bytes (w :: 'a::len word)) = w"
  using unat_less_256_pow [OF assms, of w]
  by (simp add: from_be_bytes_def to_be_bytes_def be_nat_nat_be)

lemma to_be_bytes_less_iff:
  assumes "8 dvd LENGTH('a)"
  shows "to_be_bytes (v :: 'a::len word) < to_be_bytes w \<longleftrightarrow> v < w"
  using unat_less_256_pow [OF assms]
  by (simp add: to_be_bytes_def nat_be_less_iff word_less_nat_alt)

lemmas word_image_simps [simp] =
  from_to_le_bytes [where 'a = 16, simplified]
  from_to_le_bytes [where 'a = 32, simplified]
  from_to_le_bytes [where 'a = 64, simplified]
  from_to_le_bytes [where 'a = 128, simplified]
  from_to_be_bytes [where 'a = 16, simplified]
  from_to_be_bytes [where 'a = 32, simplified]
  from_to_be_bytes [where 'a = 64, simplified]
  to_be_bytes_less_iff [where 'a = 32, simplified]
  to_be_bytes_less_iff [where 'a = 64, simplified]

section \<open>Lemmas: strings\<close>

lemma char_of_byte_of_char [simp]: "char_of_byte (byte_of_char c) = c"
proof -
  have "(of_char c :: nat) < 256"
    by (rule nat_of_char_less_256)
  then show ?thesis
    by (simp add: char_of_byte_def byte_of_char_def unat_of_nat)
qed

lemma byte_of_char_of_byte [simp]: "byte_of_char (char_of_byte b) = b"
proof -
  have "unat b < 256"
    by simp
  then show ?thesis
    by (simp add: char_of_byte_def byte_of_char_def)
qed

lemma byte_of_char_inject [simp]: "byte_of_char c = byte_of_char d \<longleftrightarrow> c = d"
  by (metis char_of_byte_of_char)

lemma as_bytes_simps [simp]:
  "as_bytes [] = []"
  "as_bytes (c # cs) = byte_of_char c # as_bytes cs"
  "as_bytes (s @ t) = as_bytes s @ as_bytes t"
  "length (as_bytes s) = length s"
  by (simp_all add: as_bytes_def)

lemma as_bytes_inject [simp]: "as_bytes s = as_bytes t \<longleftrightarrow> s = t"
  by (metis as_bytes_def inj_map_eq_map injI byte_of_char_inject)

lemma map_char_of_as_bytes [simp]: "map char_of_byte (as_bytes s) = s"
  by (induction s) simp_all

lemma from_utf8_as_bytes [simp]: "valid_str s \<Longrightarrow> from_utf8 (as_bytes s) = Inr s"
  by (simp add: from_utf8_def valid_str_def)

lemma from_utf8_Ok_iff: "from_utf8 bs = Inr s \<longleftrightarrow> bs = as_bytes s \<and> valid_str s"
proof
  assume "from_utf8 bs = Inr s"
  then have u: "utf8 bs" and s: "s = map char_of_byte bs"
    by (auto simp: from_utf8_def split: if_splits)
  have "as_bytes s = bs"
    by (simp add: s as_bytes_def comp_def)
  with u show "bs = as_bytes s \<and> valid_str s"
    by (simp add: valid_str_def)
qed simp

lemma utf8_ascii: "list_all (\<lambda>b. b < 128) bs \<Longrightarrow> utf8 bs"
  by (induction bs) auto

section \<open>Interface: a positional codec\<close>

text \<open>
  A decoder that reads at a position of a larger buffer and reports where it stopped. \<open>follow\<close> is
  what may stand after an encoding (the key codec's terminator is only recognised when the next
  byte is not its escape). The law is the round trip at any position; the lemma is the round trip
  of a whole list through \<open>decode_each\<close>.
\<close>

locale pos_codec =
  fixes enc :: "'v \<Rightarrow> bytes"
    and dec :: "'t \<Rightarrow> bytes \<Rightarrow> nat \<Rightarrow> ('v \<times> nat) result"
    and valid :: "'t \<Rightarrow> 'v \<Rightarrow> bool"
    and follow :: "bytes \<Rightarrow> bool"
  assumes follow_Nil: "follow []"
    and follow_enc: "valid t v \<Longrightarrow> follow rest \<Longrightarrow> follow (enc v @ rest)"
    and round: "valid t v \<Longrightarrow> follow rest \<Longrightarrow> at_pos buf p (enc v @ rest)
      \<Longrightarrow> dec t buf p = Inr (v, p + length (enc v))"
begin

lemma follow_concat:
  "list_all2 valid ts vs \<Longrightarrow> follow rest \<Longrightarrow> follow (concat (map enc vs) @ rest)"
  by (induction ts vs rule: list_all2_induct) (auto intro: follow_enc)

lemma decode_each_round:
  "list_all2 valid ts vs \<Longrightarrow> follow rest \<Longrightarrow> at_pos buf p (concat (map enc vs) @ rest)
    \<Longrightarrow> decode_each dec ts buf p = Inr (vs, p + length (concat (map enc vs)))"
proof (induction ts vs arbitrary: p rule: list_all2_induct)
  case Nil
  then show ?case by simp
next
  case (Cons t ts v vs)
  let ?tail = "concat (map enc vs) @ rest"
  have "follow ?tail"
    using Cons.hyps(2) Cons.prems(1) by (rule follow_concat)
  moreover have at: "at_pos buf p (enc v @ ?tail)"
    using Cons.prems(2) by simp
  ultimately have "dec t buf p = Inr (v, p + length (enc v))"
    using Cons.hyps(1) by (intro round)
  moreover have "decode_each dec ts buf (p + length (enc v))
      = Inr (vs, p + length (enc v) + length (concat (map enc vs)))"
    using Cons.prems(1) at_pos_add [OF at] by (intro Cons.IH) simp_all
  ultimately show ?case
    by (simp add: add.assoc)
qed

text \<open>A law-abiding codec is injective on what it accepts, type by type.\<close>

lemma enc_inject:
  assumes "valid t v" and "valid t w" and "enc v = enc w"
  shows "v = w"
proof -
  have v: "dec t (enc v) 0 = Inr (v, length (enc v))"
    using round [OF assms(1) follow_Nil, of "enc v" 0] by simp
  have w: "dec t (enc w) 0 = Inr (w, length (enc w))"
    using round [OF assms(2) follow_Nil, of "enc w" 0] by simp
  have "Ok (v, length (enc w)) = Ok (w, length (enc w))"
    using v w by (simp only: assms(3))
  then show ?thesis by simp
qed

end

section \<open>Interface: an order-preserving code\<close>

text \<open>
  An encoding whose byte order is a comparison of the values, even when more bytes follow. \<open>ok\<close>
  is the set of values that may meet in one position (one column's values). The lemma is that the
  concatenation compares like the list of values, the first difference deciding.
\<close>

fun cmp_list :: "('v \<Rightarrow> 'v \<Rightarrow> ordering) \<Rightarrow> 'v list \<Rightarrow> 'v list \<Rightarrow> ordering" where
  "cmp_list c [] [] = Equal"
| "cmp_list c [] (y # ys) = Less"
| "cmp_list c (x # xs) [] = Greater"
| "cmp_list c (x # xs) (y # ys) = ord_then (c x y) (cmp_list c xs ys)"

locale ordered_code =
  fixes enc :: "'v \<Rightarrow> bytes"
    and vcmp :: "'v \<Rightarrow> 'v \<Rightarrow> ordering"
    and ok :: "'t \<Rightarrow> 'v \<Rightarrow> bool"
    and follow :: "bytes \<Rightarrow> bool"
  assumes follow_Nil: "follow []"
    and follow_enc: "ok t v \<Longrightarrow> follow rest \<Longrightarrow> follow (enc v @ rest)"
    and code_equal: "ok t v \<Longrightarrow> ok t w \<Longrightarrow> vcmp v w = Equal \<Longrightarrow> enc v = enc w"
    and code_less: "ok t v \<Longrightarrow> ok t w \<Longrightarrow> vcmp v w = Less \<Longrightarrow> follow r \<Longrightarrow> follow s
      \<Longrightarrow> enc v @ r < enc w @ s"
    and code_flip: "ok t v \<Longrightarrow> ok t w \<Longrightarrow> vcmp v w = Greater \<Longrightarrow> vcmp w v = Less"
begin

lemma follow_concat:
  "list_all2 ok ts vs \<Longrightarrow> follow rest \<Longrightarrow> follow (concat (map enc vs) @ rest)"
  by (induction ts vs rule: list_all2_induct) (auto intro: follow_enc)

lemma code_cmp:
  assumes "ok t v" and "ok t w"
  shows "ord_cmp (enc v) (enc w) = vcmp v w"
proof (cases "vcmp v w")
  case Less
  then show ?thesis
    using code_less [OF assms Less follow_Nil follow_Nil] by (simp add: ord_cmp_def)
next
  case Equal
  then show ?thesis
    using code_equal [OF assms Equal] by simp
next
  case Greater
  then have "enc w < enc v"
    using code_less [OF assms(2,1) code_flip [OF assms Greater] follow_Nil follow_Nil] by simp
  then show ?thesis
    using Greater by simp
qed

lemma concat_cmp:
  "list_all2 ok ts vs \<Longrightarrow> list_all2 ok ts ws
    \<Longrightarrow> ord_cmp (concat (map enc vs)) (concat (map enc ws)) = cmp_list vcmp vs ws"
proof (induction ts vs arbitrary: ws rule: list_all2_induct)
  case Nil
  then show ?case by simp
next
  case (Cons t ts v vs)
  then obtain w ws' where ws: "ws = w # ws'" "ok t w" "list_all2 ok ts ws'"
    by (auto simp: list_all2_Cons1)
  have f: "follow (concat (map enc vs))" "follow (concat (map enc ws'))"
    using follow_concat [OF Cons.hyps(2) follow_Nil] follow_concat [OF ws(3) follow_Nil]
    by simp_all
  show ?case
  proof (cases "vcmp v w")
    case Less
    then have "enc v @ concat (map enc vs) < enc w @ concat (map enc ws')"
      using Cons.hyps(1) ws(2) f by (intro code_less)
    then show ?thesis using Less ws(1) by simp
  next
    case Equal
    then have "enc v = enc w"
      using Cons.hyps(1) ws(2) by (intro code_equal)
    then have "ord_cmp (concat (map enc (v # vs))) (concat (map enc ws))
        = ord_cmp (concat (map enc vs)) (concat (map enc ws'))"
      by (intro ord_cmp_mono) (simp_all add: ws(1))
    then show ?thesis
      using Equal ws(1) Cons.IH [OF ws(3)] by simp
  next
    case Greater
    then have "enc w @ concat (map enc ws') < enc v @ concat (map enc vs)"
      using Cons.hyps(1) ws(2) f code_flip by (intro code_less) auto
    then show ?thesis using Greater ws(1) by simp
  qed
qed

end

end
