(* ===== verification/Float64.thy ===== *)
theory Float64
  imports Mpedb_Prelude
begin

unbundle bit_operations_syntax

text \<open>
  The IEEE 754 binary64 operations that \<open>mpedb-types/src/value.rs\<close> uses. An \<open>f64\<close> is its bit
  pattern, and the number it stands for is \<open>fix_val w / 2 ^ 1074\<close>: every finite double is a
  multiple of the least subnormal, so comparisons are comparisons of integers. Applied to the two
  infinities the same formula gives a number above, and below, every finite one, which is all that
  a comparison needs. On top of these stand the exact integer-against-float comparison, the two
  losslessness tests and the order-preserving image of a float.
\<close>

section \<open>Fields and the number denoted\<close>

definition f_mag :: "f64 \<Rightarrow> nat" where
  "f_mag w = unat w mod 2 ^ 63"

definition f_neg :: "f64 \<Rightarrow> bool" where
  "f_neg w \<longleftrightarrow> 2 ^ 63 \<le> unat w"

definition inf_mag :: nat where
  "inf_mag = 2047 * 2 ^ 52"

definition is_nan :: "f64 \<Rightarrow> bool" where
  "is_nan w \<longleftrightarrow> inf_mag < f_mag w"

definition is_finite :: "f64 \<Rightarrow> bool" where
  "is_finite w \<longleftrightarrow> f_mag w < inf_mag"

text \<open>The magnitude field as a number: exponent zero is the subnormal range.\<close>

definition mag_val :: "nat \<Rightarrow> nat" where
  "mag_val m = (let e = m div 2 ^ 52; f = m mod 2 ^ 52
     in if e = 0 then f else (2 ^ 52 + f) * 2 ^ (e - 1))"

definition fix_val :: "f64 \<Rightarrow> int" where
  "fix_val w = (if f_neg w then - int (mag_val (f_mag w)) else int (mag_val (f_mag w)))"

text \<open>One, in units of the least subnormal.\<close>

definition fix_one :: int where
  "fix_one = 2 ^ 1074"

definition f_less :: "f64 \<Rightarrow> f64 \<Rightarrow> bool" where
  "f_less a b \<longleftrightarrow> \<not> is_nan a \<and> \<not> is_nan b \<and> fix_val a < fix_val b"

definition f_eq :: "f64 \<Rightarrow> f64 \<Rightarrow> bool" where
  "f_eq a b \<longleftrightarrow> \<not> is_nan a \<and> \<not> is_nan b \<and> fix_val a = fix_val b"

definition partial_cmp :: "f64 \<Rightarrow> f64 \<Rightarrow> ordering option" where
  "partial_cmp a b = (if is_nan a \<or> is_nan b then None else Some (ord_cmp (fix_val a) (fix_val b)))"

text \<open>The constants \<open>f64::NAN\<close> and \<open>9223372036854775808.0\<close>, with its negation.\<close>

definition f64_nan :: f64 where
  "f64_nan = 0x7ff8000000000000"

definition f64_two63 :: f64 where
  "f64_two63 = 0x43e0000000000000"

definition f64_minus_two63 :: f64 where
  "f64_minus_two63 = 0xc3e0000000000000"

section \<open>Casts\<close>

text \<open>Rounding a fixed-point number towards zero.\<close>

definition trunc_val :: "int \<Rightarrow> int" where
  "trunc_val x = (if x < 0 then - (- x div fix_one) else x div fix_one)"

text \<open>\<open>r as i64\<close> and \<open>r as i128\<close>: towards zero, saturating, and zero for NaN.\<close>

definition sat_cast :: "nat \<Rightarrow> f64 \<Rightarrow> int" where
  "sat_cast b r = (if is_nan r then 0 else max (- (2 ^ b)) (min (2 ^ b - 1) (trunc_val (fix_val r))))"

definition f64_as_i64 :: "f64 \<Rightarrow> i64" where
  "f64_as_i64 r = word_of_int (sat_cast 63 r)"

definition f64_as_i128 :: "f64 \<Rightarrow> int" where
  "f64_as_i128 r = sat_cast 127 r"

text \<open>The position of the leading bit of a positive number.\<close>

fun log2_nat :: "nat \<Rightarrow> nat" where
  "log2_nat n = (if n < 2 then 0 else Suc (log2_nat (n div 2)))"

text \<open>
  The magnitude field nearest to a natural number, ties to even. The significand is \<open>n\<close> cut to 53
  bits; a round up that overflows it carries into the exponent field.
\<close>

definition round_half_even :: "nat \<Rightarrow> nat \<Rightarrow> nat" where
  "round_half_even n s = (let q = n div 2 ^ s; r = n mod 2 ^ s
     in if 2 * r > 2 ^ s \<or> (2 * r = 2 ^ s \<and> odd q) then q + 1 else q)"

definition nat_as_mag :: "nat \<Rightarrow> nat" where
  "nat_as_mag n =
    (if n = 0 then 0
     else let k = log2_nat n
          in if k \<le> 52 then (k + 1022) * 2 ^ 52 + n * 2 ^ (52 - k)
             else (k + 1022) * 2 ^ 52 + round_half_even n (k - 52))"

definition i64_as_f64 :: "i64 \<Rightarrow> f64" where
  "i64_as_f64 i = word_of_nat
     ((if sint i < 0 then 2 ^ 63 else 0) + nat_as_mag (nat \<bar>sint i\<bar>))"

section \<open>The comparisons and tests of value.rs\<close>

definition normalize_float_bits :: "f64 \<Rightarrow> u64" where
  "normalize_float_bits v0 =
    (let v = (if f_eq v0 0 then 0 else v0);
         bits = (if is_nan v then f64_nan else v)
     in if drop_bit 63 bits = 1 then NOT bits else bits OR push_bit 63 1)"

definition float_total_cmp :: "f64 \<Rightarrow> f64 \<Rightarrow> ordering" where
  "float_total_cmp a b = ord_cmp (normalize_float_bits a) (normalize_float_bits b)"

definition int_float_cmp :: "i64 \<Rightarrow> f64 \<Rightarrow> ordering" where
  "int_float_cmp i r =
    (if is_nan r then Less
     else if f_less r f64_minus_two63 then Greater
     else if \<not> f_less r f64_two63 then Less
     else let y = f64_as_i64 r
          in case icmp i y of
               Equal \<Rightarrow> (case partial_cmp (i64_as_f64 i) r of Some c \<Rightarrow> c | None \<Rightarrow> Equal)
             | other \<Rightarrow> other)"

definition exact_int_as_float :: "i64 \<Rightarrow> f64 option" where
  "exact_int_as_float n =
    (let f = i64_as_f64 n in if f64_as_i128 f = sint n then Some f else None)"

text \<open>\<open>f.fract() != 0.0\<close> for a finite \<open>f\<close>: the part below one is what truncation drops.\<close>

definition fract_nonzero :: "f64 \<Rightarrow> bool" where
  "fract_nonzero f \<longleftrightarrow> fix_val f \<noteq> trunc_val (fix_val f) * fix_one"

definition exact_float_as_int :: "f64 \<Rightarrow> i64 option" where
  "exact_float_as_int f =
    (if \<not> is_finite f \<or> fract_nonzero f then None
     else let i = f64_as_i128 f
          in if - (2 ^ 63) \<le> i \<and> i \<le> 2 ^ 63 - 1 then Some (word_of_int i) else None)"

declare log2_nat.simps [simp del]

section \<open>Lemmas: the magnitude field is monotone\<close>

lemma mag_val_parts:
  "f < 2 ^ 52 \<Longrightarrow> mag_val (e * 2 ^ 52 + f) = (if e = 0 then f else (2 ^ 52 + f) * 2 ^ (e - 1))"
  by (simp add: mag_val_def)

lemma mag_val_upper:
  assumes "f < 2 ^ 52"
  shows "mag_val (e * 2 ^ 52 + f) < 2 ^ 52 * 2 ^ e"
proof (cases e)
  case 0
  then show ?thesis using assms by (simp add: mag_val_def)
next
  case (Suc k)
  have "(2 ^ 52 + f) * 2 ^ k < (2 * 2 ^ 52) * 2 ^ k"
    using assms by (intro mult_strict_right_mono) simp_all
  then show ?thesis
    unfolding mag_val_parts [OF assms] Suc by simp
qed

lemma mag_val_lower:
  assumes "f < 2 ^ 52" and "0 < e"
  shows "2 ^ 52 * 2 ^ (e - 1) \<le> mag_val (e * 2 ^ 52 + f)"
  unfolding mag_val_parts [OF assms(1)] using assms(2) by simp

lemma mag_parts: "\<exists>e f. m = e * 2 ^ 52 + f \<and> f < 2 ^ 52" for m :: nat
  by (rule exI [of _ "m div 2 ^ 52"], rule exI [of _ "m mod 2 ^ 52"])
    (simp only: div_mult_mod_eq, simp)

lemma mag_val_less:
  assumes "m < n"
  shows "mag_val m < mag_val n"
proof -
  obtain e f where m: "m = e * 2 ^ 52 + f" and f: "f < 2 ^ 52"
    using mag_parts by blast
  obtain e' f' where n: "n = e' * 2 ^ 52 + f'" and f': "f' < 2 ^ 52"
    using mag_parts by blast
  have "e = e' \<and> f < f' \<or> e < e'"
    using assms f f' unfolding m n by (cases e e' rule: linorder_cases) simp_all
  then show ?thesis
  proof
    assume "e = e' \<and> f < f'"
    then show ?thesis
      unfolding m n mag_val_parts [OF f] mag_val_parts [OF f'] by simp
  next
    assume lt: "e < e'"
    have "mag_val m < 2 ^ 52 * 2 ^ e"
      unfolding m by (rule mag_val_upper [OF f])
    also have "(2 ^ 52 * 2 ^ e :: nat) \<le> 2 ^ 52 * 2 ^ (e' - 1)"
      using lt by (intro mult_le_mono2 power_increasing) simp_all
    also have "\<dots> \<le> mag_val n"
      unfolding n using lt by (intro mag_val_lower f') simp
    finally show ?thesis .
  qed
qed

lemma mag_val_less_iff [simp]: "mag_val m < mag_val n \<longleftrightarrow> m < n"
  using mag_val_less by (metis less_asym' linorder_neqE_nat)

lemma mag_val_eq_iff [simp]: "mag_val m = mag_val n \<longleftrightarrow> m = n"
  by (metis mag_val_less less_irrefl linorder_neqE_nat)

lemma mag_val_0 [simp]: "mag_val 0 = 0"
  by (simp add: mag_val_def)

lemma mag_val_eq_0 [simp]: "mag_val m = 0 \<longleftrightarrow> m = 0"
  using mag_val_eq_iff [of m 0] by simp

lemma mag_val_le_iff [simp]: "mag_val m \<le> mag_val n \<longleftrightarrow> m \<le> n"
  by (simp flip: not_less)

lemma mod_half: "x < 2 * d \<Longrightarrow> x = x mod d + (if d \<le> x then d else 0)" for d :: nat
  by (auto simp: le_mod_geq)

lemma unat_split: "unat (w :: f64) = f_mag w + (if f_neg w then 2 ^ 63 else 0)"
  unfolding f_mag_def f_neg_def
  using unsigned_less [of w] by (intro mod_half) simp

lemma f_mag_less: "f_mag w < 2 ^ 63"
  by (simp add: f_mag_def)

lemma f64_eqI: "f_mag v = f_mag w \<Longrightarrow> f_neg v = f_neg w \<Longrightarrow> v = w"
  by (simp add: word_unat_eq_iff unat_split)

lemma f_fields_0 [simp]: "f_mag 0 = 0" "\<not> f_neg 0" "fix_val 0 = 0" "\<not> is_nan 0"
  by (simp_all add: f_mag_def f_neg_def fix_val_def is_nan_def inf_mag_def)

lemma fix_val_0_iff [simp]: "fix_val w = 0 \<longleftrightarrow> f_mag w = 0"
  by (simp add: fix_val_def)

text \<open>The comparison of two numbers is a comparison of sign and magnitude.\<close>

lemma fix_val_less_iff:
  "fix_val v < fix_val w \<longleftrightarrow>
    (if f_neg v then (if f_neg w then f_mag w < f_mag v else 0 < f_mag v \<or> 0 < f_mag w)
     else \<not> f_neg w \<and> f_mag v < f_mag w)"
proof (cases "f_neg v"; cases "f_neg w")
  assume "f_neg v" "\<not> f_neg w"
  then show ?thesis
    using mag_val_eq_0 [of "f_mag v"] mag_val_eq_0 [of "f_mag w"]
    by (auto simp: fix_val_def simp del: mag_val_eq_0)
qed (auto simp: fix_val_def)

section \<open>Lemmas: the order-preserving image\<close>

lemma unat_drop_bit: "unat (drop_bit n (w :: 'a::len word)) = unat w div 2 ^ n"
  by (subst unat_drop_bit_eq) (simp only: drop_bit_eq_div)

lemma drop_bit_63: "drop_bit 63 (w :: f64) = 1 \<longleftrightarrow> f_neg w"
proof -
  have "unat w < 2 * 2 ^ 63"
    using unsigned_less [of w] by simp
  then have "unat w div 2 ^ 63 = (if f_neg w then 1 else 0)"
    unfolding f_neg_def by (auto intro: div_nat_eqI)
  then show ?thesis
    by (simp add: word_unat_eq_iff unat_drop_bit)
qed

lemma unat_or_top:
  assumes "\<not> f_neg w"
  shows "unat (w OR push_bit 63 1) = 2 ^ 63 + f_mag w"
proof -
  have w: "unat w = f_mag w"
    using assms by (simp add: unat_split)
  have "bit w 63 \<longleftrightarrow> odd (drop_bit 63 w)"
    by (simp add: bit_iff_odd_drop_bit)
  moreover have "drop_bit 63 w = 0"
    using w f_mag_less [of w]
    by (simp only: word_unat_eq_iff unat_drop_bit unsigned_0) simp
  ultimately have "\<not> bit w 63"
    by simp
  then have "w OR push_bit 63 1 = w + 2 ^ 63"
    using set_bit_eq [of 63 w] by (simp add: set_bit_eq_or)
  moreover have "unat (w + 2 ^ 63) = (unat w + 2 ^ 63) mod 2 ^ 64"
    by (simp add: unat_word_ariths)
  ultimately show ?thesis
    using w f_mag_less [of w] by simp
qed

lemma unat_not: "unat (NOT w :: f64) = 2 ^ 64 - 1 - unat w"
proof -
  have "NOT w = - 1 - w"
    by (simp add: not_eq_complement)
  also have "unat \<dots> = unat (- 1 :: f64) - unat w"
    by (intro unat_sub word_order.extremum)
  finally show ?thesis
    by (simp add: unsigned_minus_1_eq_mask mask_eq_exp_minus_1)
qed

lemma f_eq_0 [simp]: "f_eq v 0 \<longleftrightarrow> f_mag v = 0"
  by (auto simp: f_eq_def is_nan_def)

lemma f64_nan_fields: "f_mag f64_nan = 0x7ff8000000000000" "\<not> f_neg f64_nan"
  by (simp_all add: f64_nan_def f_mag_def f_neg_def)

definition nan_mag :: nat where
  "nan_mag = 0x7ff8000000000000"

lemma unat_normalize_float_bits:
  "unat (normalize_float_bits v) =
    (if is_nan v then 2 ^ 63 + nan_mag
     else if f_neg v \<and> f_mag v \<noteq> 0 then 2 ^ 63 - 1 - f_mag v
     else 2 ^ 63 + f_mag v)"
proof (cases "is_nan v")
  case True
  then have "f_mag v \<noteq> 0"
    by (auto simp: is_nan_def)
  then show ?thesis
    using True f64_nan_fields
    by (simp add: normalize_float_bits_def drop_bit_63 unat_or_top [simplified] nan_mag_def)
next
  case False
  show ?thesis
  proof (cases "f_mag v = 0")
    case True
    then show ?thesis
      using False unat_or_top [of 0] by (simp add: normalize_float_bits_def drop_bit_63)
  next
    case mag: False
    have "unat (NOT v) = 2 ^ 63 - 1 - f_mag v" if "f_neg v"
      using that f_mag_less [of v] by (simp only: unat_not unat_split [of v]) simp
    then show ?thesis
      using False mag
      by (simp add: normalize_float_bits_def drop_bit_63 unat_or_top [simplified])
  qed
qed

text \<open>The key image orders exactly as the numbers do, with every NaN on top and equal.\<close>

lemma normalize_less_iff:
  "normalize_float_bits a < normalize_float_bits b \<longleftrightarrow>
    \<not> is_nan a \<and> (is_nan b \<or> fix_val a < fix_val b)"
  using f_mag_less [of a] f_mag_less [of b]
  by (auto simp: word_less_nat_alt unat_normalize_float_bits fix_val_less_iff is_nan_def
      nan_mag_def inf_mag_def)

lemma normalize_eq_iff:
  "normalize_float_bits a = normalize_float_bits b \<longleftrightarrow>
    is_nan a \<and> is_nan b \<or> \<not> is_nan a \<and> \<not> is_nan b \<and> fix_val a = fix_val b"
  using normalize_less_iff [of a b] normalize_less_iff [of b a]
  by (metis less_irrefl linorder_less_linear)

section \<open>Lemmas: casts between integers and floats\<close>

lemma fix_one_pos [simp]: "0 < fix_one"
  by (simp add: fix_one_def)

lemma log2_nat_bounds: "0 < n \<Longrightarrow> 2 ^ log2_nat n \<le> n \<and> n < 2 ^ Suc (log2_nat n)"
proof (induction n rule: log2_nat.induct)
  case (1 n)
  show ?case
  proof (cases "n < 2")
    case True
    then show ?thesis using 1 by (simp add: log2_nat.simps [of n])
  next
    case False
    then have "2 ^ log2_nat (n div 2) \<le> n div 2 \<and> n div 2 < 2 ^ Suc (log2_nat (n div 2))"
      using 1 by simp
    then show ?thesis
      using False by (simp add: log2_nat.simps [of n]) linarith
  qed
qed

lemma log2_nat_le:
  assumes "0 < n" and "n < 2 ^ Suc b"
  shows "log2_nat n \<le> b"
proof -
  have "(2::nat) ^ log2_nat n < 2 ^ Suc b"
    using log2_nat_bounds [OF assms(1)] assms(2) by linarith
  then show ?thesis
    using power_less_imp_less_exp [of "2::nat" "log2_nat n" "Suc b"] by simp
qed

text \<open>A natural number with at most 53 significant bits is its own nearest float.\<close>

lemma nat_as_mag_exact:
  assumes n: "n = m * 2 ^ s" "0 < n" "m < 2 ^ 53"
  shows "mag_val (nat_as_mag n) = n * 2 ^ 1074"
proof -
  define k where "k = log2_nat n"
  have k: "2 ^ k \<le> n" "n < 2 ^ Suc k"
    using log2_nat_bounds [OF n(2)] by (simp_all add: k_def)
  show ?thesis
  proof (cases "k \<le> 52")
    case True
    have e: "2 ^ k * 2 ^ (52 - k) = (2 ^ 52 :: nat)"
      using True by (simp flip: power_add)
    have "2 ^ k * 2 ^ (52 - k) \<le> n * 2 ^ (52 - k)" "n * 2 ^ (52 - k) < 2 ^ Suc k * 2 ^ (52 - k)"
      using k by (intro mult_le_mono1 mult_strict_right_mono; simp)+
    then have q: "2 ^ 52 \<le> n * 2 ^ (52 - k)" "n * 2 ^ (52 - k) < 2 * 2 ^ 52"
      by (simp_all only: power_Suc mult.assoc e)
    then obtain f where f: "n * 2 ^ (52 - k) = 2 ^ 52 + f" "f < 2 ^ 52"
      by (metis add_less_cancel_left le_Suc_ex mult_2)
    have "nat_as_mag n = (k + 1023) * 2 ^ 52 + f"
      using n(2) True f(1) by (simp add: nat_as_mag_def Let_def flip: k_def)
    then have "mag_val (nat_as_mag n) = n * 2 ^ (52 - k) * 2 ^ (k + 1022)"
      using mag_val_parts [OF f(2), of "k + 1023"] f(1) by simp
    also have "\<dots> = n * (2 ^ ((52 - k) + (k + 1022)))"
      by (simp only: power_add mult.assoc)
    finally show ?thesis
      using True by simp
  next
    case False
    define t where "t = k - 52"
    have kt: "k = 52 + t" using False by (simp add: t_def)
    have "t \<le> s"
    proof (rule ccontr)
      assume "\<not> t \<le> s"
      then have "m * 2 ^ s < 2 ^ 53 * 2 ^ (t - 1)"
        using n(3) by (intro mult_less_le_imp_less power_increasing) simp_all
      also have "\<dots> = 2 ^ k"
        using \<open>\<not> t \<le> s\<close> by (cases t) (simp_all add: kt power_add)
      finally show False using n(1) k(1) by simp
    qed
    then have n': "n = n div 2 ^ t * 2 ^ t"
      using n(1) by (simp add: le_imp_power_dvd)
    have "2 ^ 52 * 2 ^ t \<le> n div 2 ^ t * (2 ^ t :: nat)" "n div 2 ^ t * 2 ^ t < 2 * 2 ^ 52 * (2 ^ t :: nat)"
      using k unfolding n' [symmetric] by (simp_all add: kt power_add)
    then have q: "2 ^ 52 \<le> n div 2 ^ t" "n div 2 ^ t < 2 * 2 ^ 52"
      by simp_all
    then obtain f where f: "n div 2 ^ t = 2 ^ 52 + f" "f < 2 ^ 52"
      by (metis add_less_cancel_left le_Suc_ex mult_2)
    have "n mod 2 ^ t = 0"
      using n' by (metis mod_mult_self2_is_0)
    then have "nat_as_mag n = (k + 1023) * 2 ^ 52 + f"
      using n(2) False f(1)
      by (simp add: nat_as_mag_def Let_def round_half_even_def flip: k_def t_def)
    then have "mag_val (nat_as_mag n) = n div 2 ^ t * 2 ^ (k + 1022)"
      using mag_val_parts [OF f(2), of "k + 1023"] f(1) by simp
    also have "\<dots> = n div 2 ^ t * 2 ^ t * 2 ^ 1074"
      by (simp add: kt power_add)
    finally show ?thesis
      using n' by simp
  qed
qed

lemma round_half_even_le: "round_half_even n s \<le> n div 2 ^ s + 1"
  by (simp add: round_half_even_def Let_def)

lemma nat_as_mag_less:
  assumes "n < 2 ^ 64"
  shows "nat_as_mag n < inf_mag"
proof (cases "n = 0")
  case True
  then show ?thesis by (simp add: nat_as_mag_def inf_mag_def)
next
  case False
  define k where "k = log2_nat n"
  have k: "k \<le> 63" "n < 2 ^ Suc k"
    using log2_nat_le [of n 63] log2_nat_bounds [of n] assms False by (simp_all add: k_def)
  have low: "n * 2 ^ (52 - k) \<le> 2 ^ 53" if "k \<le> 52"
  proof -
    have "n * 2 ^ (52 - k) \<le> 2 ^ Suc k * 2 ^ (52 - k)"
      using k(2) by (intro mult_le_mono1) simp
    also have "\<dots> = 2 ^ (Suc k + (52 - k))"
      by (simp only: power_add)
    finally show ?thesis using that by simp
  qed
  have high: "round_half_even n (k - 52) \<le> 2 ^ 53" if "52 < k"
  proof -
    have "n < 2 ^ 53 * 2 ^ (k - 52)"
      using k(2) that by (simp only: power_add [symmetric]) simp
    then have "n div 2 ^ (k - 52) < 2 ^ 53"
      by (simp add: less_mult_imp_div_less)
    then show ?thesis
      using round_half_even_le [of n "k - 52"] by linarith
  qed
  have "nat_as_mag n \<le> (k + 1022) * 2 ^ 52 + 2 ^ 53"
    using False low high by (simp add: nat_as_mag_def Let_def flip: k_def)
  then show ?thesis
    using k(1) by (simp add: inf_mag_def)
qed

lemma i64_as_f64_fields:
  "f_mag (i64_as_f64 i) = nat_as_mag (nat \<bar>sint i\<bar>)" (is "_ = ?m")
  "f_neg (i64_as_f64 i) \<longleftrightarrow> sint i < 0"
  "is_finite (i64_as_f64 i)"
  "\<not> is_nan (i64_as_f64 i)"
proof -
  have "nat \<bar>sint i\<bar> < 2 ^ 64"
    using sint_lt [of i] sint_ge [of i] by simp
  then have m: "?m < inf_mag"
    by (rule nat_as_mag_less)
  then have "?m < 2 ^ 63"
    by (simp add: inf_mag_def)
  then have "(if sint i < 0 then 2 ^ 63 else 0) + ?m < 2 ^ LENGTH(64)"
    by (cases "sint i < 0") simp_all
  then have "unat (i64_as_f64 i) = (if sint i < 0 then 2 ^ 63 else 0) + ?m"
    unfolding i64_as_f64_def by (simp only: unat_of_nat) simp
  then show *: "f_mag (i64_as_f64 i) = ?m" "f_neg (i64_as_f64 i) \<longleftrightarrow> sint i < 0"
    using \<open>?m < 2 ^ 63\<close> by (cases "sint i < 0"; simp add: f_mag_def f_neg_def)+
  show "is_finite (i64_as_f64 i)" "\<not> is_nan (i64_as_f64 i)"
    using m by (simp_all add: * is_finite_def is_nan_def)
qed

lemma i64_as_f64_exact:
  assumes "nat \<bar>sint i\<bar> = m * 2 ^ s" and "m < 2 ^ 53"
  shows "fix_val (i64_as_f64 i) = sint i * fix_one"
proof (cases "sint i = 0")
  case True
  then show ?thesis
    by (simp add: i64_as_f64_fields nat_as_mag_def fix_val_def)
next
  case False
  then have "mag_val (nat_as_mag (nat \<bar>sint i\<bar>)) = nat \<bar>sint i\<bar> * 2 ^ 1074"
    by (intro nat_as_mag_exact [OF assms(1) _ assms(2)]) simp
  then have "int (mag_val (nat_as_mag (nat \<bar>sint i\<bar>))) = \<bar>sint i\<bar> * fix_one"
    by (simp only: of_nat_mult of_nat_power fix_one_def) simp
  then show ?thesis
    by (cases "sint i < 0") (simp_all add: fix_val_def i64_as_f64_fields)
qed

text \<open>What truncation leaves: less than one away, towards zero.\<close>

lemma trunc_val_bounds:
  "0 \<le> x \<Longrightarrow> trunc_val x * fix_one \<le> x \<and> x < (trunc_val x + 1) * fix_one"
  "x < 0 \<Longrightarrow> (trunc_val x - 1) * fix_one < x \<and> x \<le> trunc_val x * fix_one"
proof -
  have d: "y div fix_one * fix_one \<le> y \<and> y < (y div fix_one + 1) * fix_one" for y
    using div_mult_mod_eq [of y fix_one] pos_mod_bound [OF fix_one_pos, of y]
      pos_mod_sign [OF fix_one_pos, of y]
    by (simp only: distrib_right mult_1) linarith
  show "0 \<le> x \<Longrightarrow> trunc_val x * fix_one \<le> x \<and> x < (trunc_val x + 1) * fix_one"
    using d [of x] by (simp add: trunc_val_def)
  show "x < 0 \<Longrightarrow> (trunc_val x - 1) * fix_one < x \<and> x \<le> trunc_val x * fix_one"
    using d [of "- x"] by (simp add: trunc_val_def algebra_simps)
qed

lemma trunc_val_unique:
  assumes "(t - 1) * fix_one < x \<and> x \<le> t * fix_one \<and> x \<le> 0
    \<or> t * fix_one \<le> x \<and> x < (t + 1) * fix_one \<and> 0 \<le> x"
  shows "trunc_val x = t"
proof -
  have u: "y div fix_one = k" if "k * fix_one \<le> y" "y < (k + 1) * fix_one" for y k
    using that by (intro int_div_pos_eq [of y fix_one k "y - k * fix_one"]) (auto simp: algebra_simps)
  show ?thesis
    using assms u [of t x] u [of "- t" "- x"] by (auto simp: trunc_val_def algebra_simps)
qed

lemma trunc_val_less:
  assumes "i < trunc_val x"
  shows "i * fix_one < x"
proof -
  have "i * fix_one \<le> (trunc_val x - 1) * fix_one"
    using assms by (intro mult_right_mono less_imp_le [OF fix_one_pos]) simp
  moreover have "(trunc_val x - 1) * fix_one < trunc_val x * fix_one"
    by simp
  ultimately show ?thesis
    using trunc_val_bounds [of x] by linarith
qed

lemma trunc_val_greater:
  assumes "trunc_val x < i"
  shows "x < i * fix_one"
proof -
  have "(trunc_val x + 1) * fix_one \<le> i * fix_one"
    using assms by (intro mult_right_mono less_imp_le [OF fix_one_pos]) simp
  moreover have "trunc_val x * fix_one < (trunc_val x + 1) * fix_one"
    by simp
  ultimately show ?thesis
    using trunc_val_bounds [of x] by linarith
qed

text \<open>
  A float whose truncation is \<open>i\<close> shows that \<open>i\<close> has at most 53 significant bits: below \<open>2 ^ 53\<close>
  because \<open>i\<close> is small, above because the float has no fractional part.
\<close>

lemma trunc_representable:
  assumes "trunc_val (fix_val r) = i"
  obtains m s where "nat \<bar>i\<bar> = m * 2 ^ s" "m < 2 ^ 53"
proof -
  obtain e f where ef: "f_mag r = e * 2 ^ 52 + f" and f: "f < 2 ^ 52"
    using mag_parts by blast
  define v where "v = mag_val (f_mag r)"
  have i: "nat \<bar>i\<bar> = v div 2 ^ 1074"
    using assms
    by (auto simp: trunc_val_def fix_val_def fix_one_def nat_div_distrib nat_power_eq simp flip: v_def)
  have v: "v = (if e = 0 then f else (2 ^ 52 + f) * 2 ^ (e - 1))"
    unfolding v_def ef by (rule mag_val_parts [OF f])
  show ?thesis
  proof (cases "e \<le> 1075")
    case True
    have "v < 2 ^ 52 * 2 ^ e"
      unfolding v_def ef by (rule mag_val_upper [OF f])
    also have "\<dots> \<le> 2 ^ 52 * 2 ^ 1075"
      using True by (intro mult_le_mono2 power_increasing) simp_all
    also have "\<dots> = 2 ^ 53 * 2 ^ 1074"
      by (simp only: power_add [symmetric]) simp
    finally have "v div 2 ^ 1074 < 2 ^ 53"
      by (rule less_mult_imp_div_less)
    then show ?thesis
      using that [of "v div 2 ^ 1074" 0] i by simp
  next
    case False
    then have "v = (2 ^ 52 + f) * 2 ^ (e - 1075) * 2 ^ 1074"
      using v by (simp only: mult.assoc power_add [symmetric]) simp
    then have "v div 2 ^ 1074 = (2 ^ 52 + f) * 2 ^ (e - 1075)"
      by (metis nonzero_mult_div_cancel_right power_not_zero zero_neq_numeral)
    then show ?thesis
      using that [of "2 ^ 52 + f" "e - 1075"] i f by simp
  qed
qed

lemma f64_two63_fields:
  "fix_val f64_two63 = 2 ^ 63 * fix_one" "\<not> is_nan f64_two63"
  "fix_val f64_minus_two63 = - (2 ^ 63) * fix_one" "\<not> is_nan f64_minus_two63"
proof -
  have m: "f_mag f64_two63 = 1086 * 2 ^ 52 + 0" "f_mag f64_minus_two63 = 1086 * 2 ^ 52 + 0"
    by (simp_all add: f64_two63_def f64_minus_two63_def f_mag_def)
  have n: "\<not> f_neg f64_two63" "f_neg f64_minus_two63"
    by (simp_all add: f64_two63_def f64_minus_two63_def f_neg_def)
  have "mag_val (1086 * 2 ^ 52 + 0) = 2 ^ 52 * 2 ^ 1085"
    by (subst mag_val_parts) simp_all
  also have "\<dots> = 2 ^ 63 * 2 ^ 1074"
    by (simp only: power_add [symmetric]) simp
  finally have v: "int (mag_val (1086 * 2 ^ 52 + 0)) = 2 ^ 63 * fix_one"
    by (simp only: fix_one_def of_nat_mult of_nat_power of_nat_numeral)
  show "fix_val f64_two63 = 2 ^ 63 * fix_one" "fix_val f64_minus_two63 = - (2 ^ 63) * fix_one"
    unfolding fix_val_def m if_not_P [OF n(1)] if_P [OF n(2)] v by simp_all
  show "\<not> is_nan f64_two63" "\<not> is_nan f64_minus_two63"
    unfolding is_nan_def m by (simp_all add: inf_mag_def)
qed

lemma trunc_val_range:
  assumes "- k * fix_one \<le> x" and "x < k * fix_one" and "0 < k"
  shows "- k \<le> trunc_val x" "trunc_val x < k"
proof -
  show "- k \<le> trunc_val x"
    using assms(1) trunc_val_greater [of x "- k"] by linarith
  show "trunc_val x < k"
  proof (cases "0 \<le> x")
    case True
    then have "trunc_val x * fix_one < k * fix_one"
      using trunc_val_bounds(1) [of x] assms(2) by linarith
    then show ?thesis by (simp add: mult_less_cancel_right less_imp_le)
  next
    case False
    then have "trunc_val x \<le> 0"
      by (simp add: trunc_val_def pos_imp_zdiv_nonneg_iff)
    then show ?thesis using assms(3) by linarith
  qed
qed

lemma sint_word_of_int: "- (2 ^ 63) \<le> t \<Longrightarrow> t < 2 ^ 63 \<Longrightarrow> sint (word_of_int t :: i64) = t"
  by (simp add: sint_sbintrunc' signed_take_bit_int_eq_self)

lemma sint_f64_as_i64:
  assumes "\<not> is_nan r" and "- (2 ^ 63) * fix_one \<le> fix_val r" and "fix_val r < 2 ^ 63 * fix_one"
  shows "sint (f64_as_i64 r) = trunc_val (fix_val r)"
proof -
  have t: "- (2 ^ 63) \<le> trunc_val (fix_val r)" "trunc_val (fix_val r) < 2 ^ 63"
    using trunc_val_range [OF assms(2,3)] by simp_all
  then have "sat_cast 63 r = trunc_val (fix_val r)"
    using assms(1) by (simp add: sat_cast_def)
  then show ?thesis
    using sint_word_of_int [OF t] by (simp only: f64_as_i64_def)
qed

text \<open>\<open>int_float_cmp\<close> compares the two numbers exactly, with NaN above every integer.\<close>

lemma int_float_cmp_exact:
  "int_float_cmp i r = (if is_nan r then Less else ord_cmp (sint i * fix_one) (fix_val r))"
proof (cases "is_nan r")
  case True
  then show ?thesis by (simp add: int_float_cmp_def)
next
  case nan: False
  define x where "x = fix_val r"
  have i: "- (2 ^ 63) \<le> sint i" "sint i < 2 ^ 63"
    using sint_ge [of i] sint_lt [of i] by simp_all
  have lt: "f_less r f64_minus_two63 \<longleftrightarrow> x < - (2 ^ 63) * fix_one"
    "f_less r f64_two63 \<longleftrightarrow> x < 2 ^ 63 * fix_one"
    using nan by (simp_all only: f_less_def f64_two63_fields x_def simp_thms)
  consider (low) "x < - (2 ^ 63) * fix_one" | (high) "2 ^ 63 * fix_one \<le> x"
    | (mid) "- (2 ^ 63) * fix_one \<le> x" "x < 2 ^ 63 * fix_one"
    by linarith
  then show ?thesis
  proof cases
    case low
    have "- (2 ^ 63) * fix_one \<le> sint i * fix_one"
      using i by (intro mult_right_mono less_imp_le [OF fix_one_pos])
    then have "x < sint i * fix_one"
      using low by linarith
    then show ?thesis
      using nan low by (simp add: int_float_cmp_def lt ord_cmp_def flip: x_def)
  next
    case high
    have "sint i * fix_one < 2 ^ 63 * fix_one"
      using i by (intro mult_strict_right_mono fix_one_pos)
    then have "sint i * fix_one < x"
      using high by linarith
    moreover have "- (2 ^ 63) * fix_one < 2 ^ 63 * fix_one"
      by (intro mult_strict_right_mono fix_one_pos) simp
    then have "\<not> x < - (2 ^ 63) * fix_one"
      using high by linarith
    moreover have "\<not> x < 2 ^ 63 * fix_one"
      using high by linarith
    ultimately show ?thesis
      using nan by (simp only: int_float_cmp_def lt ord_cmp_def x_def [symmetric]) simp
  next
    case mid
    define t where "t = trunc_val x"
    have y: "sint (f64_as_i64 r) = t"
      using sint_f64_as_i64 [OF nan] mid by (simp only: x_def t_def)
    have cmp: "int_float_cmp i r = (case ord_cmp (sint i) t of
        Equal \<Rightarrow> ord_cmp (fix_val (i64_as_f64 i)) x | other \<Rightarrow> other)"
      using nan mid
      by (simp add: int_float_cmp_def lt not_less Let_def icmp_def y partial_cmp_def
          i64_as_f64_fields flip: x_def split: ordering.split)
    show ?thesis
    proof (cases "sint i" t rule: linorder_cases)
      case less
      then show ?thesis
        using nan trunc_val_less [of "sint i" x] by (simp add: cmp ord_cmp_def flip: t_def x_def)
    next
      case greater
      then show ?thesis
        using nan trunc_val_greater [of x "sint i"] by (simp add: cmp ord_cmp_def flip: t_def x_def)
    next
      case equal
      then obtain m s where "nat \<bar>sint i\<bar> = m * 2 ^ s" "m < 2 ^ 53"
        using trunc_representable unfolding t_def x_def by metis
      then have "fix_val (i64_as_f64 i) = sint i * fix_one"
        by (rule i64_as_f64_exact)
      then show ?thesis
        using nan equal by (simp add: cmp flip: x_def)
    qed
  qed
qed

section \<open>Lemmas: the losslessness tests\<close>

lemma trunc_val_int [simp]: "trunc_val (k * fix_one) = k"
  by (rule trunc_val_unique)
    (auto simp: mult_le_0_iff zero_le_mult_iff distrib_right left_diff_distrib less_imp_le)

lemma sat_cast_int:
  assumes "\<not> is_nan r" and "fix_val r = k * fix_one" and "- (2 ^ 63) \<le> k" and "k < 2 ^ 63"
  shows "f64_as_i128 r = k"
  using assms by (simp add: f64_as_i128_def sat_cast_def)

lemma sint_range: "- (2 ^ 63) \<le> sint (i :: i64)" "sint (i :: i64) < 2 ^ 63"
  using sint_ge [of i] sint_lt [of i] by simp_all

lemma sat_cast_in_range:
  assumes "- (2 ^ 63) \<le> f64_as_i128 r" and "f64_as_i128 r \<le> 2 ^ 63 - 1" and "\<not> is_nan r"
  shows "f64_as_i128 r = trunc_val (fix_val r)"
  using assms by (simp add: f64_as_i128_def sat_cast_def)

text \<open>An integer that some float denotes is the one the cast gives.\<close>

lemma i64_as_f64_if_represented:
  assumes "fix_val g = sint n * fix_one"
  shows "fix_val (i64_as_f64 n) = sint n * fix_one"
proof -
  obtain m s where "nat \<bar>sint n\<bar> = m * 2 ^ s" "m < 2 ^ 53"
    using trunc_representable [of g "sint n"] assms by auto
  then show ?thesis
    by (rule i64_as_f64_exact)
qed

lemma exact_int_as_float_iff:
  "exact_int_as_float n = Some f \<longleftrightarrow> f = i64_as_f64 n \<and> fix_val f = sint n * fix_one"
proof
  assume "exact_int_as_float n = Some f"
  then have f: "f = i64_as_f64 n" and n: "f64_as_i128 f = sint n"
    by (auto simp: exact_int_as_float_def Let_def split: if_splits)
  have "trunc_val (fix_val f) = sint n"
    using sat_cast_in_range [of f] n sint_range [of n] i64_as_f64_fields(4) [of n] f by simp
  then show "f = i64_as_f64 n \<and> fix_val f = sint n * fix_one"
    using f i64_as_f64_exact trunc_representable by metis
next
  assume "f = i64_as_f64 n \<and> fix_val f = sint n * fix_one"
  then show "exact_int_as_float n = Some f"
    using sat_cast_int [of f "sint n"] sint_range [of n] i64_as_f64_fields(4) [of n]
    by (auto simp: exact_int_as_float_def Let_def)
qed

lemma exact_float_as_int_iff:
  "exact_float_as_int f = Some i \<longleftrightarrow> is_finite f \<and> fix_val f = sint i * fix_one"
proof
  assume *: "exact_float_as_int f = Some i"
  then have fin: "is_finite f" and fr: "fix_val f = trunc_val (fix_val f) * fix_one"
    and rng: "- (2 ^ 63) \<le> f64_as_i128 f" "f64_as_i128 f \<le> 2 ^ 63 - 1"
    and i: "i = word_of_int (f64_as_i128 f)"
    by (auto simp: exact_float_as_int_def fract_nonzero_def Let_def split: if_splits)
  have "\<not> is_nan f"
    using fin by (simp add: is_finite_def is_nan_def)
  then have "f64_as_i128 f = trunc_val (fix_val f)"
    using rng sat_cast_in_range by blast
  moreover have "sint i = f64_as_i128 f"
    unfolding i using rng by (intro sint_word_of_int) simp_all
  ultimately show "is_finite f \<and> fix_val f = sint i * fix_one"
    using fin fr by simp
next
  assume *: "is_finite f \<and> fix_val f = sint i * fix_one"
  then have "\<not> is_nan f"
    by (simp add: is_finite_def is_nan_def)
  then have "f64_as_i128 f = sint i"
    using sat_cast_int [OF _ _ sint_range] * by blast
  then show "exact_float_as_int f = Some i"
    using * sint_range [of i]
    by (simp add: exact_float_as_int_def fract_nonzero_def)
qed

section \<open>Properties\<close>

text \<open>
  C24: \<open>int_float_cmp\<close> compares an integer and a float as numbers, without rounding either: for every
  \<open>i64\<close> and every \<open>f64\<close> that is not NaN the answer is that of the exact numbers (in units of the
  least subnormal), and NaN is above every integer.
\<close>

theorem int_float_cmp_is_exact:
  "int_float_cmp i r = (if is_nan r then Less else ord_cmp (sint i * fix_one) (fix_val r))"
  by (rule int_float_cmp_exact)

text \<open>
  C25: the \<open>u64\<close> image of a float, which keys are built from, orders as the numbers do: it is smaller
  exactly for a smaller number, the same for both zeros and for all NaNs, and NaN is on top.
\<close>

theorem float_image_order:
  "float_total_cmp a b =
    (if is_nan a \<and> is_nan b then Equal else if is_nan a then Greater else if is_nan b then Less
     else ord_cmp (fix_val a) (fix_val b))"
  by (auto simp: float_total_cmp_def ord_cmp_def normalize_less_iff normalize_eq_iff)

text \<open>
  The two losslessness tests say yes exactly when nothing is lost: an integer converts when some
  float denotes it, and the result denotes it; a finite float converts to the integer it denotes.
\<close>

theorem exact_conversions:
  "(exact_int_as_float n = Some f \<longleftrightarrow> f = i64_as_f64 n \<and> fix_val f = sint n * fix_one)
    \<and> (exact_int_as_float n = None \<longleftrightarrow> (\<nexists>g. fix_val g = sint n * fix_one))
    \<and> (exact_float_as_int f = Some i \<longleftrightarrow> is_finite f \<and> fix_val f = sint i * fix_one)"
proof (intro conjI)
  show "exact_int_as_float n = None \<longleftrightarrow> (\<nexists>g. fix_val g = sint n * fix_one)"
    using exact_int_as_float_iff [of n] i64_as_f64_if_represented [of _ n]
    by (metis not_None_eq)
qed (rule exact_int_as_float_iff exact_float_as_int_iff)+

end
