(* ===== verification/Rust_Str.thy ===== *)
theory Rust_Str
  imports Mpedb_Prelude
begin

text \<open>
  The operations of Rust's \<open>str\<close> and of its number formatting that the value layer uses, on strings
  of UTF-8 bytes: \<open>trim\<close>, \<open>split_once\<close>, \<open>split\<close>, the prefix and suffix strippers, ASCII case folding,
  \<open>parse::<i64>\<close> and the zero-padded decimal formats.
\<close>

section \<open>White space\<close>

text \<open>The UTF-8 encodings of the code points with the property White_Space.\<close>

definition white_space :: "string list" where
  "white_space = map (map char_of)
    ([[9], [10], [11], [12], [13], [32], [0xC2, 0x85], [0xC2, 0xA0], [0xE1, 0x9A, 0x80],
      [0xE2, 0x80, 0xA8], [0xE2, 0x80, 0xA9], [0xE2, 0x80, 0xAF], [0xE2, 0x81, 0x9F],
      [0xE3, 0x80, 0x80]]
     @ map (\<lambda>k. [0xE2, 0x80, k]) [0x80 ..< 0x8B] :: nat list list)"

definition ws_at :: "string list \<Rightarrow> string \<Rightarrow> nat" where
  "ws_at ws s = (case find (\<lambda>p. take (length p) s = p) ws of Some p \<Rightarrow> length p | None \<Rightarrow> 0)"

function trim_with :: "string list \<Rightarrow> string \<Rightarrow> string" where
  "trim_with ws s = (if s = [] \<or> ws_at ws s = 0 then s else trim_with ws (drop (ws_at ws s) s))"
  by auto
termination
  by (relation "measure (\<lambda>(ws, s). length s)") auto

declare trim_with.simps [simp del]

definition trim :: "string \<Rightarrow> string" where
  "trim s = rev (trim_with (map rev white_space) (rev (trim_with white_space s)))"

section \<open>Splitting\<close>

definition strip_prefix :: "char \<Rightarrow> string \<Rightarrow> string option" where
  "strip_prefix c s = (case s of x # xs \<Rightarrow> if x = c then Some xs else None | [] \<Rightarrow> None)"

definition strip_suffix :: "char \<Rightarrow> string \<Rightarrow> string option" where
  "strip_suffix c s = (if s \<noteq> [] \<and> last s = c then Some (butlast s) else None)"

definition starts_with :: "char \<Rightarrow> string \<Rightarrow> bool" where
  "starts_with c s \<longleftrightarrow> (case s of x # xs \<Rightarrow> x = c | [] \<Rightarrow> False)"

text \<open>\<open>split_once\<close> with a set of separators (one character, or one of several).\<close>

fun split_once :: "char set \<Rightarrow> string \<Rightarrow> (string \<times> string) option" where
  "split_once C [] = None"
| "split_once C (x # xs) = (if x \<in> C then Some ([], xs)
     else map_option (\<lambda>(a, b). (x # a, b)) (split_once C xs))"

fun split_on :: "char \<Rightarrow> string \<Rightarrow> string list" where
  "split_on c [] = [[]]"
| "split_on c (x # xs) = (if x = c then [] # split_on c xs
     else case split_on c xs of [] \<Rightarrow> [[x]] | y # ys \<Rightarrow> (x # y) # ys)"

text \<open>\<open>s.is_char_boundary(i)\<close>; slicing a \<open>str\<close> anywhere else panics.\<close>

definition char_boundary :: "string \<Rightarrow> nat \<Rightarrow> bool" where
  "char_boundary s i \<longleftrightarrow> i = 0 \<or> i = length s \<or> (i < length s \<and> \<not> cont_byte (byte_of_char (s ! i)))"

definition trim_start_matches :: "char \<Rightarrow> string \<Rightarrow> string" where
  "trim_start_matches c s = dropWhile (\<lambda>x. x = c) s"

definition trim_end_matches :: "char \<Rightarrow> string \<Rightarrow> string" where
  "trim_end_matches c s = rev (dropWhile (\<lambda>x. x = c) (rev s))"

text \<open>\<open>body.find(pat)\<close>: the first position a predicate holds at.\<close>

fun find_pos :: "(char \<Rightarrow> bool) \<Rightarrow> string \<Rightarrow> nat option" where
  "find_pos P [] = None"
| "find_pos P (x # xs) = (if P x then Some 0 else map_option Suc (find_pos P xs))"

section \<open>ASCII classes\<close>

definition is_ascii_digit :: "char \<Rightarrow> bool" where
  "is_ascii_digit c \<longleftrightarrow> 48 \<le> (of_char c :: nat) \<and> (of_char c :: nat) \<le> 57"

definition is_ascii_uppercase :: "char \<Rightarrow> bool" where
  "is_ascii_uppercase c \<longleftrightarrow> 65 \<le> (of_char c :: nat) \<and> (of_char c :: nat) \<le> 90"

definition ascii_lower :: "char \<Rightarrow> char" where
  "ascii_lower c = (if is_ascii_uppercase c then char_of ((of_char c :: nat) + 32) else c)"

definition to_ascii_lowercase :: "string \<Rightarrow> string" where
  "to_ascii_lowercase s = map ascii_lower s"

definition eq_ignore_ascii_case :: "string \<Rightarrow> string \<Rightarrow> bool" where
  "eq_ignore_ascii_case a b \<longleftrightarrow> to_ascii_lowercase a = to_ascii_lowercase b"

definition all_digits :: "string \<Rightarrow> bool" where
  "all_digits s \<longleftrightarrow> list_all is_ascii_digit s"

section \<open>Numbers\<close>

definition digit_val :: "char \<Rightarrow> int" where
  "digit_val c = of_char c - 48"

definition digit_char :: "int \<Rightarrow> char" where
  "digit_char d = char_of (48 + d)"

definition digits_val :: "string \<Rightarrow> int" where
  "digits_val s = foldl (\<lambda>a c. 10 * a + digit_val c) 0 s"

text \<open>\<open>to_string\<close> of an unsigned number.\<close>

function show_uint :: "int \<Rightarrow> string" where
  "show_uint n = (if n < 10 then [digit_char n] else show_uint (n div 10) @ [digit_char (n mod 10)])"
  by auto
termination
  by (relation "measure nat") auto

declare show_uint.simps [simp del]

definition pad_left :: "nat \<Rightarrow> string \<Rightarrow> string" where
  "pad_left w s = replicate (w - length s) CHR ''0'' @ s"

text \<open>\<open>{n:0w}\<close>: the sign comes first and counts into the width.\<close>

definition fmt_pad :: "nat \<Rightarrow> int \<Rightarrow> string" where
  "fmt_pad w n = (if n < 0 then CHR ''-'' # pad_left (w - 1) (show_uint (- n))
     else pad_left w (show_uint n))"

definition show_int :: "int \<Rightarrow> string" where
  "show_int n = (if n < 0 then CHR ''-'' # show_uint (- n) else show_uint n)"

text \<open>
  \<open>parse::<iN>()\<close>: one optional sign, at least one digit, nothing else, and a value in
  \<open>lo .. hi\<close>.
\<close>

definition parse_int :: "int \<Rightarrow> int \<Rightarrow> string \<Rightarrow> int option" where
  "parse_int lo hi s =
    (let (neg, ds) = (case s of
           c # r \<Rightarrow> if c = CHR ''-'' then (True, r) else if c = CHR ''+'' then (False, r) else (False, s)
         | [] \<Rightarrow> (False, s));
         v = (if neg then - digits_val ds else digits_val ds)
     in if ds \<noteq> [] \<and> all_digits ds \<and> lo \<le> v \<and> v \<le> hi then Some v else None)"

definition parse_i64 :: "string \<Rightarrow> int option" where
  "parse_i64 = parse_int (- (2 ^ 63)) (2 ^ 63 - 1)"

definition parse_i128 :: "string \<Rightarrow> int option" where
  "parse_i128 = parse_int (- (2 ^ 127)) (2 ^ 127 - 1)"

text \<open>\<open>i64\<close> arithmetic of a release build: the exact result, wrapped to 64 bits.\<close>

definition wrap_i64 :: "int \<Rightarrow> int" where
  "wrap_i64 x = (x + 2 ^ 63) mod 2 ^ 64 - 2 ^ 63"

definition in_i64 :: "int \<Rightarrow> bool" where
  "in_i64 x \<longleftrightarrow> - (2 ^ 63) \<le> x \<and> x < 2 ^ 63"

text \<open>\<open>checked_add\<close> and friends: the exact result, or \<open>None\<close> outside the range.\<close>

definition checked_i64 :: "int \<Rightarrow> int option" where
  "checked_i64 x = (if in_i64 x then Some x else None)"

definition saturating_i64 :: "int \<Rightarrow> int" where
  "saturating_i64 x = max (- (2 ^ 63)) (min (2 ^ 63 - 1) x)"

text \<open>Rust's \<open>/\<close> on signed integers rounds towards zero.\<close>

definition quot :: "int \<Rightarrow> int \<Rightarrow> int" where
  "quot a b = (if a < 0 then - (- a div b) else a div b)"

definition remt :: "int \<Rightarrow> int \<Rightarrow> int" where
  "remt a b = (if a < 0 then - (- a mod b) else a mod b)"

section \<open>Lemmas: digits\<close>

lemma of_char_int: "(of_char c :: int) = int (of_char c)"
  by (rule of_nat_of_char [symmetric])

lemma of_char_digit_char [simp]: "0 \<le> d \<Longrightarrow> d < 10 \<Longrightarrow> (of_char (digit_char d) :: int) = 48 + d"
  by (simp add: digit_char_def)

lemma is_ascii_digit_int: "is_ascii_digit c \<longleftrightarrow> 48 \<le> (of_char c :: int) \<and> (of_char c :: int) \<le> 57"
  unfolding is_ascii_digit_def of_char_int by linarith

lemma digit_val_digit_char [simp]: "0 \<le> d \<Longrightarrow> d < 10 \<Longrightarrow> digit_val (digit_char d) = d"
  by (simp add: digit_val_def)

lemma is_ascii_digit_digit_char [simp]: "0 \<le> d \<Longrightarrow> d < 10 \<Longrightarrow> is_ascii_digit (digit_char d)"
  by (simp add: is_ascii_digit_int)

lemma is_ascii_digit_zero [simp]: "is_ascii_digit CHR ''0''" "digit_val CHR ''0'' = 0"
  by (simp_all add: is_ascii_digit_def digit_val_def)

lemma digit_val_less: "is_ascii_digit c \<Longrightarrow> 0 \<le> digit_val c \<and> digit_val c < 10"
  unfolding is_ascii_digit_int digit_val_def by linarith

lemma digit_val_inject:
  assumes "is_ascii_digit c" and "is_ascii_digit d" and "digit_val c = digit_val d"
  shows "c = d"
proof -
  have "(of_char c :: int) = of_char d"
    using assms unfolding digit_val_def by linarith
  then show ?thesis by simp
qed

lemma digits_val_snoc [simp]: "digits_val (s @ [c]) = 10 * digits_val s + digit_val c"
  by (simp add: digits_val_def)

lemma digits_val_Nil [simp]: "digits_val [] = 0"
  by (simp add: digits_val_def)

lemma digits_val_append: "digits_val (s @ t) = digits_val s * 10 ^ length t + digits_val t"
proof (induction t rule: rev_induct)
  case (snoc c t)
  then show ?case
    by (simp flip: append_assoc add: algebra_simps)
qed simp

lemma digits_val_zeros [simp]: "digits_val (replicate n CHR ''0'') = 0"
  by (induction n) (simp_all add: replicate_append_same [symmetric])

lemma all_digits_simps [simp]:
  "all_digits []"
  "all_digits (c # s) \<longleftrightarrow> is_ascii_digit c \<and> all_digits s"
  "all_digits (s @ t) \<longleftrightarrow> all_digits s \<and> all_digits t"
  "all_digits (replicate n CHR ''0'')"
  "all_digits (rev s) \<longleftrightarrow> all_digits s"
  by (auto simp: all_digits_def list_all_iff)

lemma digits_val_less: "all_digits s \<Longrightarrow> 0 \<le> digits_val s \<and> digits_val s < 10 ^ length s"
proof (induction s rule: rev_induct)
  case (snoc c s)
  then have "0 \<le> digits_val s \<and> digits_val s < 10 ^ length s" "0 \<le> digit_val c \<and> digit_val c < 10"
    by (simp_all add: digit_val_less)
  then show ?case by simp
qed simp

lemma show_uint_props:
  "0 \<le> n \<Longrightarrow> all_digits (show_uint n) \<and> digits_val (show_uint n) = n \<and> show_uint n \<noteq> []"
proof (induction n rule: show_uint.induct)
  case (1 n)
  then show ?case
    by (cases "n < 10") (simp_all add: show_uint.simps [of n] digits_val_def)
qed

lemma show_uint_simps [simp]:
  assumes "0 \<le> n"
  shows "all_digits (show_uint n)" "digits_val (show_uint n) = n" "show_uint n \<noteq> []"
  using show_uint_props [OF assms] by simp_all

lemma pad_left_simps [simp]:
  "all_digits (pad_left w s) \<longleftrightarrow> all_digits s"
  "digits_val (pad_left w s) = digits_val s"
  "length (pad_left w s) = max w (length s)"
  "pad_left w s = [] \<longleftrightarrow> w = 0 \<and> s = []"
  by (auto simp: pad_left_def digits_val_append)

lemma length_show_uint:
  "n < 10 ^ k \<Longrightarrow> 0 < k \<Longrightarrow> length (show_uint n) \<le> k"
proof (induction n arbitrary: k rule: show_uint.induct)
  case (1 n)
  show ?case
  proof (cases "n < 10")
    case True
    then show ?thesis using 1 by (simp add: show_uint.simps [of n])
  next
    case False
    then obtain j where k: "k = Suc j" "0 < j"
      using 1(2,3) by (cases k; cases "k - 1") auto
    then have "n div 10 < 10 ^ j"
      using 1(2) by auto
    then show ?thesis
      using 1(1) [OF False _ k(2)] False k by (simp add: show_uint.simps [of n])
  qed
qed

section \<open>Lemmas: splitting and trimming\<close>

lemma split_once_None_iff [simp]: "split_once C s = None \<longleftrightarrow> set s \<inter> C = {}"
  by (induction s) auto

lemma split_once_append [simp]:
  "set a \<inter> C = {} \<Longrightarrow> c \<in> C \<Longrightarrow> split_once C (a @ c # b) = Some (a, b)"
  by (induction a) auto

lemma split_once_SomeD: "split_once C s = Some (a, b) \<Longrightarrow> \<exists>c\<in>C. s = a @ c # b \<and> set a \<inter> C = {}"
  by (induction s arbitrary: a) (auto split: if_splits)

lemma split_on_single [simp]: "c \<notin> set s \<Longrightarrow> split_on c s = [s]"
  by (induction s) auto

lemma split_on_append [simp]: "c \<notin> set a \<Longrightarrow> split_on c (a @ c # b) = a # split_on c b"
  by (induction a) auto

lemma digit_not_in:
  assumes "all_digits s" and "\<not> is_ascii_digit c"
  shows "c \<notin> set s"
  using assms by (auto simp: all_digits_def list_all_iff)

lemma not_digit_simps [simp]:
  "\<not> is_ascii_digit CHR ''-''" "\<not> is_ascii_digit CHR ''+''" "\<not> is_ascii_digit CHR '':''"
  "\<not> is_ascii_digit CHR ''.''" "\<not> is_ascii_digit CHR '' ''" "\<not> is_ascii_digit CHR ''T''"
  "\<not> is_ascii_digit CHR ''Z''" "\<not> is_ascii_digit CHR ''z''" "\<not> is_ascii_digit CHR ''e''"
  "\<not> is_ascii_digit CHR ''E''"
  by (simp_all add: is_ascii_digit_def)

text \<open>\<open>trim\<close> keeps a string whose ends are visible ASCII characters.\<close>

definition graphic :: "char \<Rightarrow> bool" where
  "graphic c \<longleftrightarrow> 33 \<le> (of_char c :: nat) \<and> (of_char c :: nat) < 127"

lemma ws_at_graphic:
  assumes "graphic c" and "\<forall>p\<in>set ws. p \<noteq> [] \<and> \<not> graphic (hd p)"
  shows "ws_at ws (c # s) = 0"
proof -
  have "take (length p) (c # s) \<noteq> p" if "p \<in> set ws" for p
    using assms that by (cases p) auto
  then have "find (\<lambda>p. take (length p) (c # s) = p) ws = None"
    by (auto simp: find_None_iff)
  then show ?thesis
    by (simp add: ws_at_def)
qed

lemma white_space_not_graphic:
  "\<forall>p\<in>set white_space. p \<noteq> [] \<and> \<not> graphic (hd p)"
  "\<forall>p\<in>set (map rev white_space). p \<noteq> [] \<and> \<not> graphic (hd p)"
  by (simp_all add: white_space_def graphic_def upt_rec)

lemma trim_graphic:
  assumes "s \<noteq> []" and "graphic (hd s)" and "graphic (last s)"
  shows "trim s = s"
proof -
  have 1: "trim_with white_space s = s"
    using assms ws_at_graphic [OF _ white_space_not_graphic(1), of "hd s" "tl s"]
    by (simp add: trim_with.simps)
  have "rev s = last s # tl (rev s)"
    using assms(1) by (metis hd_rev list.collapse rev_is_Nil_conv)
  then have "ws_at (map rev white_space) (rev s) = 0"
    using ws_at_graphic [OF assms(3) white_space_not_graphic(2)] by metis
  then show ?thesis
    by (simp add: trim_def 1 trim_with.simps [of _ "rev s"])
qed

lemma graphic_digit: "is_ascii_digit c \<Longrightarrow> graphic c"
  unfolding is_ascii_digit_def graphic_def by linarith

lemma graphic_simps [simp]: "graphic CHR ''-''" "graphic CHR ''0''"
  by (simp_all add: graphic_def)

section \<open>Lemmas: machine arithmetic\<close>

lemma wrap_i64_id [simp]: "in_i64 x \<Longrightarrow> wrap_i64 x = x"
  by (simp add: in_i64_def wrap_i64_def)

lemma in_i64_wrap [simp]: "in_i64 (wrap_i64 x)"
proof -
  define y where "y = (x + 2 ^ 63) mod 2 ^ 64"
  have "0 \<le> y" "y < 2 ^ 64"
    by (simp_all add: y_def)
  then show ?thesis
    unfolding in_i64_def wrap_i64_def y_def [symmetric] by simp
qed

lemma parse_i64_digits:
  "all_digits s \<Longrightarrow> s \<noteq> [] \<Longrightarrow>
    parse_i64 s = (if digits_val s < 2 ^ 63 then Some (digits_val s) else None)"
  using digits_val_less [of s] by (cases s) (auto simp: parse_i64_def parse_int_def)

lemma fmt_pad_nonneg:
  assumes "0 \<le> n"
  shows "all_digits (fmt_pad w n)" "digits_val (fmt_pad w n) = n" "fmt_pad w n \<noteq> []"
  using assms by (simp_all add: fmt_pad_def)

lemma fmt_pad_neg:
  assumes "n < 0"
  shows "fmt_pad w n = CHR ''-'' # pad_left (w - 1) (show_uint (- n))"
  using assms by (simp add: fmt_pad_def)

lemma length_fmt_pad:
  assumes "0 \<le> n" and "n < 10 ^ w" and "0 < w"
  shows "length (fmt_pad w n) = w"
  using length_show_uint [of n w] assms by (simp add: fmt_pad_def max_def)

lemma trim_end_matches_parts:
  "\<exists>k. s = trim_end_matches c s @ replicate k c"
proof -
  have "rev s = takeWhile (\<lambda>x. x = c) (rev s) @ dropWhile (\<lambda>x. x = c) (rev s)"
    by simp
  moreover have "takeWhile (\<lambda>x. x = c) t = replicate (length (takeWhile (\<lambda>x. x = c) t)) c" for t
    by (induction t) auto
  ultimately have "rev s = replicate (length (takeWhile (\<lambda>x. x = c) (rev s))) c
      @ dropWhile (\<lambda>x. x = c) (rev s)"
    by metis
  then have "s = rev (dropWhile (\<lambda>x. x = c) (rev s))
      @ rev (replicate (length (takeWhile (\<lambda>x. x = c) (rev s))) c)"
    by (metis rev_append rev_rev_ident)
  then show ?thesis
    by (auto simp: trim_end_matches_def)
qed

lemma all_digits_hd_last:
  "all_digits s \<Longrightarrow> s \<noteq> [] \<Longrightarrow> is_ascii_digit (hd s) \<and> is_ascii_digit (last s)"
  by (auto simp: all_digits_def list_all_iff)

end
