(* ===== verification/Calendar.thy ===== *)
theory Calendar
  imports Rust_Str
begin

text \<open>
  The calendar of \<open>mpedb-types/src/value.rs\<close>: days since 1970-01-01 against a proleptic Gregorian
  date, and the text forms of dates, times and timestamps. An \<open>i64\<close> is an \<open>int\<close> here, with the
  wrap-around of a release build written out at every operation whose operands are not bounded by
  the code itself.
\<close>

section \<open>Wrapping operations\<close>

definition iadd :: "int \<Rightarrow> int \<Rightarrow> int" where
  "iadd a b = wrap_i64 (a + b)"

definition isub :: "int \<Rightarrow> int \<Rightarrow> int" where
  "isub a b = wrap_i64 (a - b)"

definition imul :: "int \<Rightarrow> int \<Rightarrow> int" where
  "imul a b = wrap_i64 (a * b)"

definition as_u32 :: "int \<Rightarrow> int" where
  "as_u32 x = x mod 2 ^ 32"

section \<open>Dates\<close>

definition days_in_month :: "int \<Rightarrow> int \<Rightarrow> int" where
  "days_in_month y m =
    (if m \<in> {1, 3, 5, 7, 8, 10, 12} then 31
     else if m \<in> {4, 6, 9, 11} then 30
     else if m = 2 \<and> ((remt y 4 = 0 \<and> remt y 100 \<noteq> 0) \<or> remt y 400 = 0) then 29
     else if m = 2 then 28
     else 0)"

definition days_from_civil :: "int \<Rightarrow> int \<Rightarrow> int \<Rightarrow> int option" where
  "days_from_civil y m d =
    (if \<not> (1 \<le> m \<and> m \<le> 12) \<or> d < 1 \<or> d > days_in_month y m then None
     else
       let yy = (if m \<le> 2 then isub y 1 else y);
           era = quot (if yy \<ge> 0 then yy else isub yy 399) 400;
           yoe = isub yy (imul era 400);
           mp = (if m > 2 then m - 3 else m + 9);
           doy = quot (153 * mp + 2) 5 + d - 1;
           doe = iadd (isub (iadd (imul yoe 365) (quot yoe 4)) (quot yoe 100)) doy
       in Some (isub (iadd (imul era 146097) doe) 719468))"

definition civil_from_days :: "int \<Rightarrow> int \<times> int \<times> int" where
  "civil_from_days days =
    (let z = iadd days 719468;
         era = quot (if z \<ge> 0 then z else isub z 146096) 146097;
         doe = isub z (imul era 146097);
         yoe = quot (isub (iadd (isub doe (quot doe 1460)) (quot doe 36524)) (quot doe 146096)) 365;
         y = iadd yoe (imul era 400);
         doy = isub doe (isub (iadd (imul 365 yoe) (quot yoe 4)) (quot yoe 100));
         mp = quot (iadd (imul 5 doy) 2) 153;
         d = iadd (isub doy (quot (iadd (imul 153 mp) 2) 5)) 1;
         m = (if mp < 10 then iadd mp 3 else isub mp 9)
     in (if m \<le> 2 then iadd y 1 else y, as_u32 m, as_u32 d))"

section \<open>Text forms\<close>

text \<open>Rust's \<open>div_euclid\<close> and \<open>rem_euclid\<close> by a positive constant are \<open>div\<close> and \<open>mod\<close>.\<close>

definition int_field :: "string \<Rightarrow> int option" where
  "int_field s = (if s = [] \<or> \<not> all_digits s then None else parse_i64 s)"

text \<open>
  The three fields of \<open>y-m-d\<close>, with \<open>p.next()?\<close> for a missing one and \<open>None\<close> for a fourth.
\<close>

definition date_fields :: "string \<Rightarrow> (int \<times> int \<times> int) option" where
  "date_fields body =
    (case split_on CHR ''-'' body of
       [a, b, c] \<Rightarrow>
         (case int_field a of None \<Rightarrow> None | Some y \<Rightarrow>
          (case int_field b of None \<Rightarrow> None | Some m \<Rightarrow>
           (case int_field c of None \<Rightarrow> None | Some d \<Rightarrow> Some (y, m, d))))
     | _ \<Rightarrow> None)"

definition parse_date_text :: "string \<Rightarrow> int option" where
  "parse_date_text s =
    (let t = trim s; neg = starts_with CHR ''-'' t; body = (if neg then tl t else t)
     in case date_fields body of None \<Rightarrow> None
        | Some (y, m, d) \<Rightarrow> days_from_civil (if neg then - y else y) m d)"

definition parse_time_text :: "string \<Rightarrow> int option" where
  "parse_time_text s =
    (let t = trim s;
         (hms, frac) = (case split_once {CHR ''.''} t of Some p \<Rightarrow> p | None \<Rightarrow> (t, []));
         fields = (case split_on CHR '':'' hms of
             [a, b] \<Rightarrow> (case int_field a of None \<Rightarrow> None | Some h \<Rightarrow>
                        (case int_field b of None \<Rightarrow> None | Some mi \<Rightarrow> Some (h, mi, 0)))
           | [a, b, c] \<Rightarrow> (case int_field a of None \<Rightarrow> None | Some h \<Rightarrow>
                        (case int_field b of None \<Rightarrow> None | Some mi \<Rightarrow>
                        (case int_field c of None \<Rightarrow> None | Some sec \<Rightarrow> Some (h, mi, sec))))
           | _ \<Rightarrow> None)
     in case fields of None \<Rightarrow> None
        | Some (h, mi, sec) \<Rightarrow>
            if h > 24 \<or> mi > 59 \<or> sec > 60 \<or> (h = 24 \<and> (mi \<noteq> 0 \<or> sec \<noteq> 0)) then None
            else if frac = [] then Some ((h * 3600 + mi * 60 + sec) * 1000000)
            else if \<not> all_digits frac then None
            else let f = take 6 frac; f = f @ replicate (6 - length f) CHR ''0''
                 in case parse_i64 f of None \<Rightarrow> None
                    | Some us \<Rightarrow> Some ((h * 3600 + mi * 60 + sec) * 1000000 + us))"

text \<open>
  The zone is looked for from the end: the last \<open>+\<close> or \<open>-\<close> after the first byte. The loop index
  runs down from \<open>length rest - 1\<close> to 1.
\<close>

fun zone_pos :: "string \<Rightarrow> nat \<Rightarrow> nat option" where
  "zone_pos s 0 = None"
| "zone_pos s (Suc i) = (if s ! Suc i \<in> {CHR ''+'', CHR ''-''} then Some (Suc i) else zone_pos s i)"

definition split_zone :: "string \<Rightarrow> (string \<times> int) option result" where
  "split_zone rest =
    (if rest = [] then Ok (Some ([], 0))
     else case (case strip_suffix CHR ''Z'' rest of Some t \<Rightarrow> Some t
                | None \<Rightarrow> strip_suffix CHR ''z'' rest) of
       Some t \<Rightarrow> Ok (Some (t, 0))
     | None \<Rightarrow>
       (case zone_pos rest (length rest - 1) of
          None \<Rightarrow> Ok (Some (rest, 0))
        | Some i \<Rightarrow>
            let t = take i rest; z = drop i rest;
                sign = (if starts_with CHR ''-'' z then - 1 else 1);
                z = tl z
            in rbind (case split_once {CHR '':''} z of Some p \<Rightarrow> Ok p
                  | None \<Rightarrow>
                      if length z = 4 then
                        if char_boundary z 2 then Ok (take 2 z, drop 2 z) else Err Panic
                      else Ok (z, ''0''))
               (\<lambda>(zh, zm).
               case int_field zh of None \<Rightarrow> Ok None | Some h \<Rightarrow>
               (case int_field zm of None \<Rightarrow> Ok None | Some m \<Rightarrow>
                  Ok (Some (t, imul sign (iadd (imul h 3600) (imul m 60))))))))"

definition parse_timestamp_text :: "string \<Rightarrow> int option result" where
  "parse_timestamp_text s =
    (let t = trim s; neg_year = starts_with CHR ''-'' t; body = (if neg_year then tl t else t);
         (date, rest) = (case split_once {CHR ''T'', CHR '' ''} body of Some p \<Rightarrow> p | None \<Rightarrow> (body, []))
     in case date_fields date of None \<Rightarrow> Ok None
        | Some (y, mo, d) \<Rightarrow>
       (case days_from_civil (if neg_year then - y else y) mo d of None \<Rightarrow> Ok None
        | Some days \<Rightarrow>
       rbind (split_zone rest) (\<lambda>zone. case zone of None \<Rightarrow> Ok None
        | Some (time, offset_secs) \<Rightarrow>
       (case (if time = [] then Some 0 else parse_time_text time) of None \<Rightarrow> Ok None
        | Some us_of_day \<Rightarrow>
       (case checked_i64 (days * 86400) of None \<Rightarrow> Ok None
        | Some a \<Rightarrow>
       (case checked_i64 (a + us_of_day div 1000000) of None \<Rightarrow> Ok None
        | Some b \<Rightarrow>
       (case checked_i64 (b - offset_secs) of None \<Rightarrow> Ok None
        | Some secs \<Rightarrow>
       (case checked_i64 (secs * 1000000) of None \<Rightarrow> Ok None
        | Some c \<Rightarrow> Ok (checked_i64 (c + us_of_day mod 1000000))))))))))"

text \<open>The fraction \<open>{frac:06}\<close> with its trailing zeros popped.\<close>

definition frac_text :: "int \<Rightarrow> string" where
  "frac_text frac = trim_end_matches CHR ''0'' (fmt_pad 6 frac)"

definition hms_text :: "int \<Rightarrow> string" where
  "hms_text s = fmt_pad 2 (quot s 3600) @ '':'' @ fmt_pad 2 (quot (remt s 3600) 60)
     @ '':'' @ fmt_pad 2 (remt s 60)"

definition date_text :: "int \<Rightarrow> string" where
  "date_text days = (let (y, m, d) = civil_from_days days
     in fmt_pad 4 y @ ''-'' @ fmt_pad 2 m @ ''-'' @ fmt_pad 2 d)"

definition time_text :: "int \<Rightarrow> string" where
  "time_text us =
    (let secs = us div 1000000; frac = us mod 1000000; base = hms_text secs
     in if frac = 0 then base else base @ ''.'' @ frac_text frac)"

definition timestamp_text :: "int \<Rightarrow> string" where
  "timestamp_text us =
    (let secs = us div 1000000; frac = us mod 1000000;
         (y, mo, d) = civil_from_days (secs div 86400);
         rem = secs mod 86400;
         base = fmt_pad 4 y @ ''-'' @ fmt_pad 2 mo @ ''-'' @ fmt_pad 2 d @ '' '' @ hms_text rem
     in if frac = 0 then base @ ''+00'' else base @ ''.'' @ frac_text frac @ ''+00'')"

section \<open>Lemmas: the arithmetic without wrap-around\<close>

text \<open>
  Inside the range where nothing overflows the two conversions are these exact ones, with the
  rounding divisions of the source turned into \<open>div\<close> and \<open>mod\<close>.
\<close>

definition year_start :: "int \<Rightarrow> int" where
  "year_start yoe = 365 * yoe + yoe div 4 - yoe div 100"

definition month_start :: "int \<Rightarrow> int" where
  "month_start mp = (153 * mp + 2) div 5"

definition march_year :: "int \<Rightarrow> int \<Rightarrow> int" where
  "march_year y m = (if m \<le> 2 then y - 1 else y)"

definition march_month :: "int \<Rightarrow> int" where
  "march_month m = (if m > 2 then m - 3 else m + 9)"

definition civil_days :: "int \<Rightarrow> int \<Rightarrow> int \<Rightarrow> int" where
  "civil_days y m d = (let yy = march_year y m
     in yy div 400 * 146097 + year_start (yy mod 400) + month_start (march_month m) + d - 1 - 719468)"

definition year_of_doe :: "int \<Rightarrow> int" where
  "year_of_doe doe = (doe - doe div 1460 + doe div 36524 - doe div 146096) div 365"

definition civil_date :: "int \<Rightarrow> int \<times> int \<times> int" where
  "civil_date n =
    (let z = n + 719468; doe = z mod 146097; yoe = year_of_doe doe; doy = doe - year_start yoe;
         mp = (5 * doy + 2) div 153; d = doy - month_start mp + 1;
         m = (if mp < 10 then mp + 3 else mp - 9); y = yoe + z div 146097 * 400
     in (if m \<le> 2 then y + 1 else y, m, d))"

definition valid_date :: "int \<Rightarrow> int \<Rightarrow> int \<Rightarrow> bool" where
  "valid_date y m d \<longleftrightarrow> 1 \<le> m \<and> m \<le> 12 \<and> 1 \<le> d \<and> d \<le> days_in_month y m"

definition leap :: "int \<Rightarrow> bool" where
  "leap y \<longleftrightarrow> (y mod 4 = 0 \<and> y mod 100 \<noteq> 0) \<or> y mod 400 = 0"

lemma quot_nonneg [simp]: "0 \<le> a \<Longrightarrow> quot a b = a div b"
  by (simp add: quot_def)

lemma quot_floor:
  assumes "0 < b"
  shows "quot (if 0 \<le> a then a else a - (b - 1)) b = a div b"
proof (cases "0 \<le> a")
  case False
  have "- (- (a - (b - 1)) div b) = a div b"
  proof -
    have "a = a div b * b + a mod b" "0 \<le> a mod b" "a mod b < b"
      using assms by simp_all
    moreover have "(b - 1 - a mod b) div b = 0"
      using calculation by (intro div_pos_pos_trivial) simp_all
    ultimately have "(- (a - (b - 1))) div b = ((b - 1 - a mod b) + (- (a div b)) * b) div b"
      by (metis add.commute add_diff_eq diff_minus_eq_add minus_diff_eq minus_mult_left diff_diff_eq2)
    also have "\<dots> = - (a div b)"
      using \<open>(b - 1 - a mod b) div b = 0\<close> assms by (subst div_mult_self1) simp_all
    finally show ?thesis by simp
  qed
  then show ?thesis
    using False assms by (simp add: quot_def)
qed simp

lemma remt_0_iff: "0 < b \<Longrightarrow> remt a b = 0 \<longleftrightarrow> a mod b = 0"
  by (auto simp: remt_def dvd_eq_mod_eq_0 [symmetric])

lemma days_in_month_eq:
  "days_in_month y m =
    (if m \<in> {1, 3, 5, 7, 8, 10, 12} then 31 else if m \<in> {4, 6, 9, 11} then 30
     else if m = 2 then if leap y then 29 else 28 else 0)"
  by (simp add: days_in_month_def leap_def remt_0_iff)

lemma in_i64I: "\<bar>x\<bar> \<le> 2 ^ 62 + 2 ^ 61 \<Longrightarrow> in_i64 x"
  by (auto simp: in_i64_def)

lemmas wrap_ops = iadd_def isub_def imul_def

lemma days_from_civil_eq:
  assumes y: "\<bar>y\<bar> \<le> 2 ^ 54"
  shows "days_from_civil y m d = (if valid_date y m d then Some (civil_days y m d) else None)"
proof (cases "valid_date y m d")
  case False
  then show ?thesis
    by (auto simp: days_from_civil_def valid_date_def)
next
  case True
  then have m: "1 \<le> m" "m \<le> 12" and d: "1 \<le> d" "d \<le> 31"
    using True by (auto simp: valid_date_def days_in_month_eq split: if_splits)
  define yy where "yy = march_year y m"
  have yy: "\<bar>yy\<bar> \<le> 2 ^ 54 + 1"
    using y by (auto simp: yy_def march_year_def)
  have w: "(if m \<le> 2 then isub y 1 else y) = yy"
    "(if yy \<ge> 0 then yy else isub yy 399) = (if 0 \<le> yy then yy else yy - (400 - 1))"
    using y yy by (auto simp: yy_def march_year_def isub_def in_i64I)
  have era: "\<bar>yy div 400\<bar> \<le> 46 * 10 ^ 12" and yoe: "0 \<le> yy mod 400" "yy mod 400 < 400"
    using yy by simp_all
  have e: "isub yy (imul (yy div 400) 400) = yy mod 400"
  proof -
    have "imul (yy div 400) 400 = yy div 400 * 400"
      unfolding imul_def using era by (intro wrap_i64_id in_i64I) simp
    moreover have "yy - yy div 400 * 400 = yy mod 400"
      by (simp add: minus_div_mult_eq_mod)
    ultimately show ?thesis
      unfolding isub_def using yoe by (simp add: in_i64I)
  qed
  define yoe where "yoe = yy mod 400"
  have yoe: "0 \<le> yoe" "yoe < 400" using yoe by (simp_all add: yoe_def)
  have mp: "0 \<le> march_month m" "march_month m \<le> 11"
    using m by (simp_all add: march_month_def)
  have ms: "0 \<le> month_start (march_month m)" "month_start (march_month m) \<le> 337"
    using mp by (simp_all add: month_start_def)
  have ys: "0 \<le> year_start yoe" "year_start yoe \<le> 146096"
    using yoe by (simp_all add: year_start_def)
  have doe: "iadd (isub (iadd (imul yoe 365) (quot yoe 4)) (quot yoe 100))
      (quot (153 * march_month m + 2) 5 + d - 1) = year_start yoe + month_start (march_month m) + d - 1"
  proof -
    have a: "imul yoe 365 = yoe * 365" "iadd (yoe * 365) (yoe div 4) = yoe * 365 + yoe div 4"
      "isub (yoe * 365 + yoe div 4) (yoe div 100) = year_start yoe"
      unfolding wrap_ops using yoe by (subst wrap_i64_id; simp add: in_i64I year_start_def)+
    show ?thesis
      using yoe mp ms ys d
      by (simp add: a quot_nonneg month_start_def [symmetric] iadd_def in_i64I)
  qed
  show ?thesis
  proof -
    have b: "imul (yy div 400) 146097 = yy div 400 * 146097"
      unfolding imul_def using era by (intro wrap_i64_id in_i64I) simp
    have c: "isub (iadd (yy div 400 * 146097)
        (year_start yoe + month_start (march_month m) + d - 1)) 719468 = civil_days y m d"
      unfolding isub_def iadd_def using era ys ms d
      by (subst wrap_i64_id, intro in_i64I, simp)
        (subst wrap_i64_id, intro in_i64I, simp, simp add: civil_days_def Let_def yoe_def yy_def)
    show ?thesis
      using True m
      by (simp add: days_from_civil_def valid_date_def Let_def w quot_floor e
          yoe_def [symmetric] march_month_def [symmetric] doe b c)
  qed
qed

text \<open>The four-century cycle: which year of the cycle a day falls in.\<close>

lemma div_within: "0 \<le> s \<Longrightarrow> s < k \<Longrightarrow> (k * y + s) div k = y" for k :: int
  by (simp add: div_pos_pos_trivial)

lemma mod_top_iff: "0 < x \<Longrightarrow> x \<le> k \<Longrightarrow> x mod k = 0 \<longleftrightarrow> x = k" for k :: int
  by (cases "x = k") auto

lemma year_start_parts:
  assumes "0 \<le> b" "b < 25" "0 \<le> r" "r < 4"
  shows "year_start (100 * c + 4 * b + r) = 36524 * c + 1461 * b + 365 * r"
proof -
  have "(100 * c + 4 * b + r) div 4 = 25 * c + b"
    using assms by linarith
  moreover have "(100 * c + 4 * b + r) div 100 = c"
    using assms by linarith
  ultimately show ?thesis
    by (simp add: year_start_def)
qed

text \<open>The leap day is the last of its March year: the 365th of years 3, 7, .. but 99, 199, 299.\<close>

definition in_year :: "int \<Rightarrow> int \<Rightarrow> int \<Rightarrow> int \<Rightarrow> bool" where
  "in_year c b r t \<longleftrightarrow> 0 \<le> t \<and> (t \<le> 364 \<or> t = 365 \<and> r = 3 \<and> (b < 24 \<or> c = 3))"

lemma year_of_doe_parts:
  assumes c: "0 \<le> c" "c < 4" and b: "0 \<le> b" "b < 25" and r: "0 \<le> r" "r < 4"
    and t: "in_year c b r t"
  shows "year_of_doe (36524 * c + 1461 * b + 365 * r + t) = 100 * c + 4 * b + r"
proof -
  define D where "D = 36524 * c + 1461 * b + 365 * r + t"
  have t': "0 \<le> t" "t \<le> 365"
    using t by (auto simp: in_year_def)
  define e where "e = 24 * c + b + 365 * r + t"
  have D: "D = 1460 * (25 * c + b) + e"
    by (simp add: D_def e_def)
  have q: "D div 1460 = 25 * c + b + e div 1460"
    unfolding D by simp
  have h: "D div 36524 - D div 146096 = c"
  proof (cases "1461 * b + 365 * r + t < 36524")
    case True
    then have "D div 36524 = c"
      using b r t' unfolding D_def by linarith
    moreover have "D div 146096 = 0"
      using True c b r t' by (simp add: D_def)
    ultimately show ?thesis by simp
  next
    case False
    then have "D = 146096"
      using c b r t by (auto simp: D_def in_year_def)
    then show ?thesis
      using c b r False t by (auto simp: in_year_def D_def)
  qed
  have e: "0 \<le> t - e div 1460 \<and> t - e div 1460 \<le> 364"
  proof (cases "t = 365")
    case True
    then have "r = 3" using t by (simp add: in_year_def)
    then have "e div 1460 = 1"
      using True c b by (simp add: e_def)
    then show ?thesis using True by simp
  next
    case False
    have "e div 1460 = 0 \<or> e div 1460 = 1 \<and> 1460 \<le> e"
      using c b r t' unfolding e_def by linarith
    then show ?thesis
      using False c b r t' by (auto simp: e_def)
  qed
  have "D - D div 1460 + D div 36524 - D div 146096
      = 365 * (100 * c + 4 * b + r) + (t - e div 1460)"
    using h by (simp add: q D e_def)
  then have "year_of_doe D = (365 * (100 * c + 4 * b + r) + (t - e div 1460)) div 365"
    by (simp only: year_of_doe_def)
  also have "\<dots> = 100 * c + 4 * b + r"
    using e by (intro div_within) simp_all
  finally show ?thesis
    by (simp only: D_def)
qed

lemma cycle_parts:
  assumes "0 \<le> yoe" "yoe < 400"
  obtains c b r :: int where "yoe = 100 * c + 4 * b + r" "0 \<le> c" "c < 4" "0 \<le> b" "b < 25"
    "0 \<le> r" "r < 4"
proof
  have "yoe mod 100 = 4 * (yoe mod 100 div 4) + yoe mod 100 mod 4"
    by simp
  moreover have "yoe = 100 * (yoe div 100) + yoe mod 100"
    by simp
  ultimately show "yoe = 100 * (yoe div 100) + 4 * (yoe mod 100 div 4) + yoe mod 100 mod 4"
    by linarith
  show "yoe div 100 < 4" "0 \<le> yoe div 100"
    using assms by simp_all
  have "0 \<le> yoe mod 100" "yoe mod 100 < 100"
    by simp_all
  then show "yoe mod 100 div 4 < 25" "0 \<le> yoe mod 100 div 4"
    by linarith+
qed simp_all

definition year_len :: "int \<Rightarrow> int" where
  "year_len yoe = (if leap (yoe + 1) then 366 else 365)"

lemma in_year_len:
  assumes c: "0 \<le> c" "c < 4" and b: "0 \<le> b" "b < 25" and r: "0 \<le> r" "r < 4"
  shows "in_year c b r t \<longleftrightarrow> 0 \<le> t \<and> t < year_len (100 * c + 4 * b + r)"
proof -
  have 4: "(100 * c + 4 * b + r + 1) mod 4 = 0 \<longleftrightarrow> r = 3"
  proof -
    have "100 * c + 4 * b + r + 1 = (r + 1) + (25 * c + b) * 4"
      by simp
    then have "(100 * c + 4 * b + r + 1) mod 4 = (r + 1) mod 4"
      by (metis mod_mult_self1)
    then show ?thesis
      using r mod_top_iff [of "r + 1" 4] by simp
  qed
  have 100: "(100 * c + 4 * b + r + 1) mod 100 = 0 \<longleftrightarrow> b = 24 \<and> r = 3"
  proof -
    have "100 * c + 4 * b + r + 1 = (4 * b + r + 1) + c * 100"
      by simp
    then have "(100 * c + 4 * b + r + 1) mod 100 = (4 * b + r + 1) mod 100"
      by (metis mod_mult_self1)
    also have "\<dots> = 0 \<longleftrightarrow> 4 * b + r + 1 = 100"
      using b r by (intro mod_top_iff) simp_all
    also have "\<dots> \<longleftrightarrow> b = 24 \<and> r = 3"
      using b r by arith
    finally show ?thesis .
  qed
  have 400: "(100 * c + 4 * b + r + 1) mod 400 = 0 \<longleftrightarrow> c = 3 \<and> b = 24 \<and> r = 3"
    using b r c mod_top_iff [of "100 * c + 4 * b + r + 1" 400] by auto
  show ?thesis
    using b by (auto simp: in_year_def year_len_def leap_def 4 100 400)
qed

lemma year_of_doe_start:
  assumes "0 \<le> yoe" "yoe < 400" "0 \<le> t" "t < year_len yoe"
  shows "year_of_doe (year_start yoe + t) = yoe"
proof -
  obtain c b r where p: "yoe = 100 * c + 4 * b + r" "0 \<le> c" "c < 4" "0 \<le> b" "b < 25" "0 \<le> r" "r < 4"
    using cycle_parts assms(1,2) by metis
  then show ?thesis
    using assms(3,4) year_of_doe_parts [OF p(2-7)] in_year_len [OF p(2-7)]
    by (simp add: year_start_parts)
qed

lemma doe_parts:
  assumes "0 \<le> doe" "doe < 146097"
  obtains yoe t where "doe = year_start yoe + t" "0 \<le> yoe" "yoe < 400" "0 \<le> t" "t < year_len yoe"
proof -
  define c where "c = min 3 (doe div 36524)"
  define u where "u = doe - 36524 * c"
  have c: "0 \<le> c" "c < 4" and u: "0 \<le> u" "u \<le> 36524" "u = 36524 \<Longrightarrow> c = 3"
    using assms unfolding u_def c_def by linarith+
  define b where "b = min 24 (u div 1461)"
  define v where "v = u - 1461 * b"
  have b: "0 \<le> b" "b < 25" and v: "0 \<le> v" "v \<le> 1460" "v = 1460 \<Longrightarrow> b < 24 \<or> c = 3"
    using u unfolding v_def b_def by linarith+
  define r where "r = min 3 (v div 365)"
  define t where "t = v - 365 * r"
  have r: "0 \<le> r" "r < 4" and t: "0 \<le> t" "t \<le> 365" "t = 365 \<Longrightarrow> r = 3 \<and> v = 1460"
    using v unfolding t_def r_def by linarith+
  have "in_year c b r t"
    using t v(3) by (auto simp: in_year_def)
  then have "0 \<le> t \<and> t < year_len (100 * c + 4 * b + r)"
    using in_year_len [OF c b r] by simp
  moreover have "doe = year_start (100 * c + 4 * b + r) + t"
    using b r by (simp add: year_start_parts t_def v_def u_def)
  ultimately show ?thesis
    using that [of "100 * c + 4 * b + r" t] b c r by simp
qed

lemma year_start_bound:
  assumes "0 \<le> yoe" "yoe < 400"
  shows "0 \<le> year_start yoe" "year_start yoe + year_len yoe \<le> 146097"
proof -
  obtain c b r where p: "yoe = 100 * c + 4 * b + r" "0 \<le> c" "c < 4" "0 \<le> b" "b < 25" "0 \<le> r" "r < 4"
    using cycle_parts assms by metis
  have "in_year c b r (year_len yoe - 1)"
    using in_year_len [OF p(2-7)] p(1) by (simp add: year_len_def)
  then show "0 \<le> year_start yoe" "year_start yoe + year_len yoe \<le> 146097"
    using p by (auto simp: year_start_parts in_year_def)
qed

text \<open>Months, counted from March.\<close>

definition month_len :: "int \<Rightarrow> int" where
  "month_len mp = (if mp \<in> {1, 3, 6, 8} then 30 else if mp = 11 then 29 else 31)"

lemma march_months:
  fixes mp :: int
  assumes "0 \<le> mp" "mp \<le> 11"
  obtains "mp = 0" | "mp = 1" | "mp = 2" | "mp = 3" | "mp = 4" | "mp = 5" | "mp = 6" | "mp = 7"
    | "mp = 8" | "mp = 9" | "mp = 10" | "mp = 11"
  using assms by atomize_elim presburger

lemma month_of_doy:
  assumes "0 \<le> mp" "mp \<le> 11" "0 \<le> k" "k < month_len mp"
  shows "(5 * (month_start mp + k) + 2) div 153 = mp"
proof -
  define s where "s = 5 * (month_start mp + k) + 2 - 153 * mp"
  have "0 \<le> s \<and> s < 153"
    by (rule march_months [OF assms(1,2)];
        use assms(3,4) in \<open>simp add: s_def month_start_def month_len_def\<close>)
  then have "(153 * mp + s) div 153 = mp"
    by (intro div_within) simp_all
  then show ?thesis
    by (simp add: s_def)
qed

lemma doy_parts:
  assumes "0 \<le> doy" "doy \<le> 365"
  obtains mp k where "doy = month_start mp + k" "0 \<le> mp" "mp \<le> 11" "0 \<le> k" "k < month_len mp"
proof -
  define mp where "mp = (5 * doy + 2) div 153"
  have mp: "0 \<le> mp" "mp \<le> 11" "153 * mp \<le> 5 * doy + 2" "5 * doy + 2 < 153 * mp + 153"
    using assms unfolding mp_def by linarith+
  have "0 \<le> doy - month_start mp \<and> doy - month_start mp < month_len mp"
    by (rule march_months [OF mp(1,2)];
        use mp(3,4) assms in \<open>simp add: month_start_def month_len_def\<close>)
  then show ?thesis
    using that [of mp "doy - month_start mp"] mp by simp
qed

lemma march_month_inverse:
  "1 \<le> m \<Longrightarrow> m \<le> 12 \<Longrightarrow> (if march_month m < 10 then march_month m + 3 else march_month m - 9) = m"
  "0 \<le> mp \<Longrightarrow> mp \<le> 11 \<Longrightarrow> march_month (if mp < 10 then mp + 3 else mp - 9) = mp"
  by (auto simp: march_month_def)

lemma days_in_march_month:
  assumes "1 \<le> m" "m \<le> 12"
  shows "days_in_month y m =
    (if m = 2 then if leap y then 29 else 28 else month_len (march_month m))"
proof -
  consider "m = 1" | "m = 2" | "m = 3" | "m = 4" | "m = 5" | "m = 6" | "m = 7" | "m = 8" | "m = 9"
    | "m = 10" | "m = 11" | "m = 12"
    using assms by atomize_elim presburger
  then show ?thesis
    by cases (simp_all add: days_in_month_eq month_len_def march_month_def)
qed

lemma leap_cycle: "leap (e * 400 + y) = leap y"
proof -
  have "(e * 400 + y) mod 4 = y mod 4" "(e * 400 + y) mod 100 = y mod 100"
    "(e * 400 + y) mod 400 = y mod 400"
    using mod_mult_self3 [of "e * 100" 4 y] mod_mult_self3 [of "e * 4" 100 y]
      mod_mult_self3 [of e 400 y]
    by (simp_all add: mult.assoc)
  then show ?thesis
    by (simp add: leap_def)
qed

text \<open>A valid date falls inside its March year.\<close>

lemma doy_in_year:
  assumes "valid_date y m d" and yoe: "march_year y m = e * 400 + yoe"
  shows "0 \<le> month_start (march_month m) + d - 1
    \<and> month_start (march_month m) + d - 1 < year_len yoe"
proof -
  have m: "1 \<le> m" "m \<le> 12" and d: "1 \<le> d" "d \<le> days_in_month y m"
    using assms(1) by (simp_all add: valid_date_def)
  have mp: "0 \<le> march_month m" "march_month m \<le> 11" "march_month m = 11 \<longleftrightarrow> m = 2"
    using m by (auto simp: march_month_def)
  show ?thesis
  proof (cases "m = 2")
    case True
    then have "y = e * 400 + (yoe + 1)"
      using yoe by (simp add: march_year_def)
    then have "leap y = leap (yoe + 1)"
      by (simp only: leap_cycle)
    then show ?thesis
      using True d by (auto simp: days_in_month_eq march_month_def month_start_def year_len_def)
  next
    case False
    have "month_start (march_month m) + d \<le> 337"
      by (rule march_months [OF mp(1,2)];
          use d days_in_march_month [OF m, of y] mp(3) False in \<open>simp add: month_start_def month_len_def\<close>)
    moreover have "0 \<le> month_start (march_month m)"
      using mp(1) by (simp add: month_start_def)
    ultimately show ?thesis
      using d(1) by (simp add: year_len_def)
  qed
qed

section \<open>Lemmas: the two conversions are inverse\<close>

lemma civil_days_parts:
  "civil_days y m d + 719468 = march_year y m div 400 * 146097
    + (year_start (march_year y m mod 400) + (month_start (march_month m) + d - 1))"
  by (simp add: civil_days_def Let_def)

lemma civil_date_civil_days:
  assumes v: "valid_date y m d"
  shows "civil_date (civil_days y m d) = (y, m, d)"
proof -
  define e yoe t where "e = march_year y m div 400" and "yoe = march_year y m mod 400"
    and "t = month_start (march_month m) + d - 1"
  have my: "march_year y m = e * 400 + yoe"
    by (simp add: e_def yoe_def)
  have yoe: "0 \<le> yoe" "yoe < 400"
    by (simp_all add: yoe_def)
  have t: "0 \<le> t" "t < year_len yoe"
    using doy_in_year [OF v my] by (simp_all add: t_def)
  have z: "civil_days y m d + 719468 = 146097 * e + (year_start yoe + t)"
    unfolding civil_days_parts by (simp add: e_def yoe_def t_def)
  have doe: "0 \<le> year_start yoe + t" "year_start yoe + t < 146097"
    using year_start_bound [OF yoe] t by simp_all
  have zd: "(civil_days y m d + 719468) div 146097 = e"
    unfolding z using doe by (rule div_within)
  have zm: "(civil_days y m d + 719468) mod 146097 = year_start yoe + t"
    unfolding z using doe by simp
  have m: "1 \<le> m" "m \<le> 12" "1 \<le> d" "d \<le> days_in_month y m"
    using v by (simp_all add: valid_date_def)
  have mp: "0 \<le> march_month m" "march_month m \<le> 11"
    using m by (simp_all add: march_month_def)
  have "d - 1 < month_len (march_month m)"
    using m days_in_march_month [OF m(1,2), of y]
    by (auto simp: march_month_def month_len_def split: if_splits)
  then have mp': "(5 * t + 2) div 153 = march_month m"
    using month_of_doy [OF mp, of "d - 1"] m(3) by (simp add: t_def add_diff_eq)
  show ?thesis
    using my march_month_inverse(1) [OF m(1,2)]
    by (simp add: civil_date_def Let_def zd zm year_of_doe_start [OF yoe t] mp')
      (simp add: t_def march_year_def split: if_splits)
qed

lemma civil_days_civil_date:
  assumes "civil_date n = (y, m, d)"
  shows "valid_date y m d" "civil_days y m d = n"
proof -
  define z e doe where "z = n + 719468" and "e = z div 146097" and "doe = z mod 146097"
  obtain yoe t where doe: "doe = year_start yoe + t" and yoe: "0 \<le> yoe" "yoe < 400"
    and t: "0 \<le> t" "t < year_len yoe"
    using doe_parts [of doe] by (auto simp: doe_def)
  have "t \<le> 365"
    using t by (simp add: year_len_def split: if_splits)
  then obtain mp k where k: "t = month_start mp + k" "0 \<le> k" "k < month_len mp"
    and mp: "0 \<le> mp" "mp \<le> 11"
    using doy_parts t(1) by metis
  have mp': "(5 * t + 2) div 153 = mp"
    unfolding k(1) by (rule month_of_doy [OF mp k(2,3)])
  have date: "m = (if mp < 10 then mp + 3 else mp - 9)" "d = k + 1"
    "y = (if m \<le> 2 then e * 400 + yoe + 1 else e * 400 + yoe)"
    using assms
    by (auto simp: civil_date_def Let_def z_def [symmetric] e_def [symmetric] doe_def [symmetric]
        doe year_of_doe_start [OF yoe t] mp') (auto simp: k(1))
  have m: "1 \<le> m" "m \<le> 12" and mm: "march_month m = mp"
    using mp march_month_inverse(2) [OF mp] by (auto simp: date(1))
  have my: "march_year y m = e * 400 + yoe"
    by (simp add: date(3) march_year_def)
  have "d \<le> days_in_month y m"
  proof (cases "m = 2")
    case True
    then have "leap y = leap (yoe + 1)" "mp = 11"
      using date(3) leap_cycle [of e "yoe + 1"] mm by (auto simp: add.assoc march_month_def)
    then show ?thesis
      using t(2) True days_in_march_month [OF m, of y]
      by (simp add: k(1) month_start_def date(2) year_len_def split: if_splits)
  next
    case False
    then show ?thesis
      using k(3) days_in_march_month [OF m, of y] by (simp add: mm date(2))
  qed
  then show "valid_date y m d"
    using m k(2) by (simp add: valid_date_def date(2))
  have "civil_days y m d + 719468 = e * 146097 + doe"
    unfolding civil_days_parts my mm using yoe by (simp add: doe k(1) date(2))
  also have "\<dots> = z"
    by (simp add: e_def doe_def)
  finally show "civil_days y m d = n"
    by (simp add: z_def)
qed

text \<open>The day after a date.\<close>

definition next_day :: "int \<times> int \<times> int \<Rightarrow> int \<times> int \<times> int" where
  "next_day = (\<lambda>(y, m, d).
     if d < days_in_month y m then (y, m, d + 1)
     else if m < 12 then (y, m + 1, 1)
     else (y + 1, 1, 1))"

lemma div_Suc: "0 < k \<Longrightarrow> (x + 1) div k = x div k + (if (x + 1) mod k = 0 then 1 else 0)" for k :: int
proof -
  assume k: "0 < k"
  define q r where "q = x div k" and "r = x mod k"
  have x: "x = k * q + r" "0 \<le> r" "r < k"
    using k by (simp_all add: q_def r_def)
  show ?thesis
  proof (cases "r + 1 = k")
    case True
    then have "x + 1 = k * (q + 1) + 0"
      using x(1) by (simp add: algebra_simps)
    then show ?thesis
      using k div_within [of 0 k "q + 1"] by (simp add: q_def)
  next
    case False
    then have x': "x + 1 = k * q + (r + 1)" "0 \<le> r + 1" "r + 1 < k"
      using x by simp_all
    have "(x + 1) div k = q"
      unfolding x'(1) by (rule div_within [OF x'(2,3)])
    moreover have "(x + 1) mod k = r + 1"
      unfolding x'(1) using x'(2,3) by simp
    ultimately show ?thesis
      using x(2) by (simp add: q_def)
  qed
qed

definition march_days :: "int \<Rightarrow> int" where
  "march_days yy = yy div 400 * 146097 + year_start (yy mod 400)"

lemma march_days_eq: "march_days yy = 365 * yy + yy div 4 - yy div 100 + yy div 400"
proof -
  define e r where "e = yy div 400" and "r = yy mod 400"
  have yy: "yy = 400 * e + r"
    by (simp add: e_def r_def)
  have "yy div 4 = 100 * e + r div 4" "yy div 100 = 4 * e + r div 100"
    unfolding yy by simp_all
  moreover have "march_days yy = e * 146097 + (365 * r + r div 4 - r div 100)"
    by (simp add: march_days_def year_start_def flip: e_def r_def)
  ultimately show ?thesis
    using yy e_def by linarith
qed

lemma march_days_Suc: "march_days (yy + 1) = march_days yy + (if leap (yy + 1) then 366 else 365)"
proof -
  have "(yy + 1) mod 400 = 0 \<Longrightarrow> (yy + 1) mod 100 = 0" "(yy + 1) mod 100 = 0 \<Longrightarrow> (yy + 1) mod 4 = 0"
    by (auto simp: dvd_eq_mod_eq_0 [symmetric] elim: dvd_trans [rotated])
  then show ?thesis
    by (auto simp: march_days_eq div_Suc leap_def)
qed

lemma civil_days_eq:
  "civil_days y m d = march_days (march_year y m) + month_start (march_month m) + d - 1 - 719468"
  by (simp add: civil_days_def march_days_def Let_def)

lemma civil_days_next:
  assumes v: "valid_date y m d" and n: "next_day (y, m, d) = (y', m', d')"
  shows "valid_date y' m' d' \<and> civil_days y' m' d' = civil_days y m d + 1"
proof (cases "d < days_in_month y m")
  case True
  then show ?thesis
    using v n by (auto simp: next_day_def valid_date_def civil_days_eq)
next
  case False
  have m: "1 \<le> m" "m \<le> 12" "d = days_in_month y m"
    using v False by (auto simp: valid_date_def)
  have len: "0 < days_in_month y k" if "1 \<le> k" "k \<le> 12" for y k
    using days_in_march_month [OF that] by (simp add: month_len_def)
  consider "m = 1" | "m = 2" | "m = 12" | (mid) "3 \<le> m" "m < 12"
    using m by linarith
  then show ?thesis
  proof cases
    case mid
    then have mp: "0 \<le> march_month m" "march_month m \<le> 11" and mp': "march_month m < 9"
      by (simp_all add: march_month_def)
    have "month_start (march_month m + 1) = month_start (march_month m) + month_len (march_month m)"
      by (rule march_months [OF mp]; use mp' in \<open>simp add: month_start_def month_len_def\<close>)
    then show ?thesis
      using n False mid m days_in_march_month [OF m(1,2), of y] len [of "m + 1" y]
      by (auto simp: next_day_def valid_date_def civil_days_eq march_year_def march_month_def)
  next
    assume "m = 2"
    then show ?thesis
      using n False m march_days_Suc [of "y - 1"] len [of 3 y]
      by (auto simp: next_day_def valid_date_def civil_days_eq march_year_def march_month_def
          month_start_def days_in_month_eq)
  next
    assume "m = 1"
    then show ?thesis
      using n False m len [of 2 y]
      by (auto simp: next_day_def valid_date_def civil_days_eq march_year_def march_month_def
          month_start_def days_in_month_eq)
  next
    assume "m = 12"
    then show ?thesis
      using n False m len [of 1 "y + 1"]
      by (auto simp: next_day_def valid_date_def civil_days_eq march_year_def march_month_def
          month_start_def days_in_month_eq)
  qed
qed

lemma civil_date_next: "civil_date (n + 1) = next_day (civil_date n)"
proof -
  obtain y m d where d: "civil_date n = (y, m, d)"
    by (metis prod_cases3)
  obtain y' m' d' where d': "next_day (y, m, d) = (y', m', d')"
    by (metis prod_cases3)
  have "valid_date y' m' d'" "civil_days y' m' d' = n + 1"
    using civil_days_next [OF civil_days_civil_date(1) [OF d] d'] civil_days_civil_date(2) [OF d]
    by simp_all
  then show ?thesis
    using civil_date_civil_days d d' by metis
qed

lemma civil_date_range:
  assumes "civil_date n = (y, m, d)"
  shows "1 \<le> m" "m \<le> 12" "1 \<le> d" "d \<le> 31"
  using civil_days_civil_date(1) [OF assms]
  by (auto simp: valid_date_def days_in_month_eq split: if_splits)

lemma civil_from_days_eq:
  assumes n: "\<bar>n\<bar> \<le> 2 ^ 62"
  shows "civil_from_days n = civil_date n"
proof -
  define z where "z = n + 719468"
  define e doe where "e = z div 146097" and "doe = z mod 146097"
  have z: "iadd n 719468 = z"
    unfolding iadd_def z_def using n by (intro wrap_i64_id in_i64I) simp
  have zb: "\<bar>z\<bar> \<le> 2 ^ 62 + 719468"
    using n by (simp add: z_def)
  have era: "quot (if z \<ge> 0 then z else isub z 146096) 146097 = e"
  proof -
    have "isub z 146096 = z - (146097 - 1)"
      unfolding isub_def using zb by (subst wrap_i64_id) (simp_all add: in_i64I)
    then show ?thesis
      using quot_floor [of 146097 z] by (cases "0 \<le> z") (simp_all add: e_def)
  qed
  have eb: "\<bar>e\<bar> \<le> 2 ^ 45"
    using zb by (simp add: e_def)
  have em: "imul e 146097 = e * 146097"
    unfolding imul_def using zb by (intro wrap_i64_id in_i64I) (simp add: e_def)
  have doe: "0 \<le> doe" "doe < 146097" and zd: "isub z (e * 146097) = doe"
    by (simp_all add: isub_def e_def doe_def minus_div_mult_eq_mod in_i64I)
  obtain yoe t where p: "doe = year_start yoe + t" and yoe: "0 \<le> yoe" "yoe < 400"
    and t: "0 \<le> t" "t < year_len yoe"
    using doe_parts [OF doe] by metis
  have t': "t \<le> 365"
    using t by (simp add: year_len_def split: if_splits)
  have g: "isub (iadd (isub doe (quot doe 1460)) (quot doe 36524)) (quot doe 146096)
      = doe - doe div 1460 + doe div 36524 - doe div 146096"
  proof -
    have "0 \<le> doe div 1460" "doe div 1460 \<le> 146097" "0 \<le> doe div 36524" "doe div 36524 \<le> 146097"
      "0 \<le> doe div 146096" "doe div 146096 \<le> 146097"
      using doe by simp_all
    then show ?thesis
      using doe by (simp add: wrap_ops in_i64I)
  qed
  have yb: "0 \<le> year_start yoe" "year_start yoe \<le> 146097"
    using year_start_bound [OF yoe] by (simp_all add: year_len_def split: if_splits)
  have ys: "isub (iadd (imul 365 yoe) (quot yoe 4)) (quot yoe 100) = year_start yoe"
  proof -
    have "0 \<le> yoe div 4" "yoe div 4 \<le> 100" "0 \<le> yoe div 100" "yoe div 100 \<le> 100"
      using yoe by simp_all
    then show ?thesis
      using yoe by (simp add: wrap_ops in_i64I year_start_def)
  qed
  define mp where "mp = (5 * t + 2) div 153"
  have mp: "0 \<le> mp" "mp \<le> 11"
    using t(1) t' unfolding mp_def by linarith+
  have q: "0 \<le> doe - doe div 1460 + doe div 36524 - doe div 146096"
    using doe by linarith
  have yd: "quot (doe - doe div 1460 + doe div 36524 - doe div 146096) 365 = yoe"
    using q year_of_doe_start [OF yoe t] by (simp add: year_of_doe_def p)
  have mq: "quot (5 * t + 2) 153 = mp"
    using t(1) by (simp add: mp_def)
  obtain y m d where date: "civil_date n = (y, m, d)"
    by (metis prod_cases3)
  have ms: "0 \<le> month_start mp" "month_start mp \<le> 337"
    using mp by (simp_all add: month_start_def)
  have r: "1 \<le> m" "m \<le> 12" "1 \<le> d" "d \<le> 31"
    using civil_date_range [OF date] .
  have ex: "m = (if mp < 10 then mp + 3 else mp - 9)" "d = t - month_start mp + 1"
    "y = (if m \<le> 2 then yoe + e * 400 + 1 else yoe + e * 400)"
    using date year_of_doe_start [OF yoe t]
    by (simp_all add: civil_date_def Let_def z_def [symmetric] e_def [symmetric]
        doe_def [symmetric] p mp_def [symmetric] split: if_splits)
  have w: "isub (year_start yoe + t) (year_start yoe) = t" "iadd (imul 5 t) 2 = 5 * t + 2"
    "iadd (imul 153 mp) 2 = 153 * mp + 2" "quot (153 * mp + 2) 5 = month_start mp"
    "iadd (isub t (month_start mp)) 1 = d" "iadd mp 3 = mp + 3" "isub mp 9 = mp - 9"
    "iadd yoe (imul e 400) = yoe + e * 400" "iadd (yoe + e * 400) 1 = yoe + e * 400 + 1"
    "as_u32 m = m" "as_u32 d = d"
    using t(1) t' mp ms yoe eb r
    by (simp_all add: wrap_ops in_i64I as_u32_def month_start_def ex(2))
  show ?thesis
    unfolding civil_from_days_def z Let_def era em zd g yd ys unfolding p w(1,2) mq w(3-8)
      ex(1) [symmetric] w(9-11) ex(3) [symmetric] date
    by (rule refl)
qed

section \<open>Lemmas: reading back what was printed\<close>

lemma int_field_digits:
  "all_digits s \<Longrightarrow> s \<noteq> [] \<Longrightarrow> digits_val s < 2 ^ 63 \<Longrightarrow> int_field s = Some (digits_val s)"
  by (simp add: int_field_def parse_i64_digits)

lemma int_field_fmt_pad: "0 \<le> n \<Longrightarrow> n < 2 ^ 63 \<Longrightarrow> int_field (fmt_pad w n) = Some n"
  using fmt_pad_nonneg [of n w] by (simp add: int_field_digits)

lemma digits_no_sep:
  assumes "all_digits s"
  shows "CHR ''-'' \<notin> set s" "CHR '':'' \<notin> set s" "CHR ''.'' \<notin> set s" "CHR '' '' \<notin> set s"
    "CHR ''T'' \<notin> set s" "CHR ''+'' \<notin> set s"
  using digit_not_in [OF assms] by simp_all

lemma date_fields_text:
  assumes "all_digits a" "all_digits b" "all_digits c" and "int_field a = Some y"
    and "int_field b = Some m" and "int_field c = Some d"
  shows "date_fields (a @ ''-'' @ b @ ''-'' @ c) = Some (y, m, d)"
  using assms(4-6) digits_no_sep(1) [OF assms(1)] digits_no_sep(1) [OF assms(2)]
    digits_no_sep(1) [OF assms(3)]
  by (simp add: date_fields_def)

text \<open>The text of a year, with the sign that the readers peel off first.\<close>

definition year_text :: "int \<Rightarrow> string" where
  "year_text y = (if y < 0 then pad_left 3 (show_uint (- y)) else fmt_pad 4 y)"

lemma fmt_pad_year: "fmt_pad 4 y = (if y < 0 then CHR ''-'' # year_text y else year_text y)"
  by (simp add: year_text_def fmt_pad_neg)

lemma year_text_props:
  assumes "\<bar>y\<bar> \<le> 2 ^ 54"
  shows "all_digits (year_text y)" "year_text y \<noteq> []" "int_field (year_text y) = Some \<bar>y\<bar>"
  using assms fmt_pad_nonneg [of y 4] by (auto simp: year_text_def int_field_digits int_field_fmt_pad)

text \<open>Peeling the sign off a text that begins with a year and ends in a digit.\<close>

lemma year_sign:
  assumes y: "\<bar>y\<bar> \<le> 2 ^ 54" and s: "s = fmt_pad 4 y @ r" and r: "r \<noteq> []" "is_ascii_digit (last r)"
  shows "trim s = s" "starts_with CHR ''-'' s \<longleftrightarrow> y < 0"
    "(if y < 0 then tl s else s) = year_text y @ r"
proof -
  have yt: "year_text y \<noteq> []" "is_ascii_digit (hd (year_text y))"
    using year_text_props [OF y] all_digits_hd_last by auto
  have "graphic (hd s)" "graphic (last s)" "s \<noteq> []"
    using yt r by (auto simp: s fmt_pad_year graphic_digit)
  then show "trim s = s"
    by (intro trim_graphic)
  show "starts_with CHR ''-'' s \<longleftrightarrow> y < 0"
    using yt by (cases "year_text y") (auto simp: s fmt_pad_year starts_with_def)
  show "(if y < 0 then tl s else s) = year_text y @ r"
    by (simp add: s fmt_pad_year)
qed

lemma civil_year_bound:
  assumes "valid_date y m d" and "\<bar>civil_days y m d\<bar> \<le> 2 ^ 62"
  shows "\<bar>y\<bar> \<le> 2 ^ 54"
proof -
  have m: "1 \<le> m" "m \<le> 12" "1 \<le> d" "d \<le> 31"
    using assms(1) by (auto simp: valid_date_def days_in_month_eq split: if_splits)
  have "0 \<le> march_month m" "march_month m \<le> 11"
    using m by (simp_all add: march_month_def)
  then have ms: "0 \<le> month_start (march_month m)" "month_start (march_month m) \<le> 337"
    by (simp_all add: month_start_def)
  define yy where "yy = march_year y m"
  have "\<bar>march_days yy\<bar> \<le> 2 ^ 62 + 800000"
    using assms(2) m ms unfolding civil_days_eq yy_def by simp
  then have "\<bar>yy\<bar> < 2 ^ 54"
    unfolding march_days_eq by simp
  then show ?thesis
    by (simp add: yy_def march_year_def split: if_splits)
qed

lemma civil_from_days_props:
  assumes "\<bar>n\<bar> \<le> 2 ^ 62" and "civil_from_days n = (y, m, d)"
  shows "\<bar>y\<bar> \<le> 2 ^ 54" "1 \<le> m" "m \<le> 12" "1 \<le> d" "d \<le> 31" "days_from_civil y m d = Some n"
proof -
  have c: "civil_date n = (y, m, d)"
    using assms civil_from_days_eq by simp
  show "1 \<le> m" "m \<le> 12" "1 \<le> d" "d \<le> 31"
    using civil_date_range [OF c] .
  show y: "\<bar>y\<bar> \<le> 2 ^ 54"
    using civil_year_bound civil_days_civil_date [OF c] assms(1) by simp
  show "days_from_civil y m d = Some n"
    using civil_days_civil_date [OF c] by (simp add: days_from_civil_eq [OF y])
qed

lemma parse_date_text_date_text:
  assumes "\<bar>n\<bar> \<le> 2 ^ 62"
  shows "parse_date_text (date_text n) = Some n"
proof -
  obtain y m d where c: "civil_from_days n = (y, m, d)"
    by (metis prod_cases3)
  note p = civil_from_days_props [OF assms c]
  define r where "r = ''-'' @ fmt_pad 2 m @ ''-'' @ fmt_pad 2 d"
  have d: "all_digits (fmt_pad 2 m)" "all_digits (fmt_pad 2 d)" "fmt_pad 2 d \<noteq> []"
    using fmt_pad_nonneg [of m 2] fmt_pad_nonneg [of d 2] p by simp_all
  have "r \<noteq> []" "is_ascii_digit (last r)"
    using all_digits_hd_last [OF d(2,3)] d(3) by (simp_all add: r_def)
  note s = year_sign [OF p(1) refl this]
  have t: "date_text n = fmt_pad 4 y @ r"
    by (simp add: date_text_def c r_def)
  have "date_fields (year_text y @ r) = Some (\<bar>y\<bar>, m, d)"
    unfolding r_def using p year_text_props [OF p(1)] d
    by (intro date_fields_text) (simp_all add: int_field_fmt_pad)
  moreover have "(if y < 0 then - \<bar>y\<bar> else \<bar>y\<bar>) = y"
    by simp
  ultimately show ?thesis
    unfolding parse_date_text_def t Let_def s using p(6) by simp
qed

text \<open>Times of day.\<close>

lemma remt_nonneg [simp]: "0 \<le> a \<Longrightarrow> remt a b = a mod b"
  by (simp add: remt_def)

lemma hms_text_shape:
  assumes "0 \<le> s" "s \<le> 86400"
  obtains a b c h mi sec where "hms_text s = a @ '':'' @ b @ '':'' @ c"
    "all_digits a" "all_digits b" "all_digits c" "a \<noteq> []" "b \<noteq> []" "c \<noteq> []"
    "int_field a = Some h" "int_field b = Some mi" "int_field c = Some sec"
    "s = h * 3600 + mi * 60 + sec" "0 \<le> h" "h \<le> 24" "0 \<le> mi" "mi \<le> 59" "0 \<le> sec" "sec \<le> 59"
    "h = 24 \<longrightarrow> mi = 0 \<and> sec = 0"
proof -
  define h mi sec where "h = s div 3600" and "mi = s mod 3600 div 60" and "sec = s mod 60"
  have "s mod 3600 mod 60 = s mod 60"
    by (rule mod_mod_cancel) simp
  then have s: "s = h * 3600 + mi * 60 + sec"
    using div_mult_mod_eq [of s 3600] div_mult_mod_eq [of "s mod 3600" 60]
    unfolding h_def mi_def sec_def by linarith
  have b: "0 \<le> h" "h \<le> 24" "0 \<le> mi" "mi \<le> 59" "0 \<le> sec" "sec \<le> 59"
    using assms pos_mod_bound [of 3600 s] pos_mod_sign [of 3600 s]
    unfolding h_def mi_def sec_def by linarith+
  have e: "h = 24 \<longrightarrow> mi = 0 \<and> sec = 0"
    using s assms b by auto
  have tx: "hms_text s = fmt_pad 2 h @ '':'' @ fmt_pad 2 mi @ '':'' @ fmt_pad 2 sec"
    using assms(1) by (simp add: hms_text_def h_def mi_def sec_def)
  show ?thesis
    by (rule that [OF tx _ _ _ _ _ _ _ _ _ s b e])
      (use b in \<open>simp_all add: fmt_pad_nonneg int_field_fmt_pad\<close>)
qed

lemma frac_text_props:
  assumes "0 < f" "f < 1000000"
  shows "all_digits (frac_text f)" "frac_text f \<noteq> []" "length (frac_text f) \<le> 6"
    "frac_text f @ replicate (6 - length (frac_text f)) CHR ''0'' = fmt_pad 6 f"
proof -
  obtain k where k: "fmt_pad 6 f = frac_text f @ replicate k CHR ''0''"
    using trim_end_matches_parts unfolding frac_text_def by metis
  have l: "length (fmt_pad 6 f) = 6" and d: "all_digits (fmt_pad 6 f)" and v: "digits_val (fmt_pad 6 f) = f"
    using assms length_fmt_pad [of f 6] fmt_pad_nonneg [of f 6] by simp_all
  show "all_digits (frac_text f)"
    using d by (simp add: k)
  show "length (frac_text f) \<le> 6"
    using l by (simp add: k)
  show "frac_text f \<noteq> []"
    using v assms by (auto simp: k)
  have "length (frac_text f) + k = 6"
    using l by (simp add: k)
  then show "frac_text f @ replicate (6 - length (frac_text f)) CHR ''0'' = fmt_pad 6 f"
    by (simp add: k)
qed

lemma parse_time_text_time_text:
  assumes "0 \<le> us" "us \<le> 86400000000"
  shows "parse_time_text (time_text us) = Some us"
proof -
  define s f where "s = us div 1000000" and "f = us mod 1000000"
  have us: "us = s * 1000000 + f" and f: "0 \<le> f" "f < 1000000" and s: "0 \<le> s" "s \<le> 86400"
    using assms by (simp_all add: s_def f_def)
  obtain a b c h mi sec where t: "hms_text s = a @ '':'' @ b @ '':'' @ c"
    "all_digits a" "all_digits b" "all_digits c" "a \<noteq> []" "b \<noteq> []" "c \<noteq> []"
    "int_field a = Some h" "int_field b = Some mi" "int_field c = Some sec"
    "s = h * 3600 + mi * 60 + sec" "0 \<le> h" "h \<le> 24" "0 \<le> mi" "mi \<le> 59" "0 \<le> sec" "sec \<le> 59"
    "h = 24 \<longrightarrow> mi = 0 \<and> sec = 0"
    using hms_text_shape [OF s] by metis
  note sep = digits_no_sep [OF t(2)] digits_no_sep [OF t(3)] digits_no_sep [OF t(4)]
  have sp: "split_on CHR '':'' (hms_text s) = [a, b, c]"
    using sep by (simp add: t(1))
  have ends: "is_ascii_digit (hd a)" "is_ascii_digit (last c)"
    using all_digits_hd_last t by blast+
  show ?thesis
  proof (cases "f = 0")
    case True
    have tx: "time_text us = hms_text s"
      by (simp add: time_text_def True flip: s_def f_def)
    have tr: "trim (hms_text s) = hms_text s"
      using t ends by (intro trim_graphic) (simp_all add: graphic_digit)
    have so: "split_once {CHR ''.''} (hms_text s) = None"
      using sep by (simp add: t(1))
    show ?thesis
      unfolding tx parse_time_text_def Let_def tr so option.case prod.case sp list.case t(8-10)
      using t(11-18) True us by simp
  next
    case False
    have f': "0 < f" using False f by simp
    note ft = frac_text_props [OF f' f(2)]
    have tx: "time_text us = hms_text s @ ''.'' @ frac_text f"
      by (simp add: time_text_def False flip: s_def f_def)
    have "is_ascii_digit (last (frac_text f))"
      using ft(1,2) all_digits_hd_last by blast
    then have tr: "trim (time_text us) = time_text us"
      unfolding tx using t ends ft(2) by (intro trim_graphic) (simp_all add: graphic_digit)
    have "set (hms_text s) \<inter> {CHR ''.''} = {}"
      using sep by (simp add: t(1))
    then have so: "split_once {CHR ''.''} (time_text us) = Some (hms_text s, frac_text f)"
      unfolding tx by simp
    have fr: "take 6 (frac_text f) = frac_text f" "parse_i64 (fmt_pad 6 f) = Some f"
      using fmt_pad_nonneg [of f 6] ft(3) f f' by (simp_all add: parse_i64_digits)
    show ?thesis
      unfolding parse_time_text_def Let_def tr so option.case prod.case sp list.case t(8-10)
      using t(12-18) us ft(1,2) by (simp add: fr ft(4)) (simp add: t(11))
  qed
qed

text \<open>Timestamps: the zone is the last sign of the text.\<close>

lemma zone_pos_find:
  assumes "c \<in> {CHR ''+'', CHR ''-''}" and "set z \<inter> {CHR ''+'', CHR ''-''} = {}" and "t \<noteq> []"
  shows "zone_pos (t @ c # z) (length t + length z) = Some (length t)"
  using assms(2)
proof (induction z rule: rev_induct)
  case Nil
  obtain n where n: "length t = Suc n"
    using assms(3) by (cases t) simp_all
  then have "(t @ [c]) ! Suc n = c"
    using nth_append_length [of t c] by simp
  then show ?case
    using assms(1) n by auto
next
  case (snoc x z)
  have same: "zone_pos (s @ [x]) i = zone_pos s i" if "i < length s" for s i
    using that by (induction i) (auto simp: nth_append)
  have "(t @ c # z @ [x]) ! Suc (length t + length z) = x"
    by (simp add: nth_append)
  then show ?case
    using snoc same [of "length t + length z" "t @ c # z"] by auto
qed

lemma split_zone_utc:
  assumes "t \<noteq> []"
  shows "split_zone (t @ ''+00'') = Ok (Some (t, 0))"
proof -
  have 1: "strip_suffix CHR ''Z'' (t @ ''+00'') = None" "strip_suffix CHR ''z'' (t @ ''+00'') = None"
    by (simp_all add: strip_suffix_def)
  have 2: "zone_pos (t @ ''+00'') (length (t @ ''+00'') - 1) = Some (length t)"
    using zone_pos_find [of "CHR ''+''" "''00''" t] assms by simp
  have 3: "int_field ''00'' = Some 0" "int_field ''0'' = Some 0"
    using int_field_digits [of "''00''"] int_field_digits [of "''0''"]
    by (simp_all add: digits_val_def)
  show ?thesis
    unfolding split_zone_def 1 2 Let_def
    by (simp add: starts_with_def 3 wrap_ops in_i64_def)
qed

lemma zone_pos_SomeD:
  "zone_pos s n = Some i \<Longrightarrow> n < length s \<Longrightarrow>
    0 < i \<and> i \<le> n \<and> s ! i \<in> {CHR ''+'', CHR ''-''} \<and> (\<forall>j. i < j \<and> j \<le> n \<longrightarrow> s ! j \<notin> {CHR ''+'', CHR ''-''})"
  by (induction n) (auto simp: le_Suc_eq split: if_splits)

lemma zone_pos_split:
  assumes "zone_pos s (length s - 1) = Some i"
  obtains t sg z where "s = t @ sg # z" "length t = i" "t \<noteq> []" "sg \<in> {CHR ''+'', CHR ''-''}" "set z \<inter> {CHR ''+'', CHR ''-''} = {}"
proof -
  have ne: "s \<noteq> []" using assms by auto
  then have "length s - 1 < length s" by simp
  note f = zone_pos_SomeD [OF assms this]
  have i: "0 < i" "i < length s" "s ! i \<in> {CHR ''+'', CHR ''-''}" using f \<open>length s - 1 < length s\<close> by simp_all
  have "s ! j \<notin> {CHR ''+'', CHR ''-''}" if "i < j" "j < length s" for j
  proof -
    have "j \<le> length s - 1" using that(2) by simp
    then show ?thesis using f that(1) by blast
  qed
  note i = i this
  have "set (drop (Suc i) s) \<inter> {CHR ''+'', CHR ''-''} = {}"
    using i(4) by (auto simp: in_set_conv_nth)
  moreover have "s = take i s @ s ! i # drop (Suc i) s" using i(2) by (rule id_take_nth_drop)
  ultimately show thesis using i that [of "take i s" "s ! i" "drop (Suc i) s"] ne by auto
qed

lemma split_zone_Nil: "split_zone [] = Ok (Some ([], 0))"
  by (simp add: split_zone_def)

text \<open>A zone the source slices inside a character: the part after the sign.\<close>

definition split_char_zone :: "string \<Rightarrow> bool" where
  "split_char_zone z \<longleftrightarrow> length z = 4 \<and> set z \<inter> {CHR ''+'', CHR ''-'', CHR '':''} = {} \<and> last z \<notin> {CHR ''Z'', CHR ''z''}
     \<and> \<not> char_boundary z 2"

text \<open>The slice in the middle of the zone is the only place where \<open>split_zone\<close> panics.\<close>

lemma split_zone_panics_iff:
  "split_zone rest = Err e \<longleftrightarrow> e = Panic \<and> (\<exists>t sg z. rest = t @ sg # z \<and> t \<noteq> [] \<and> sg \<in> {CHR ''+'', CHR ''-''}
      \<and> split_char_zone z)"
  (is "_ \<longleftrightarrow> e = Panic \<and> ?R rest")
proof -
  have fwd: "e = Panic \<and> ?R rest" if p: "split_zone rest = Err e"
  proof -
    have Z: "strip_suffix CHR ''Z'' rest = None" "strip_suffix CHR ''z'' rest = None" "rest \<noteq> []"
      using p by (auto simp: split_zone_def split: option.splits if_splits)
    then obtain i where i: "zone_pos rest (length rest - 1) = Some i"
      using p by (cases "zone_pos rest (length rest - 1)") (auto simp: split_zone_def)
    obtain t sg z where r: "rest = t @ sg # z" "length t = i" "t \<noteq> []" "sg \<in> {CHR ''+'', CHR ''-''}" "set z \<inter> {CHR ''+'', CHR ''-''} = {}"
      using zone_pos_split [OF i] by metis
    have z: "take i rest = t" "tl (drop i rest) = z" using r(1,2) by simp_all
    have "split_once {CHR '':''} z = None \<and> length z = 4 \<and> \<not> char_boundary z 2 \<and> e = Panic"
      using p Z i by (auto simp: split_zone_def Let_def z split: option.splits prod.splits if_splits)
    moreover from this have "last z \<notin> {CHR ''Z'', CHR ''z''}" using Z r(1) by (auto simp: strip_suffix_def split: if_splits)
    ultimately have f: "set z \<inter> {CHR ''+'', CHR ''-'', CHR '':''} = {}" "e = Panic" "length z = 4" "last z \<notin> {CHR ''Z'', CHR ''z''}" "\<not> char_boundary z 2"
      using r(5) by simp_all
    show ?thesis
      by (rule conjI [OF f(2)], rule exI [of _ t], rule exI [of _ sg], rule exI [of _ z]) (use r f in \<open>simp add: split_char_zone_def\<close>)
  qed
  have bwd: "split_zone rest = Err Panic" if R: "?R rest"
  proof -
    obtain t sg z where r: "rest = t @ sg # z" "t \<noteq> []" "sg \<in> {CHR ''+'', CHR ''-''}" "set z \<inter> {CHR ''+'', CHR ''-'', CHR '':''} = {}"
      "length z = 4" "last z \<notin> {CHR ''Z'', CHR ''z''}" "\<not> char_boundary z 2" using R by (auto simp: split_char_zone_def)
    have s: "set z \<inter> {CHR ''+'', CHR ''-''} = {}" "split_once {CHR '':''} z = None" "z \<noteq> []" using r(4,5) by auto
    have p: "zone_pos rest (length rest - 1) = Some (length t)" using zone_pos_find [OF r(3) s(1) r(2)] by (simp add: r(1))
    have q: "strip_suffix CHR ''Z'' rest = None" "strip_suffix CHR ''z'' rest = None" "rest \<noteq> []" "tl (drop (length t) rest) = z"
      using r s(3) by (simp_all add: strip_suffix_def)
    show ?thesis
      unfolding split_zone_def Let_def p q(1,2,4) s(2) option.case using q(3) r(5,7) by simp
  qed
  show ?thesis
  proof
    assume "split_zone rest = Err e"
    then show "e = Panic \<and> ?R rest" by (rule fwd)
  next
    assume "e = Panic \<and> ?R rest"
    then have e: "e = Panic" and R: "?R rest" by (rule conjunct1, rule conjunct2)
    show "split_zone rest = Err e" unfolding e by (rule bwd [OF R])
  qed
qed

lemma parse_timestamp_text_cases:
  "parse_timestamp_text s = Err e \<longleftrightarrow>
    (let neg = starts_with CHR ''-'' (trim s); body = (if neg then tl (trim s) else trim s);
         (date, rest) = (case split_once {CHR ''T'', CHR '' ''} body of Some p \<Rightarrow> p | None \<Rightarrow> (body, []))
     in split_zone rest = Err e
       \<and> (\<exists>y mo d days. date_fields date = Some (y, mo, d) \<and> days_from_civil (if neg then - y else y) mo d = Some days))"
proof -
  have tail: "rbind m (\<lambda>zone. case zone of None \<Rightarrow> Ok None | Some (time, off) \<Rightarrow> Ok (f time off)) = Err e \<longleftrightarrow> m = Err e"
    for m and f :: "string \<Rightarrow> int \<Rightarrow> int option" by (auto simp: rbind_Err_iff split: option.splits prod.splits)
  have ok: "(case x of None \<Rightarrow> Ok None | Some a \<Rightarrow> Ok (g a)) = Ok (Option.bind x g)" for x :: "'p option" and g :: "'p \<Rightarrow> 'q option"
    by (cases x) simp_all
  obtain date rest where dr: "(case split_once {CHR ''T'', CHR '' ''} (if starts_with CHR ''-'' (trim s) then tl (trim s) else trim s) of
      Some p \<Rightarrow> p | None \<Rightarrow> (if starts_with CHR ''-'' (trim s) then tl (trim s) else trim s, [])) = (date, rest)"
    by (rule prod.exhaust)
  show ?thesis
  proof (cases "date_fields date")
    case None
    show ?thesis unfolding parse_timestamp_text_def Let_def dr prod.case None option.case by simp
  next
    case (Some ymd)
    obtain y mo d where ymd: "ymd = (y, mo, d)" by (metis surj_pair)
    show ?thesis
      unfolding parse_timestamp_text_def Let_def dr prod.case Some ymd option.case ok
      by (cases "days_from_civil (if starts_with CHR ''-'' (trim s) then - y else y) mo d") (simp_all only: option.case tail, simp_all)
  qed
qed

lemma time_text_chars:
  assumes "0 \<le> us" "us \<le> 86400000000"
  shows "time_text us \<noteq> []" "CHR '' '' \<notin> set (time_text us)"
proof -
  have "0 \<le> us div 1000000" "us div 1000000 \<le> 86400"
    using assms by simp_all
  then obtain a b c where t: "hms_text (us div 1000000) = a @ '':'' @ b @ '':'' @ c"
    "all_digits a" "all_digits b" "all_digits c"
    using hms_text_shape by metis
  have "all_digits (frac_text (us mod 1000000))" if "us mod 1000000 \<noteq> 0"
  proof -
    have "0 < us mod 1000000"
      using that by (metis le_less pos_mod_sign zero_less_numeral)
    then show ?thesis
      using frac_text_props(1) by simp
  qed
  then have f: "us mod 1000000 \<noteq> 0 \<Longrightarrow> CHR '' '' \<notin> set (frac_text (us mod 1000000))"
    using digits_no_sep(4) by blast
  show "time_text us \<noteq> []"
    by (simp add: time_text_def Let_def t(1))
  show "CHR '' '' \<notin> set (time_text us)"
    using f digits_no_sep(4) [OF t(2)] digits_no_sep(4) [OF t(3)] digits_no_sep(4) [OF t(4)]
    by (simp add: time_text_def Let_def t(1))
qed

text \<open>Microseconds since midnight, and the time text inside a timestamp.\<close>

lemma timestamp_text_shape:
  assumes "civil_from_days (us div 86400000000) = (y, m, d)"
  shows "timestamp_text us = fmt_pad 4 y @ ''-'' @ fmt_pad 2 m @ ''-'' @ fmt_pad 2 d @ '' ''
    @ time_text (us mod 86400000000) @ ''+00''"
proof -
  have 1: "us div 1000000 div 86400 = us div 86400000000"
    by (simp add: zdiv_zmult2_eq [symmetric])
  have 2: "us mod 86400000000 div 1000000 = us div 1000000 mod 86400"
    using zmod_zmult2_eq [of 86400 us 1000000] by simp
  have 3: "us mod 86400000000 mod 1000000 = us mod 1000000"
    by (rule mod_mod_cancel) simp
  show ?thesis
    using assms by (simp add: timestamp_text_def time_text_def Let_def 1 2 3)
qed

lemma parse_timestamp_text_timestamp_text:
  assumes us: "in_i64 us"
  shows "parse_timestamp_text (timestamp_text us) =
    Ok (if - (2 ^ 63) \<le> us div 1000000 * 1000000 then Some us else None)"
proof -
  define n od where "n = us div 86400000000" and "od = us mod 86400000000"
  have "- 9223372036854775808 \<le> us" "us < 9223372036854775808"
    using us by (simp_all add: in_i64_def)
  then have "- 1000000000 \<le> n" "n \<le> 1000000000"
    unfolding n_def by linarith+
  then have n: "\<bar>n\<bar> \<le> 2 ^ 62" and n': "\<bar>n\<bar> \<le> 10 ^ 9"
    by simp_all
  have od: "0 \<le> od" "od < 86400000000"
    by (simp_all add: od_def)
  obtain y m d where c: "civil_from_days n = (y, m, d)"
    by (metis prod_cases3)
  note p = civil_from_days_props [OF n c]
  define r where "r = ''-'' @ fmt_pad 2 m @ ''-'' @ fmt_pad 2 d @ '' '' @ time_text od @ ''+00''"
  have dg: "all_digits (fmt_pad 2 m)" "all_digits (fmt_pad 2 d)"
    using fmt_pad_nonneg [of m 2] fmt_pad_nonneg [of d 2] p by simp_all
  note yt = year_text_props [OF p(1)]
  have t: "timestamp_text us = fmt_pad 4 y @ r"
    using timestamp_text_shape [of us y m d] c by (simp add: n_def od_def r_def)
  have "r \<noteq> []" "is_ascii_digit (last r)"
    by (simp_all add: r_def)
  note s = year_sign [OF p(1) refl this]
  define date where "date = year_text y @ ''-'' @ fmt_pad 2 m @ ''-'' @ fmt_pad 2 d"
  have body: "year_text y @ r = date @ CHR '' '' # (time_text od @ ''+00'')"
    by (simp add: date_def r_def)
  have "set date \<inter> {CHR ''T'', CHR '' ''} = {}"
    using digits_no_sep(4,5) [OF yt(1)] digits_no_sep(4,5) [OF dg(1)] digits_no_sep(4,5) [OF dg(2)]
    by (simp add: date_def)
  then have so: "split_once {CHR ''T'', CHR '' ''} (year_text y @ r) = Some (date, time_text od @ ''+00'')"
    unfolding body by simp
  have df: "date_fields date = Some (\<bar>y\<bar>, m, d)"
    unfolding date_def using p yt dg
    by (intro date_fields_text) (simp_all add: int_field_fmt_pad)
  have dc: "days_from_civil (if y < 0 then - \<bar>y\<bar> else \<bar>y\<bar>) m d = Some n"
    using p(6) by simp
  have sz: "split_zone (time_text od @ ''+00'') = Ok (Some (time_text od, 0))"
    using od time_text_chars(1) by (intro split_zone_utc) simp
  have pt: "parse_time_text (time_text od) = Some od" "time_text od \<noteq> []"
    using od parse_time_text_time_text time_text_chars(1) by simp_all
  have secs: "n * 86400 + od div 1000000 = us div 1000000"
  proof -
    have "us = n * 86400000000 + od"
      by (simp add: n_def od_def)
    then have "us = od + (n * 86400) * 1000000"
      by simp
    then have "us div 1000000 = n * 86400 + od div 1000000"
      by (metis div_mult_self1 zero_neq_numeral)
    then show ?thesis by simp
  qed
  have fr: "od mod 1000000 = us mod 1000000"
    unfolding od_def by (rule mod_mod_cancel) simp
  have ck: "checked_i64 (n * 86400) = Some (n * 86400)"
    "checked_i64 (us div 1000000) = Some (us div 1000000)"
    using n' us by (auto simp: checked_i64_def in_i64_def)
  have ck3: "checked_i64 us = Some us"
    using us by (simp add: checked_i64_def)
  have ck2: "checked_i64 (us div 1000000 * 1000000)
      = (if - (2 ^ 63) \<le> us div 1000000 * 1000000 then Some (us div 1000000 * 1000000) else None)"
    using us by (auto simp: checked_i64_def in_i64_def)
  show ?thesis
    unfolding parse_timestamp_text_def t Let_def s so option.case prod.case df dc sz rbind_simps
    by (simp add: pt ck secs ck2 fr ck3)
qed

section \<open>Properties\<close>

text \<open>
  C18: \<open>civil_from_days\<close> counts days as a calendar does: day 0 is 1970-01-01, and the date of the
  day after \<open>n\<close> is the date that follows, by the month lengths of \<open>days_in_month\<close>, the date of \<open>n\<close>.
\<close>

theorem civil_from_days_counts:
  "civil_from_days 0 = (1970, 1, 1) \<and>
    (\<bar>n\<bar> < 2 ^ 62 \<longrightarrow> civil_from_days (n + 1) = next_day (civil_from_days n))"
  by (simp add: civil_from_days_eq civil_date_next) code_simp

theorem civil_from_days_counts_witness:
  "civil_from_days (11016 + 1) = next_day (civil_from_days 11016)"
  using civil_from_days_counts [of 11016] by simp

text \<open>
  C19: the two calendar conversions are inverse to each other. Every day count up to \<open>2 ^ 62\<close> in
  magnitude has a date that \<open>days_from_civil\<close> accepts and maps back, and a date with a year up to
  \<open>2 ^ 54\<close> in magnitude that \<open>days_from_civil\<close> accepts is the date of the day count it returns.
\<close>

theorem days_from_civil_inverse:
  assumes "\<bar>n\<bar> \<le> 2 ^ 62" and "\<bar>y\<bar> \<le> 2 ^ 54"
  shows "(case civil_from_days n of (y', m', d') \<Rightarrow> days_from_civil y' m' d') = Some n
    \<and> (\<forall>k. \<bar>k\<bar> \<le> 2 ^ 62 \<longrightarrow> days_from_civil y m d = Some k \<longrightarrow> civil_from_days k = (y, m, d))"
proof (intro conjI allI impI)
  show "(case civil_from_days n of (y', m', d') \<Rightarrow> days_from_civil y' m' d') = Some n"
    using civil_from_days_props(6) [OF assms(1)] by (auto split: prod.split)
next
  fix k
  assume "\<bar>k\<bar> \<le> 2 ^ 62" and "days_from_civil y m d = Some k"
  then show "civil_from_days k = (y, m, d)"
    using civil_date_civil_days [of y m d]
    by (auto simp: days_from_civil_eq [OF assms(2)] civil_from_days_eq split: if_splits)
qed

theorem days_from_civil_inverse_witness:
  "days_from_civil 2000 2 29 = Some 11016 \<and> civil_from_days 11016 = (2000, 2, 29)"
proof -
  have "days_from_civil 2000 2 29 = Some 11016"
    by code_simp
  then show ?thesis
    using days_from_civil_inverse [of 0 2000 2 29] by simp
qed

text \<open>
  C31: dates survive the text form: what \<open>date_text\<close> prints, \<open>parse_date_text\<close> reads back, for
  every day count up to \<open>2 ^ 62\<close> in magnitude, years before the common era included.
\<close>

theorem date_text_round_trip:
  assumes "\<bar>n\<bar> \<le> 2 ^ 62"
  shows "parse_date_text (date_text n) = Some n"
  using assms by (rule parse_date_text_date_text)

theorem date_text_round_trip_witness:
  "date_text (- 719529) = ''-001-12-31'' \<and> parse_date_text (date_text (- 719529)) = Some (- 719529)"
proof -
  have "date_text (- 719529) = ''-001-12-31''"
    by code_simp
  then show ?thesis
    using date_text_round_trip [of "- 719529"] by simp
qed

text \<open>
  C32: times and timestamps survive the text form. Every time of day is read back, and every
  \<open>i64\<close> timestamp is, except those in the last, partial second at the low end of the range,
  which the checked arithmetic of the parser refuses.
\<close>

theorem timestamp_text_round_trip:
  assumes "0 \<le> t" and "t \<le> 86400000000" and "in_i64 us"
  shows "parse_time_text (time_text t) = Some t
    \<and> parse_timestamp_text (timestamp_text us) =
        Ok (if - (2 ^ 63) \<le> us div 1000000 * 1000000 then Some us else None)"
  using parse_time_text_time_text [OF assms(1,2)] parse_timestamp_text_timestamp_text [OF assms(3)]
  by simp

theorem timestamp_text_round_trip_witness:
  "timestamp_text (- 1) = ''1969-12-31 23:59:59.999999+00''
    \<and> parse_timestamp_text (timestamp_text (- 1)) = Ok (Some (- 1))
    \<and> parse_timestamp_text (timestamp_text (- (2 ^ 63))) = Ok None"
proof -
  have "timestamp_text (- 1) = ''1969-12-31 23:59:59.999999+00''"
    by code_simp
  then show ?thesis
    using timestamp_text_round_trip [of 0 "- 1"] timestamp_text_round_trip [of 0 "- (2 ^ 63)"]
    by (simp add: in_i64_def)
qed

text \<open>
  C33: \<open>parse_timestamp_text\<close> panics on exactly one class of texts: a date, a separator, and a time
  followed by a zone whose part after the last sign is four bytes long, has no colon, does not end in
  \<open>Z\<close> or \<open>z\<close>, and has a character across its middle, where the source slices it.
\<close>

theorem parse_timestamp_text_panics:
  "parse_timestamp_text s = Err Panic \<longleftrightarrow>
    (\<exists>date t sg z y mo d days. split_once {CHR ''T'', CHR '' ''} (if starts_with CHR ''-'' (trim s) then tl (trim s) else trim s)
          = Some (date, t @ sg # z)
      \<and> date_fields date = Some (y, mo, d)
      \<and> days_from_civil (if starts_with CHR ''-'' (trim s) then - y else y) mo d = Some days
      \<and> t \<noteq> [] \<and> sg \<in> {CHR ''+'', CHR ''-''} \<and> split_char_zone z)"
proof -
  let ?b = "if starts_with CHR ''-'' (trim s) then tl (trim s) else trim s"
  show ?thesis
  proof (cases "split_once {CHR ''T'', CHR '' ''} ?b")
    case None
    show ?thesis unfolding parse_timestamp_text_cases Let_def None option.case prod.case split_zone_Nil by simp
  next
    case (Some p)
    obtain date rest where p: "p = (date, rest)" by (cases p)
    show ?thesis
      unfolding parse_timestamp_text_cases Let_def Some p option.case prod.case split_zone_panics_iff option.inject prod.inject by metis
  qed
qed

theorem parse_timestamp_text_panics_witness:
  "valid_str (''2020-01-01 10:00+a'' @ [CHR 0xC3, CHR 0xA9, CHR ''b''])
    \<and> parse_timestamp_text (''2020-01-01 10:00+a'' @ [CHR 0xC3, CHR 0xA9, CHR ''b'']) = Err Panic"
proof -
  let ?z = "''a'' @ [CHR 0xC3, CHR 0xA9, CHR ''b'']"
  let ?s = "''2020-01-01 10:00+a'' @ [CHR 0xC3, CHR 0xA9, CHR ''b'']"
  have 0: "valid_str ?s" by code_simp
  have 1: "trim ?s = ?s" by (rule trim_graphic) (simp, code_simp, code_simp)
  have 2: "\<not> starts_with CHR ''-'' ?s" by code_simp
  have 3: "split_once {CHR ''T'', CHR '' ''} ?s = Some (''2020-01-01'', ''10:00'' @ CHR ''+'' # ?z)" by code_simp
  have 4: "date_fields ''2020-01-01'' = Some (2020, 1, 1)" by code_simp
  have 5: "days_from_civil 2020 1 1 = Some 18262" by code_simp
  have 6: "split_char_zone ?z" by code_simp
  have "parse_timestamp_text ?s = Err Panic"
    unfolding parse_timestamp_text_panics 1 if_not_P [OF 2]
    by (intro exI conjI, rule 3, rule 4, rule 5, use 6 in simp_all)
  with 0 show ?thesis by blast
qed

text \<open>
  C26: \<open>days_from_civil\<close> is not exact over all of \<open>i64\<close>: for the year \<open>3 * 10 ^ 16\<close> the product of
  the era and the days of an era leaves the range, and the first of January of that year gets a day
  count before 1970.
\<close>

theorem days_from_civil_wraps:
  "days_from_civil 30000000000000000 1 1 = Some (- 7489469073710271144)"
  by code_simp

end
