(* ===== verification/Decimal.thy ===== *)
theory Decimal
  imports Rust_Str
begin

text \<open>
  The exact decimals of \<open>mpedb-types/src/value.rs\<close>: the parser of numeric literals, the canonical
  spelling, the mantissa/scale form and the comparison by value, on strings of ASCII digits. The
  number a plain decimal denotes is a pair \<open>(m, k)\<close> that stands for \<open>m / 10 ^ k\<close>, so comparisons are
  comparisons of integers after cross-multiplication.
\<close>

section \<open>Signs, specials and significant digits\<close>

definition split_sign :: "string \<Rightarrow> bool \<times> string" where
  "split_sign t = (case strip_prefix CHR ''-'' t of
     Some rest \<Rightarrow> (True, rest)
   | None \<Rightarrow> (False, case strip_prefix CHR ''+'' t of Some r \<Rightarrow> r | None \<Rightarrow> t))"

text \<open>\<open>s.split_once('.').unwrap_or((s, ""))\<close>\<close>

definition split_point :: "string \<Rightarrow> string \<times> string" where
  "split_point s = (case split_once {CHR ''.''} s of Some p \<Rightarrow> p | None \<Rightarrow> (s, []))"

definition split_significant :: "string \<Rightarrow> string \<times> string" where
  "split_significant s = (let (i, f) = split_point s
     in (trim_start_matches CHR ''0'' i, trim_end_matches CHR ''0'' f))"

definition numeric_special_rank :: "string \<Rightarrow> nat option" where
  "numeric_special_rank s =
    (if s = ''-Infinity'' then Some 0 else if s = ''Infinity'' then Some 3
     else if s = ''NaN'' then Some 4 else None)"

definition canonical_numeric :: "string \<Rightarrow> string" where
  "canonical_numeric s =
    (let t = trim s; (neg, digits) = split_sign t
     in if digits = [] \<or> \<not> list_all (\<lambda>b. is_ascii_digit b \<or> b = CHR ''.'') digits then t
        else let (int_part, frac_part) = split_point digits;
                 int_trimmed = trim_start_matches CHR ''0'' int_part;
                 frac_trimmed = trim_end_matches CHR ''0'' frac_part;
                 int_final = (if int_trimmed = [] then ''0'' else int_trimmed)
             in (if neg \<and> \<not> (int_final = ''0'' \<and> frac_trimmed = []) then ''-'' else [])
                @ int_final @ (if frac_trimmed = [] then [] else CHR ''.'' # frac_trimmed))"

section \<open>The literal parser\<close>

definition NUMERIC_MAX_WEIGHT :: int where
  "NUMERIC_MAX_WEIGHT = 131072"

definition NUMERIC_MAX_SCALE :: int where
  "NUMERIC_MAX_SCALE = 16383"

text \<open>
  The exponent of \<open>body\<close>: the mantissa text and the exponent, or \<open>None\<close> where the source returns.
  An exponent too long for an \<open>i64\<close> saturates.
\<close>

definition split_exponent :: "string \<Rightarrow> (string \<times> int) option" where
  "split_exponent body =
    (case find_pos (\<lambda>c. c = CHR ''e'' \<or> c = CHR ''E'') body of
       None \<Rightarrow> Some (body, 0)
     | Some i \<Rightarrow>
         let e = drop (i + 1) body;
             e = (case strip_prefix CHR ''+'' e of Some r \<Rightarrow> r | None \<Rightarrow> e);
             neg_e = starts_with CHR ''-'' e;
             digits = (if neg_e then tl e else e)
         in if digits = [] \<or> \<not> all_digits digits then None
            else let mag = (case parse_i64 digits of Some v \<Rightarrow> v | None \<Rightarrow> 2 ^ 63 - 1)
                 in Some (take i body, if neg_e then - mag else mag))"

text \<open>The digits with the point moved by the exponent.\<close>

definition place_point :: "string \<Rightarrow> int \<Rightarrow> string" where
  "place_point digits point =
    (if point \<le> 0 then ''0.'' @ replicate (nat (- point)) CHR ''0'' @ digits
     else if nat point \<ge> length digits then digits @ replicate (nat point - length digits) CHR ''0''
     else take (nat point) digits @ ''.'' @ drop (nat point) digits)"

definition parse_numeric :: "string \<Rightarrow> string option" where
  "parse_numeric s =
    (let t = trim s
     in if t = [] then None
        else let (neg, body) = split_sign t
        in if eq_ignore_ascii_case body ''nan'' then Some ''NaN''
           else if eq_ignore_ascii_case body ''infinity'' \<or> eq_ignore_ascii_case body ''inf''
             then Some (if neg then ''-Infinity'' else ''Infinity'')
           else case split_exponent body of None \<Rightarrow> None
           | Some (mantissa, exp) \<Rightarrow>
               let (int_part, frac_part) = split_point mantissa
               in if int_part = [] \<and> frac_part = [] then None
                  else if \<not> all_digits (int_part @ frac_part) then None
                  else let digits = int_part @ frac_part;
                           point = saturating_i64 (int (length int_part) + exp)
                  in if point > NUMERIC_MAX_WEIGHT
                        \<or> saturating_i64 (int (length digits) - point) > NUMERIC_MAX_SCALE then None
                     else let (ip, fp) = split_point (place_point digits point);
                              ip = trim_start_matches CHR ''0'' ip;
                              ip = (if ip = [] then ''0'' else ip)
                          in Some ((if neg \<and> \<not> (ip = ''0'' \<and> list_all (\<lambda>b. b = CHR ''0'') fp) then ''-'' else [])
                                   @ ip @ (if fp = [] then [] else CHR ''.'' # fp)))"

section \<open>Mantissa and scale\<close>

definition decimal_parts :: "string \<Rightarrow> (int \<times> nat) option" where
  "decimal_parts s =
    (let t = trim s
     in if numeric_special_rank t \<noteq> None then None
        else let (neg, body) = split_sign t; (ip, fp) = split_point body
        in if (ip = [] \<and> fp = []) \<or> \<not> all_digits (ip @ fp) then None
           else case parse_i128 (ip @ fp) of None \<Rightarrow> None
           | Some m \<Rightarrow> Some (if neg then - m else m, length fp mod 2 ^ 32))"

definition decimal_text :: "int \<Rightarrow> nat \<Rightarrow> string" where
  "decimal_text m scale =
    (if scale = 0 then show_int m
     else let digits = show_uint \<bar>m\<bar>;
              padded = (if length digits \<le> scale
                then replicate (scale + 1 - length digits) CHR ''0'' @ digits else digits);
              ip = take (length padded - scale) padded; fp = drop (length padded - scale) padded;
              out = ip @ ''.'' @ fp
          in if m < 0 \<and> m \<noteq> 0 then CHR ''-'' # out else out)"

section \<open>Comparison by value\<close>

definition num_sign :: "string \<Rightarrow> bool \<times> nat" where
  "num_sign s = (case s of
     c # r \<Rightarrow> if c = CHR ''-'' then (True, 1) else if c = CHR ''+'' then (False, 1) else (False, 0)
   | [] \<Rightarrow> (False, 0))"

definition str_cmp :: "string \<Rightarrow> string \<Rightarrow> ordering" where
  "str_cmp a b = ord_cmp (as_bytes a) (as_bytes b)"

definition numeric_cmp :: "string \<Rightarrow> string \<Rightarrow> ordering" where
  "numeric_cmp a b =
    (case (numeric_special_rank a, numeric_special_rank b) of
       (Some x, Some y) \<Rightarrow> ord_cmp x y
     | (Some x, None) \<Rightarrow> ord_cmp x 2
     | (None, Some y) \<Rightarrow> ord_cmp 2 y
     | (None, None) \<Rightarrow>
         let (an, ao) = num_sign a; (bn, bo) = num_sign b;
             (ai, af) = split_significant (drop ao a);
             (bi, bf) = split_significant (drop bo b);
             an = (an \<and> \<not> (ai = [] \<and> af = []));
             bn = (bn \<and> \<not> (bi = [] \<and> bf = []))
         in if an \<noteq> bn then if an then Less else Greater
            else let mag = ord_then (ord_cmp (length ai) (length bi))
                             (ord_then (str_cmp ai bi) (str_cmp af bf))
                 in if an then ord_reverse mag else mag)"

section \<open>Specification: the number denoted\<close>

text \<open>A plain decimal: an optional sign, digits, and at most one point, with at least one digit.\<close>

definition plain :: "string \<Rightarrow> bool" where
  "plain s \<longleftrightarrow> (let (i, f) = split_point (snd (split_sign s)) in i @ f \<noteq> [] \<and> all_digits (i @ f))"

definition dec_num :: "string \<Rightarrow> int \<times> nat" where
  "dec_num s = (let (neg, body) = split_sign s; (i, f) = split_point body
     in (if neg then - digits_val (i @ f) else digits_val (i @ f), length f))"

definition dec_cmp :: "int \<times> nat \<Rightarrow> int \<times> nat \<Rightarrow> ordering" where
  "dec_cmp a b = ord_cmp (fst a * 10 ^ snd b) (fst b * 10 ^ snd a)"

section \<open>Lemmas: digit strings as numbers\<close>

lemma byte_of_char_less_iff: "byte_of_char c < byte_of_char d \<longleftrightarrow> (of_char c :: int) < of_char d"
proof -
  have "unat (byte_of_char c) = of_char c" for c
    using nat_of_char_less_256 [of c] by (simp add: byte_of_char_def unat_of_nat)
  then show ?thesis
    unfolding word_less_nat_alt of_char_int by simp
qed

lemma digit_byte_less:
  "is_ascii_digit c \<Longrightarrow> is_ascii_digit d \<Longrightarrow> byte_of_char c < byte_of_char d \<longleftrightarrow> digit_val c < digit_val d"
  by (simp add: byte_of_char_less_iff digit_val_def)

lemma digits_val_Cons: "digits_val (c # s) = digit_val c * 10 ^ length s + digits_val s"
  using digits_val_append [of "[c]" s] by (simp add: digits_val_def)

lemma scaled_less:
  fixes a b p q u v :: int
  assumes "a < b" "0 \<le> u" "u < p" "0 \<le> v" "v < q" "0 < p" "0 < q"
  shows "(a * p + u) * q < (b * q + v) * p"
proof -
  have "(a * p + u) * q < (a + 1) * p * q"
    using assms by (intro mult_strict_right_mono) (simp_all add: algebra_simps)
  also have "\<dots> \<le> b * p * q"
    using assms by (intro mult_right_mono) simp_all
  also have "\<dots> \<le> (b * q + v) * p"
    using assms by (simp add: algebra_simps)
  finally show ?thesis .
qed

text \<open>Fractions without trailing zeros compare like their digits.\<close>

definition no_trailing_zero :: "string \<Rightarrow> bool" where
  "no_trailing_zero f \<longleftrightarrow> f = [] \<or> last f \<noteq> CHR ''0''"

lemma digits_val_pos:
  assumes "all_digits f" and "no_trailing_zero f" and "f \<noteq> []"
  shows "0 < digits_val f"
proof -
  have f: "f = butlast f @ [last f]" using assms(3) by simp
  have d: "is_ascii_digit (last f)" "last f \<noteq> CHR ''0''" "all_digits (butlast f)"
    using assms all_digits_hd_last [of f] all_digits_simps(3) [of "butlast f" "[last f]"] f
    by (auto simp: no_trailing_zero_def)
  have "digit_val (last f) \<noteq> 0"
    using digit_val_inject [OF d(1) is_ascii_digit_zero(1)] d(2) by auto
  then have "0 < digit_val (last f)"
    using digit_val_less [OF d(1)] by simp
  moreover have "0 \<le> digits_val (butlast f)"
    using digits_val_less d(3) by blast
  moreover have "digits_val f = 10 * digits_val (butlast f) + digit_val (last f)"
    using digits_val_snoc [of "butlast f" "last f"] f by metis
  ultimately show ?thesis
    by simp
qed

lemma frac_cmp:
  assumes "all_digits f" "all_digits g" "no_trailing_zero f" "no_trailing_zero g"
  shows "str_cmp f g = ord_cmp (digits_val f * 10 ^ length g) (digits_val g * 10 ^ length f)"
  using assms
proof (induction f arbitrary: g)
  case Nil
  then show ?case
    using digits_val_pos [of g] by (cases g) (simp_all add: str_cmp_def ord_cmp_def)
next
  case (Cons c f)
  show ?case
  proof (cases g)
    case Nil
    then show ?thesis
      using digits_val_pos [of "c # f"] Cons.prems by (simp add: str_cmp_def ord_cmp_def)
  next
    case g: (Cons d g')
    have p: "is_ascii_digit c" "is_ascii_digit d" "all_digits f" "all_digits g'"
      "no_trailing_zero f" "no_trailing_zero g'"
      using Cons.prems by (auto simp: g no_trailing_zero_def split: if_splits)
    have b: "0 \<le> digits_val f" "digits_val f < 10 ^ length f" "0 \<le> digits_val g'"
      "digits_val g' < 10 ^ length g'"
      using digits_val_less p by blast+
    define P Q where "P = (10 :: int) ^ length f" and "Q = (10 :: int) ^ length g'"
    have PQ: "0 < P" "0 < Q" by (simp_all add: P_def Q_def)
    show ?thesis
    proof (cases "digit_val c" "digit_val d" rule: linorder_cases)
      case less
      then have "(digit_val c * P + digits_val f) * Q < (digit_val d * Q + digits_val g') * P"
        using b PQ by (intro scaled_less) (simp_all add: P_def Q_def)
      then show ?thesis
        using less p
        by (simp add: g str_cmp_def ord_cmp_def digits_val_Cons digit_byte_less
            flip: P_def Q_def)
    next
      case greater
      then have "(digit_val d * Q + digits_val g') * P < (digit_val c * P + digits_val f) * Q"
        using b PQ by (intro scaled_less) (simp_all add: P_def Q_def)
      then show ?thesis
        using greater p digit_byte_less [of d c]
        by (auto simp: g str_cmp_def ord_cmp_def digits_val_Cons simp flip: P_def Q_def)
    next
      case equal
      then have cd: "c = d" using digit_val_inject p by blast
      have "str_cmp (c # f) g = str_cmp f g'"
        by (simp add: g cd str_cmp_def ord_cmp_def)
      also have "\<dots> = ord_cmp (digits_val f * Q) (digits_val g' * P)"
        using Cons.IH [OF p(3,4,5,6)] by (simp add: P_def Q_def)
      also have "\<dots> = ord_cmp (digits_val (c # f) * 10 ^ length g) (digits_val g * 10 ^ length (c # f))"
        by (intro ord_cmp_mono)
          (simp_all add: g cd digits_val_Cons algebra_simps flip: P_def Q_def)
      finally show ?thesis .
    qed
  qed
qed

text \<open>Integer parts without leading zeros compare by length, then like their digits.\<close>

definition no_leading_zero :: "string \<Rightarrow> bool" where
  "no_leading_zero i \<longleftrightarrow> i = [] \<or> hd i \<noteq> CHR ''0''"

lemma digits_val_lower:
  assumes "all_digits i" "no_leading_zero i" "i \<noteq> []"
  shows "10 ^ (length i - 1) \<le> digits_val i"
proof -
  obtain c r where i: "i = c # r" using assms(3) by (cases i) auto
  have c: "is_ascii_digit c" "c \<noteq> CHR ''0''" "all_digits r"
    using assms by (auto simp: i no_leading_zero_def)
  then have "digit_val c \<noteq> 0"
    using digit_val_inject [OF c(1) is_ascii_digit_zero(1)] by auto
  then have "1 * 10 ^ length r \<le> digit_val c * 10 ^ length r"
    using digit_val_less [OF c(1)] by (intro mult_right_mono) simp_all
  then have "10 ^ length r \<le> digit_val c * 10 ^ length r + digits_val r"
    using digits_val_less [OF c(3)] by linarith
  then show ?thesis
    by (simp only: i digits_val_Cons) simp
qed

lemma str_cmp_same_length:
  "all_digits i \<Longrightarrow> all_digits j \<Longrightarrow> length i = length j \<Longrightarrow> str_cmp i j = ord_cmp (digits_val i) (digits_val j)"
proof (induction i arbitrary: j)
  case Nil
  then show ?case by (simp add: str_cmp_def)
next
  case (Cons c i)
  then obtain d j' where j: "j = d # j'" by (cases j) auto
  have p: "is_ascii_digit c" "is_ascii_digit d" "all_digits i" "all_digits j'" "length i = length j'"
    using Cons.prems by (auto simp: j)
  have b: "0 \<le> digits_val i" "digits_val i < 10 ^ length j'" "0 \<le> digits_val j'"
    "digits_val j' < 10 ^ length j'"
    using digits_val_less p by metis+
  have step: "a * k + u < b * k + v" if "a < b" "0 \<le> v" "u < k" "0 < k" for a b u v k :: int
  proof -
    have "(a + 1) * k \<le> b * k"
      using that by (intro mult_right_mono) simp_all
    then show ?thesis
      using that by (simp add: algebra_simps)
  qed
  show ?case
  proof (cases "digit_val c" "digit_val d" rule: linorder_cases)
    case less
    then show ?thesis
      using p b step by (simp add: j str_cmp_def ord_cmp_def digits_val_Cons digit_byte_less)
  next
    case greater
    then show ?thesis
      using p b step [of "digit_val d" "digit_val c" "digits_val i" "digits_val j'" "10 ^ length j'"]
        digit_byte_less [of d c]
      by (auto simp: j str_cmp_def ord_cmp_def digits_val_Cons)
  next
    case equal
    then have "c = d" using digit_val_inject p by blast
    moreover have "str_cmp (d # i) (d # j') = str_cmp i j'"
      by (simp add: str_cmp_def ord_cmp_def)
    moreover have "ord_cmp (k + x) (k + y) = ord_cmp x y" for k x y :: int
      by (simp add: ord_cmp_def)
    ultimately show ?thesis
      using Cons.IH [OF p(3,4,5)] p(5) by (simp add: j digits_val_Cons)
  qed
qed

lemma int_cmp:
  assumes "all_digits i" "all_digits j" "no_leading_zero i" "no_leading_zero j"
  shows "ord_then (ord_cmp (length i) (length j)) (str_cmp i j) = ord_cmp (digits_val i) (digits_val j)"
proof -
  have short: "digits_val x < digits_val y"
    if "length x < length y" "all_digits x" "all_digits y" "no_leading_zero y" for x y
  proof -
    have "digits_val x < 10 ^ length x"
      using digits_val_less that(2) by blast
    also have "\<dots> \<le> (10 :: int) ^ (length y - 1)"
      using that(1) by (intro power_increasing) simp_all
    also have "\<dots> \<le> digits_val y"
      using that by (intro digits_val_lower) auto
    finally show ?thesis .
  qed
  show ?thesis
    using short [of i j] short [of j i] assms str_cmp_same_length [of i j]
    by (cases "length i" "length j" rule: linorder_cases) (auto simp: ord_cmp_def)
qed

section \<open>Lemmas: comparison by value\<close>

lemma split_sign_num_sign: "split_sign s = (fst (num_sign s), drop (snd (num_sign s)) s)"
  by (auto simp: split_sign_def num_sign_def strip_prefix_def split: list.split)

lemma trim_start_parts: "\<exists>k. s = replicate k c @ trim_start_matches c s"
proof (induction s)
  case (Cons x s)
  then obtain k where k: "s = replicate k c @ trim_start_matches c s" by blast
  show ?case
  proof (cases "x = c")
    case True
    then have "x # s = replicate (Suc k) c @ trim_start_matches c (x # s)"
      using k by (simp add: trim_start_matches_def)
    then show ?thesis by blast
  next
    case False
    then have "x # s = replicate 0 c @ trim_start_matches c (x # s)"
      by (simp add: trim_start_matches_def)
    then show ?thesis by blast
  qed
qed (simp add: trim_start_matches_def)

lemma trim_start_props:
  assumes "all_digits i"
  shows "all_digits (trim_start_matches CHR ''0'' i)" (is "all_digits ?i")
    "digits_val (trim_start_matches CHR ''0'' i) = digits_val i"
    "no_leading_zero (trim_start_matches CHR ''0'' i)"
proof -
  obtain k where k: "i = replicate k CHR ''0'' @ ?i"
    using trim_start_parts by blast
  show "all_digits ?i"
    using assms all_digits_simps(3) k by metis
  have "digits_val (replicate k CHR ''0'' @ ?i) = digits_val ?i"
    by (simp add: digits_val_append)
  then show "digits_val ?i = digits_val i"
    using k by metis
  show "no_leading_zero ?i"
    using hd_dropWhile [of "\<lambda>x. x = CHR ''0''" i]
    by (auto simp: no_leading_zero_def trim_start_matches_def)
qed

lemma trim_end_props:
  assumes "all_digits f"
  shows "all_digits (trim_end_matches CHR ''0'' f)" (is "all_digits ?f")
    "\<exists>k. length f = length (trim_end_matches CHR ''0'' f) + k
      \<and> digits_val f = digits_val (trim_end_matches CHR ''0'' f) * 10 ^ k"
    "no_trailing_zero (trim_end_matches CHR ''0'' f)"
proof -
  obtain k where k: "f = ?f @ replicate k CHR ''0''"
    using trim_end_matches_parts by blast
  show "all_digits ?f"
    using assms all_digits_simps(3) k by metis
  have "length (?f @ replicate k CHR ''0'') = length ?f + k
      \<and> digits_val (?f @ replicate k CHR ''0'') = digits_val ?f * 10 ^ k"
    by (simp add: digits_val_append)
  then show "\<exists>k. length f = length ?f + k \<and> digits_val f = digits_val ?f * 10 ^ k"
    using k by metis
  show "no_trailing_zero ?f"
    using hd_dropWhile [of "\<lambda>x. x = CHR ''0''" "rev f"]
    by (auto simp: no_trailing_zero_def trim_end_matches_def last_rev)
qed

text \<open>The magnitude of the significant digits.\<close>

definition sig_val :: "string \<times> string \<Rightarrow> int" where
  "sig_val p = digits_val (fst p) * 10 ^ length (snd p) + digits_val (snd p)"

definition sig_ok :: "string \<times> string \<Rightarrow> bool" where
  "sig_ok p \<longleftrightarrow> all_digits (fst p) \<and> all_digits (snd p) \<and> no_leading_zero (fst p) \<and> no_trailing_zero (snd p)"

lemma sig_val_nonneg: "sig_ok p \<Longrightarrow> 0 \<le> sig_val p"
  using digits_val_less [of "fst p"] digits_val_less [of "snd p"]
  by (simp add: sig_ok_def sig_val_def)

lemma sig_val_0_iff: "sig_ok p \<Longrightarrow> sig_val p = 0 \<longleftrightarrow> fst p = [] \<and> snd p = []"
proof -
  assume p: "sig_ok p"
  have f: "0 \<le> digits_val (fst p)" "0 \<le> digits_val (snd p)"
    using p digits_val_less by (auto simp: sig_ok_def)
  have "fst p \<noteq> [] \<Longrightarrow> 0 < digits_val (fst p)"
    using less_le_trans [OF zero_less_power digits_val_lower, of "fst p"] p
    by (simp add: sig_ok_def)
  moreover have "snd p \<noteq> [] \<Longrightarrow> 0 < digits_val (snd p)"
    using digits_val_pos [of "snd p"] p by (simp add: sig_ok_def)
  moreover have "0 < a \<Longrightarrow> 0 \<le> b \<Longrightarrow> a * 10 ^ n + b \<noteq> (0 :: int)" for a b n
    by (simp add: add_pos_nonneg less_imp_neq [symmetric])
  moreover have "0 \<le> a \<Longrightarrow> 0 < b \<Longrightarrow> a * 10 ^ n + b \<noteq> (0 :: int)" for a b n
    by (simp add: add_nonneg_pos less_imp_neq [symmetric])
  ultimately show ?thesis
    using f by (cases "fst p = []"; cases "snd p = []") (auto simp: sig_val_def)
qed

lemma sig_cmp:
  assumes p: "sig_ok p" and q: "sig_ok q"
  shows "ord_then (ord_cmp (length (fst p)) (length (fst q)))
      (ord_then (str_cmp (fst p) (fst q)) (str_cmp (snd p) (snd q)))
    = ord_cmp (sig_val p * 10 ^ length (snd q)) (sig_val q * 10 ^ length (snd p))"
proof -
  define I J F G where "I = digits_val (fst p)" and "J = digits_val (fst q)"
    and "F = digits_val (snd p)" and "G = digits_val (snd q)"
  define P Q where "P = (10 :: int) ^ length (snd p)" and "Q = (10 :: int) ^ length (snd q)"
  have b: "0 \<le> F" "F < P" "0 \<le> G" "G < Q"
    using digits_val_less p q by (auto simp: sig_ok_def F_def G_def P_def Q_def)
  have PQ: "0 < P" "0 < Q" by (simp_all add: P_def Q_def)
  have "ord_then (ord_cmp (length (fst p)) (length (fst q)))
      (ord_then (str_cmp (fst p) (fst q)) (str_cmp (snd p) (snd q)))
    = ord_then (ord_cmp I J) (ord_cmp (F * Q) (G * P))"
    using int_cmp [of "fst p" "fst q"] frac_cmp [of "snd p" "snd q"] p q
    by (simp add: sig_ok_def I_def J_def F_def G_def P_def Q_def flip: ord_then_assoc)
  also have "\<dots> = ord_cmp ((I * P + F) * Q) ((J * Q + G) * P)"
  proof (cases I J rule: linorder_cases)
    case less
    then show ?thesis
      using scaled_less [of I J F P G Q] b PQ by (simp add: ord_cmp_def)
  next
    case greater
    then show ?thesis
      using scaled_less [of J I G Q F P] b PQ by (simp add: ord_cmp_def)
  next
    case equal
    then show ?thesis
      by (simp add: ord_cmp_def algebra_simps)
  qed
  finally show ?thesis
    by (simp add: sig_val_def I_def J_def F_def G_def P_def Q_def)
qed

text \<open>A plain decimal through its significant digits.\<close>

lemma plain_sig:
  assumes "plain s"
  obtains k where "sig_ok (split_significant (snd (split_sign s)))"
    "dec_num s = ((if fst (split_sign s) then - 1 else 1)
        * sig_val (split_significant (snd (split_sign s))) * 10 ^ k,
      length (snd (split_significant (snd (split_sign s)))) + k)"
proof -
  obtain neg body where nb: "split_sign s = (neg, body)" by fastforce
  obtain i f where p: "split_point body = (i, f)" by fastforce
  define i' f' where "i' = trim_start_matches CHR ''0'' i" and "f' = trim_end_matches CHR ''0'' f"
  have d: "all_digits i" "all_digits f"
    using assms by (simp_all add: plain_def nb p)
  have sg: "split_significant body = (i', f')"
    by (simp add: split_significant_def p i'_def f'_def)
  have ok: "sig_ok (i', f')"
    using trim_start_props [OF d(1)] trim_end_props [OF d(2)] by (simp add: sig_ok_def i'_def f'_def)
  obtain k where k: "length f = length f' + k" "digits_val f = digits_val f' * 10 ^ k"
    using trim_end_props(2) [OF d(2)] unfolding f'_def by blast
  have i: "digits_val i' = digits_val i"
    using trim_start_props(2) [OF d(1)] by (simp add: i'_def)
  have "digits_val (i @ f) = sig_val (i', f') * 10 ^ k"
    by (simp add: digits_val_append sig_val_def i k power_add algebra_simps)
  then show ?thesis
    using that [of k] ok k(1) by (simp add: nb sg dec_num_def p)
qed

lemma dec_cmp_scale:
  "dec_cmp (a * 10 ^ j, m + j) (b * 10 ^ k, n + k) = dec_cmp (a, m) (b, n)"
proof -
  have pos: "(0 :: int) < 10 ^ (j + k)" by simp
  have "a * 10 ^ j * 10 ^ (n + k) = (a * 10 ^ n) * 10 ^ (j + k)"
    "b * 10 ^ k * 10 ^ (m + j) = (b * 10 ^ m) * (10 ^ (j + k) :: int)"
    by (simp_all add: power_add)
  then show ?thesis
    unfolding dec_cmp_def fst_conv snd_conv using pos
    by (intro ord_cmp_mono) (simp_all only: mult_less_cancel_right_pos)
qed

lemma plain_not_special: "plain s \<Longrightarrow> numeric_special_rank s = None"
proof -
  have "\<not> plain ''NaN''" "\<not> plain ''Infinity''" "\<not> plain ''-Infinity''"
    by code_simp+
  then show "plain s \<Longrightarrow> numeric_special_rank s = None"
    by (auto simp: numeric_special_rank_def split: if_splits)
qed

lemma numeric_cmp_plain:
  assumes a: "plain a" and b: "plain b"
  shows "numeric_cmp a b = dec_cmp (dec_num a) (dec_num b)"
proof -
  obtain an body where sa: "split_sign a = (an, body)" by fastforce
  obtain bn body' where sb: "split_sign b = (bn, body')" by fastforce
  define ao bo where "ao = snd (num_sign a)" and "bo = snd (num_sign b)"
  have na: "num_sign a = (an, ao)" "drop ao a = body" and nb: "num_sign b = (bn, bo)" "drop bo b = body'"
    using split_sign_num_sign [of a] split_sign_num_sign [of b] sa sb
    by (simp_all add: ao_def bo_def prod_eq_iff)
  define p q where "p = split_significant body" and "q = split_significant body'"
  obtain j where p: "sig_ok p" and da: "dec_num a = ((if an then - 1 else 1) * sig_val p * 10 ^ j, length (snd p) + j)"
    using plain_sig [OF a] by (auto simp: sa p_def)
  obtain k where q: "sig_ok q" and db: "dec_num b = ((if bn then - 1 else 1) * sig_val q * 10 ^ k, length (snd q) + k)"
    using plain_sig [OF b] by (auto simp: sb q_def)
  define P Q where "P = (10 :: int) ^ length (snd p)" and "Q = (10 :: int) ^ length (snd q)"
  have PQ: "0 < P" "0 < Q" by (simp_all add: P_def Q_def)
  have val: "dec_cmp (dec_num a) (dec_num b)
      = ord_cmp ((if an then - 1 else 1) * sig_val p * Q) ((if bn then - 1 else 1) * sig_val q * P)"
    unfolding da db dec_cmp_scale by (simp add: dec_cmp_def P_def Q_def)
  define a0 b0 where "a0 = (an \<and> sig_val p \<noteq> 0)" and "b0 = (bn \<and> sig_val q \<noteq> 0)"
  have "numeric_cmp a b = (if a0 \<noteq> b0 then if a0 then Less else Greater
      else if a0 then ord_reverse (ord_cmp (sig_val p * Q) (sig_val q * P))
      else ord_cmp (sig_val p * Q) (sig_val q * P))"
    unfolding numeric_cmp_def plain_not_special [OF a] plain_not_special [OF b] Let_def
      a0_def b0_def sig_val_0_iff [OF p] sig_val_0_iff [OF q] P_def Q_def sig_cmp [OF p q, symmetric]
    by (simp only: na nb p_def [symmetric] q_def [symmetric] case_prod_beta option.case prod.case
        fst_conv snd_conv)
  also have "\<dots> = dec_cmp (dec_num a) (dec_num b)"
  proof -
    have pq: "0 \<le> sig_val p" "0 \<le> sig_val q"
      using p q sig_val_nonneg by auto
    have pos: "0 < sig_val p * Q \<longleftrightarrow> sig_val p \<noteq> 0" "0 < sig_val q * P \<longleftrightarrow> sig_val q \<noteq> 0"
      using pq PQ by (auto simp: zero_less_mult_iff)
    have nn: "0 \<le> sig_val p * Q" "0 \<le> sig_val q * P"
      using pq PQ by simp_all
    show ?thesis
      unfolding val using pos nn
      by (cases "sig_val p = 0"; cases "sig_val q = 0"; cases an; cases bn)
        (auto simp: a0_def b0_def ord_cmp_def)
  qed
  finally show ?thesis .
qed

section \<open>Lemmas: the canonical spelling\<close>

lemma split_point_simps:
  "CHR ''.'' \<notin> set i \<Longrightarrow> split_point (i @ CHR ''.'' # f) = (i, f)"
  "CHR ''.'' \<notin> set i \<Longrightarrow> split_point i = (i, [])"
proof -
  assume i: "CHR ''.'' \<notin> set i"
  then have "split_once {CHR ''.''} (i @ CHR ''.'' # f) = Some (i, f)" "split_once {CHR ''.''} i = None"
    by simp_all
  then show "split_point (i @ CHR ''.'' # f) = (i, f)" "split_point i = (i, [])"
    by (simp_all only: split_point_def option.case)
qed

lemma split_point_cases:
  assumes "split_point s = (i, f)"
  shows "s = i @ CHR ''.'' # f \<or> s = i \<and> f = []"
proof (cases "split_once {CHR ''.''} s")
  case None
  then show ?thesis using assms by (simp only: split_point_def option.case) simp
next
  case (Some p)
  then show ?thesis
    using assms split_once_SomeD [of "{CHR ''.''}" s i f] by (simp add: split_point_def)
qed

lemma split_sign_cases:
  assumes "split_sign s = (neg, body)"
  shows "s = body \<and> \<not> neg \<or> s = CHR ''+'' # body \<and> \<not> neg \<or> s = CHR ''-'' # body \<and> neg"
  using assms by (auto simp: split_sign_def strip_prefix_def split: list.splits if_splits)

lemma split_sign_simps:
  "split_sign (CHR ''-'' # s) = (True, s)"
  "is_ascii_digit c \<Longrightarrow> split_sign (c # s) = (False, c # s)"
  by (auto simp: split_sign_def strip_prefix_def)

text \<open>A numeral from its parts: sign, integer digits (\<open>0\<close> for none), fraction.\<close>

definition numeral_text :: "bool \<Rightarrow> string \<Rightarrow> string \<Rightarrow> string" where
  "numeral_text neg i f = (if neg then ''-'' else []) @ (if i = [] then ''0'' else i)
     @ (if f = [] then [] else CHR ''.'' # f)"

lemma numeral_text_parts:
  assumes "all_digits i" and "all_digits f"
  shows "split_sign (numeral_text neg i f) = (neg, numeral_text False i f)"
    "split_point (numeral_text False i f) = (if i = [] then ''0'' else i, f)"
proof -
  define j where "j = (if i = [] then ''0'' else i)"
  have j: "all_digits j" "j \<noteq> []" using assms by (simp_all add: j_def)
  then obtain c r where c: "j = c # r" "is_ascii_digit c" by (cases j) auto
  show "split_sign (numeral_text neg i f) = (neg, numeral_text False i f)"
    by (cases neg) (simp_all add: numeral_text_def c split_sign_simps flip: j_def)
  have "CHR ''.'' \<notin> set j"
    using digit_not_in [OF j(1)] by simp
  then show "split_point (numeral_text False i f) = (if i = [] then ''0'' else i, f)"
    using split_point_simps(1) [of j f] split_point_simps(2) [of j]
    by (simp add: numeral_text_def flip: j_def)
qed

lemma numeral_text_plain:
  assumes "all_digits i" and "all_digits f"
  shows "plain (numeral_text neg i f)"
    "dec_num (numeral_text neg i f) = ((if neg then - 1 else 1) * sig_val (i, f), length f)"
  using assms
  by (auto simp: plain_def dec_num_def numeral_text_parts sig_val_def digits_val_append
      digits_val_Cons)

lemma graphic_point_sign: "graphic CHR ''.''" "graphic CHR ''+''"
  by (simp_all add: graphic_def)

lemma plain_trim:
  assumes "plain s"
  shows "trim s = s" "s \<noteq> []"
proof -
  obtain neg body where nb: "split_sign s = (neg, body)" by fastforce
  obtain i f where p: "split_point body = (i, f)" by fastforce
  have d: "all_digits i" "all_digits f" "i @ f \<noteq> []"
    using assms by (simp_all add: plain_def nb p)
  have "\<forall>c\<in>set body. graphic c" "body \<noteq> []"
    using split_point_cases [OF p] d
    by (auto simp: all_digits_def list_all_iff graphic_digit graphic_point_sign)
  then have g: "\<forall>c\<in>set s. graphic c" and "s \<noteq> []"
    using split_sign_cases [OF nb] by (auto simp: graphic_point_sign)
  then show "s \<noteq> []" and "trim s = s"
    by (auto intro: trim_graphic)
qed

lemma canonical_numeric_plain:
  assumes "plain s"
  shows "canonical_numeric s =
    (let p = split_significant (snd (split_sign s))
     in numeral_text (fst (split_sign s) \<and> sig_val p \<noteq> 0) (fst p) (snd p))"
proof -
  obtain neg body where nb: "split_sign s = (neg, body)" by fastforce
  obtain i f where p: "split_point body = (i, f)" by fastforce
  have d: "all_digits i" "all_digits f" "i @ f \<noteq> []"
    using assms by (simp_all add: plain_def nb p)
  define i' f' where "i' = trim_start_matches CHR ''0'' i" and "f' = trim_end_matches CHR ''0'' f"
  have sg: "split_significant body = (i', f')"
    by (simp add: split_significant_def p i'_def f'_def)
  have ok: "sig_ok (i', f')"
    using plain_sig [OF assms] by (auto simp: nb sg)
  have body: "body \<noteq> []" "list_all (\<lambda>b. is_ascii_digit b \<or> b = CHR ''.'') body"
    using split_point_cases [OF p] d by (auto simp: all_digits_def list_all_iff)
  have z: "(if i' = [] then ''0'' else i') = ''0'' \<longleftrightarrow> i' = []"
    using ok by (auto simp: sig_ok_def no_leading_zero_def)
  have s0: "sig_val (i', f') = 0 \<longleftrightarrow> i' = [] \<and> f' = []"
    using sig_val_0_iff [OF ok] by simp
  show ?thesis
    unfolding canonical_numeric_def plain_trim(1) [OF assms] Let_def nb prod.case fst_conv snd_conv
      sg p i'_def [symmetric] f'_def [symmetric] z s0 numeral_text_def
    using body by auto
qed

text \<open>Two plain decimals have the same canonical spelling exactly when they are the same number.\<close>

lemma dec_cmp_Equal_iff: "dec_cmp (a, j) (b, k) = Equal \<longleftrightarrow> a * 10 ^ k = b * 10 ^ j"
  by (simp add: dec_cmp_def)

lemma canonical_value:
  assumes "plain s"
  shows "plain (canonical_numeric s)" "dec_cmp (dec_num (canonical_numeric s)) (dec_num s) = Equal"
proof -
  obtain neg body where nb: "split_sign s = (neg, body)" by fastforce
  define p where "p = split_significant body"
  obtain k where ok: "sig_ok p" and d: "dec_num s = ((if neg then - 1 else 1) * sig_val p * 10 ^ k, length (snd p) + k)"
    using plain_sig [OF assms] by (auto simp: nb p_def)
  have c: "canonical_numeric s = numeral_text (neg \<and> sig_val p \<noteq> 0) (fst p) (snd p)"
    using canonical_numeric_plain [OF assms] by (simp add: nb p_def Let_def)
  have dg: "all_digits (fst p)" "all_digits (snd p)"
    using ok by (simp_all add: sig_ok_def)
  show "plain (canonical_numeric s)"
    unfolding c by (rule numeral_text_plain(1) [OF dg])
  show "dec_cmp (dec_num (canonical_numeric s)) (dec_num s) = Equal"
    unfolding c numeral_text_plain(2) [OF dg] d dec_cmp_Equal_iff
    by (simp add: power_add)
qed

lemma str_cmp_Equal_iff: "str_cmp a b = Equal \<longleftrightarrow> a = b"
  by (simp add: str_cmp_def)

lemma canonical_numeric_eq_iff:
  assumes a: "plain a" and b: "plain b"
  shows "canonical_numeric a = canonical_numeric b \<longleftrightarrow> numeric_cmp a b = Equal"
proof
  assume "canonical_numeric a = canonical_numeric b"
  then have "dec_cmp (dec_num (canonical_numeric a)) (dec_num a) = Equal"
    "dec_cmp (dec_num (canonical_numeric a)) (dec_num b) = Equal"
    using canonical_value(2) [OF a] canonical_value(2) [OF b] by (simp_all only:)
  moreover have tr: "dec_cmp x z = Equal" if "dec_cmp y x = Equal" "dec_cmp y z = Equal" for x y z
  proof -
    obtain m i where x: "x = (m, i)" by fastforce
    obtain n j where y: "y = (n, j)" by fastforce
    obtain l k where z: "z = (l, k)" by fastforce
    note p = x y z
    have e: "n * 10 ^ i = m * 10 ^ j" "n * 10 ^ k = l * 10 ^ j"
      using that by (simp_all add: p dec_cmp_Equal_iff)
    have "(m * 10 ^ k) * 10 ^ j = (m * 10 ^ j) * 10 ^ k"
      by (simp only: ac_simps)
    also have "\<dots> = (n * 10 ^ k) * 10 ^ i"
      by (subst e(1) [symmetric]) (simp only: ac_simps)
    also have "\<dots> = (l * 10 ^ i) * 10 ^ j"
      by (subst e(2)) (simp only: ac_simps)
    finally have "(m * 10 ^ k) * 10 ^ j = (l * 10 ^ i) * 10 ^ j" .
    then show ?thesis
      by (simp add: p dec_cmp_Equal_iff)
  qed
  ultimately show "numeric_cmp a b = Equal"
    unfolding numeric_cmp_plain [OF a b] by blast
next
  assume eq: "numeric_cmp a b = Equal"
  obtain an body where sa: "split_sign a = (an, body)" by fastforce
  obtain bn body' where sb: "split_sign b = (bn, body')" by fastforce
  define p q where "p = split_significant body" and "q = split_significant body'"
  obtain j where p: "sig_ok p" and da: "dec_num a = ((if an then - 1 else 1) * sig_val p * 10 ^ j, length (snd p) + j)"
    using plain_sig [OF a] by (auto simp: sa p_def)
  obtain k where q: "sig_ok q" and db: "dec_num b = ((if bn then - 1 else 1) * sig_val q * 10 ^ k, length (snd q) + k)"
    using plain_sig [OF b] by (auto simp: sb q_def)
  define P Q where "P = (10 :: int) ^ length (snd p)" and "Q = (10 :: int) ^ length (snd q)"
  have pos: "0 < P" "0 < Q" "0 \<le> sig_val p" "0 \<le> sig_val q"
    using sig_val_nonneg p q by (simp_all add: P_def Q_def)
  have v: "(if an then - 1 else 1) * sig_val p * Q = (if bn then - 1 else 1) * sig_val q * P"
    using eq unfolding numeric_cmp_plain [OF a b] da db dec_cmp_scale dec_cmp_Equal_iff
    by (simp only: P_def Q_def)
  define A B where "A = sig_val p * Q" and "B = sig_val q * P"
  have AB: "0 \<le> A" "0 \<le> B" "sig_val p = 0 \<longleftrightarrow> A = 0" "sig_val q = 0 \<longleftrightarrow> B = 0"
    using pos by (simp_all add: A_def B_def)
  have "(if an then - A else A) = (if bn then - B else B)"
    using v by (cases an; cases bn) (simp_all add: A_def B_def)
  then have "A = B" and sgn: "(an \<and> sig_val p \<noteq> 0) = (bn \<and> sig_val q \<noteq> 0)"
    using AB by (cases an; cases bn; simp)+
  then have "ord_then (ord_cmp (length (fst p)) (length (fst q)))
      (ord_then (str_cmp (fst p) (fst q)) (str_cmp (snd p) (snd q))) = Equal"
    using sig_cmp [OF p q] by (simp add: A_def B_def P_def Q_def)
  then have "fst p = fst q" "snd p = snd q"
    by (auto simp: ord_then_def str_cmp_Equal_iff split: if_splits)
  then show "canonical_numeric a = canonical_numeric b"
    unfolding canonical_numeric_plain [OF a] canonical_numeric_plain [OF b] sa sb Let_def
      fst_conv snd_conv p_def [symmetric] q_def [symmetric] sgn
    by simp
qed

section \<open>Lemmas: the literal parser\<close>

lemma saturating_id: "in_i64 x \<Longrightarrow> saturating_i64 x = x"
  by (simp add: saturating_i64_def in_i64_def)

lemma saturating_bounds:
  "k < 2 ^ 63 - 1 \<Longrightarrow> saturating_i64 x \<le> k \<Longrightarrow> x \<le> k"
  "- (2 ^ 63) < k \<Longrightarrow> k \<le> saturating_i64 x \<Longrightarrow> k \<le> x"
  by (auto simp: saturating_i64_def)

text \<open>Moving the point keeps the digits and multiplies by a power of ten.\<close>

lemma place_point_parts:
  assumes "all_digits ds"
  obtains ip fp where "split_point (place_point ds p) = (ip, fp)" "all_digits ip" "all_digits fp"
    "ip \<noteq> []" "int (length fp) = max 0 (int (length ds) - p)" "int (length ip) = max 1 p"
    "digits_val (ip @ fp) = digits_val ds * 10 ^ nat (p - int (length ds))"
proof -
  have dot: "CHR ''.'' \<notin> set ds"
    using digit_not_in [OF assms] by simp
  consider (neg) "p \<le> 0" | (long) "0 < p" "length ds \<le> nat p" | (mid) "0 < p" "nat p < length ds"
    by linarith
  then show ?thesis
  proof cases
    case neg
    then have "place_point ds p = ''0'' @ CHR ''.'' # (replicate (nat (- p)) CHR ''0'' @ ds)"
      by (simp add: place_point_def)
    then have "split_point (place_point ds p) = (''0'', replicate (nat (- p)) CHR ''0'' @ ds)"
      using split_point_simps(1) [of "''0''"] by simp
    then show ?thesis
      using that [of "''0''" "replicate (nat (- p)) CHR ''0'' @ ds"] neg assms
      by (simp add: digits_val_append digits_val_Cons)
  next
    case long
    define z where "z = replicate (nat p - length ds) CHR ''0''"
    have pp: "place_point ds p = ds @ z"
      using long by (simp add: place_point_def z_def)
    have "CHR ''.'' \<notin> set (ds @ z)"
      using dot by (simp add: z_def)
    then have sp: "split_point (place_point ds p) = (ds @ z, [])"
      unfolding pp by (rule split_point_simps(2))
    have "nat (p - int (length ds)) = nat p - length ds"
      using long by simp
    then show ?thesis
      using that [OF sp] long assms by (simp add: digits_val_append z_def)
  next
    case mid
    have pp: "place_point ds p = take (nat p) ds @ CHR ''.'' # drop (nat p) ds"
      using mid by (simp add: place_point_def)
    have "CHR ''.'' \<notin> set (take (nat p) ds)"
      using dot by (meson in_set_takeD)
    then have sp: "split_point (place_point ds p) = (take (nat p) ds, drop (nat p) ds)"
      unfolding pp by (rule split_point_simps(1))
    have dg: "all_digits (take (nat p) ds)" "all_digits (drop (nat p) ds)"
      using assms all_digits_simps(3) [of "take (nat p) ds" "drop (nat p) ds"] by simp_all
    have "nat (p - int (length ds)) = 0" "ds \<noteq> []"
      using mid by auto
    then show ?thesis
      using that [OF sp dg] mid by simp
  qed
qed

text \<open>What the parser has established when it returns a finite numeral.\<close>

definition parsed :: "string \<Rightarrow> bool \<Rightarrow> string \<Rightarrow> string \<Rightarrow> int \<Rightarrow> int \<Rightarrow> bool" where
  "parsed s neg i f e p \<longleftrightarrow>
    (\<exists>body m. split_sign (trim s) = (neg, body) \<and> split_exponent body = Some (m, e) \<and> split_point m = (i, f))
    \<and> i @ f \<noteq> [] \<and> all_digits (i @ f) \<and> p = saturating_i64 (int (length i) + e)
    \<and> p \<le> NUMERIC_MAX_WEIGHT \<and> saturating_i64 (int (length (i @ f)) - p) \<le> NUMERIC_MAX_SCALE"

definition finish_numeral :: "bool \<Rightarrow> string \<times> string \<Rightarrow> string" where
  "finish_numeral neg ipfp = (let ip = trim_start_matches CHR ''0'' (fst ipfp); fp = snd ipfp
     in numeral_text (neg \<and> \<not> (ip = [] \<and> list_all (\<lambda>b. b = CHR ''0'') fp)) ip fp)"

lemma finish_numeral_eq:
  assumes "all_digits ip"
  shows "(let ip = trim_start_matches CHR ''0'' ip; ip = (if ip = [] then ''0'' else ip)
      in (if neg \<and> \<not> (ip = ''0'' \<and> list_all (\<lambda>b. b = CHR ''0'') fp) then ''-'' else [])
        @ ip @ (if fp = [] then [] else CHR ''.'' # fp)) = finish_numeral neg (ip, fp)"
proof -
  define j where "j = trim_start_matches CHR ''0'' ip"
  have "no_leading_zero j"
    using trim_start_props(3) [OF assms] by (simp add: j_def)
  then have "(if j = [] then ''0'' else j) = ''0'' \<longleftrightarrow> j = []"
    by (auto simp: no_leading_zero_def)
  then show ?thesis
    unfolding finish_numeral_def Let_def numeral_text_def fst_conv snd_conv j_def [symmetric] by simp
qed

lemma parse_numeric_iff:
  "parse_numeric s = Some t \<longleftrightarrow>
    (let t0 = trim s; (neg, body) = split_sign t0
     in t0 \<noteq> [] \<and>
        (if eq_ignore_ascii_case body ''nan'' then t = ''NaN''
         else if eq_ignore_ascii_case body ''infinity'' \<or> eq_ignore_ascii_case body ''inf''
           then t = (if neg then ''-Infinity'' else ''Infinity'')
         else \<exists>i f e p. parsed s neg i f e p
           \<and> t = finish_numeral neg (split_point (place_point (i @ f) p))))"
proof -
  obtain neg body where nb: "split_sign (trim s) = (neg, body)" by fastforce
  define rest where "rest = (case split_exponent body of None \<Rightarrow> None
    | Some (mantissa, exp) \<Rightarrow>
        let (int_part, frac_part) = split_point mantissa
        in if int_part = [] \<and> frac_part = [] then None
           else if \<not> all_digits (int_part @ frac_part) then None
           else let digits = int_part @ frac_part;
                    point = saturating_i64 (int (length int_part) + exp)
           in if point > NUMERIC_MAX_WEIGHT
                 \<or> saturating_i64 (int (length digits) - point) > NUMERIC_MAX_SCALE then None
              else let (ip, fp) = split_point (place_point digits point);
                       ip = trim_start_matches CHR ''0'' ip;
                       ip = (if ip = [] then ''0'' else ip)
                   in Some ((if neg \<and> \<not> (ip = ''0'' \<and> list_all (\<lambda>b. b = CHR ''0'') fp) then ''-'' else [])
                            @ ip @ (if fp = [] then [] else CHR ''.'' # fp)))"
  have "rest = Some t \<longleftrightarrow> (\<exists>i f e p. parsed s neg i f e p
      \<and> t = finish_numeral neg (split_point (place_point (i @ f) p)))"
  proof (cases "split_exponent body")
    case None
    then show ?thesis by (simp add: rest_def parsed_def nb)
  next
    case (Some me)
    obtain m e where me: "split_exponent body = Some (m, e)"
      using Some by (cases me) simp
    obtain i f where p: "split_point m = (i, f)" by fastforce
    have pd: "parsed s neg i' f' e' p' \<longleftrightarrow> i' = i \<and> f' = f \<and> e' = e \<and> i @ f \<noteq> [] \<and> all_digits (i @ f)
        \<and> p' = saturating_i64 (int (length i) + e) \<and> p' \<le> NUMERIC_MAX_WEIGHT
        \<and> saturating_i64 (int (length (i @ f)) - p') \<le> NUMERIC_MAX_SCALE" for i' f' e' p'
      using me p nb by (auto simp: parsed_def)
    define q where "q = saturating_i64 (int (length i) + e)"
    show ?thesis
    proof (cases "all_digits (i @ f)")
      case False
      then show ?thesis by (auto simp: rest_def me p pd)
    next
      case True
      obtain ip fp where pp: "split_point (place_point (i @ f) q) = (ip, fp)" and ip: "all_digits ip"
        using place_point_parts [OF True, of q] by metis
      have "rest = (if i = [] \<and> f = [] then None
          else if q > NUMERIC_MAX_WEIGHT \<or> saturating_i64 (int (length (i @ f)) - q) > NUMERIC_MAX_SCALE
            then None else Some (finish_numeral neg (ip, fp)))"
        unfolding rest_def me option.case prod.case p Let_def q_def [symmetric] pp
        using True finish_numeral_eq [OF ip, of neg fp] by (simp add: Let_def)
      then show ?thesis
        using True pp by (auto simp: pd q_def [symmetric])
    qed
  qed
  then show ?thesis
    unfolding parse_numeric_def Let_def nb prod.case rest_def [symmetric, unfolded Let_def]
    by auto
qed

lemma zero_digits: "list_all (\<lambda>b. b = CHR ''0'') fp \<Longrightarrow> digits_val fp = 0"
  by (induction fp) (auto simp: digits_val_Cons)

lemma finish_numeral_value:
  assumes "all_digits ip" "all_digits fp"
  shows "plain (finish_numeral neg (ip, fp))"
    "dec_num (finish_numeral neg (ip, fp)) = ((if neg then - 1 else 1) * digits_val (ip @ fp), length fp)"
proof -
  define j where "j = trim_start_matches CHR ''0'' ip"
  have j: "all_digits j" "digits_val j = digits_val ip"
    using trim_start_props [OF assms(1)] by (simp_all add: j_def)
  have z: "sig_val (j, fp) = 0" if "j = []" "list_all (\<lambda>b. b = CHR ''0'') fp"
    using that zero_digits by (simp add: sig_val_def)
  have t: "finish_numeral neg (ip, fp)
      = numeral_text (neg \<and> \<not> (j = [] \<and> list_all (\<lambda>b. b = CHR ''0'') fp)) j fp"
    by (simp add: finish_numeral_def j_def Let_def)
  show "plain (finish_numeral neg (ip, fp))"
    unfolding t by (rule numeral_text_plain(1) [OF j(1) assms(2)])
  have "sig_val (j, fp) = digits_val (ip @ fp)"
    by (simp add: sig_val_def j digits_val_append)
  then show "dec_num (finish_numeral neg (ip, fp))
      = ((if neg then - 1 else 1) * digits_val (ip @ fp), length fp)"
    unfolding t numeral_text_plain(2) [OF j(1) assms(2)] using z by auto
qed

lemma parsed_point:
  assumes "parsed s neg i f e p"
  shows "p = int (length i) + e" "p \<le> 131072" "int (length (i @ f)) - p \<le> 16383"
    "all_digits (i @ f)" "i @ f \<noteq> []"
proof -
  have b: "p \<le> 131072" "saturating_i64 (int (length (i @ f)) - p) \<le> 16383"
    and p: "p = saturating_i64 (int (length i) + e)"
    using assms unfolding parsed_def NUMERIC_MAX_WEIGHT_def NUMERIC_MAX_SCALE_def by blast+
  show "p \<le> 131072" "all_digits (i @ f)" "i @ f \<noteq> []"
    using assms by (simp_all add: parsed_def NUMERIC_MAX_WEIGHT_def)
  show sc: "int (length (i @ f)) - p \<le> 16383"
    using saturating_bounds(1) [OF _ b(2)] by simp
  have "- 16383 \<le> p" using sc by simp
  then show "p = int (length i) + e"
    using p b(1) by (auto simp: saturating_i64_def max_def min_def split: if_splits)
qed

lemma parsed_value:
  assumes "parsed s neg i f e p"
  defines "t \<equiv> finish_numeral neg (split_point (place_point (i @ f) p))"
  shows "plain t" "dec_cmp (dec_num t)
    ((if neg then - 1 else 1) * digits_val (i @ f) * 10 ^ nat e, length f + nat (- e)) = Equal"
proof -
  note q = parsed_point [OF assms(1)]
  obtain ip fp where pp: "split_point (place_point (i @ f) p) = (ip, fp)" "all_digits ip" "all_digits fp"
    "ip \<noteq> []" "int (length fp) = max 0 (int (length (i @ f)) - p)" "int (length ip) = max 1 p"
    "digits_val (ip @ fp) = digits_val (i @ f) * 10 ^ nat (p - int (length (i @ f)))"
    using place_point_parts [OF q(4)] by metis
  show "plain t"
    unfolding t_def pp(1) by (rule finish_numeral_value(1) [OF pp(2,3)])
  have ex: "nat (p - int (length (i @ f))) + (length f + nat (- e)) = nat e + length fp"
    using pp(5) q(1) by simp
  show "dec_cmp (dec_num t)
      ((if neg then - 1 else 1) * digits_val (i @ f) * 10 ^ nat e, length f + nat (- e)) = Equal"
    unfolding t_def pp(1) finish_numeral_value(2) [OF pp(2,3)] dec_cmp_Equal_iff pp(7)
      mult.assoc power_add [symmetric] ex by (rule refl)
qed

lemma digit_lower: "is_ascii_digit c \<Longrightarrow> ascii_lower c = c"
  by (simp add: ascii_lower_def is_ascii_digit_def is_ascii_uppercase_def)

lemma digit_not_word:
  assumes "is_ascii_digit c"
  shows "\<not> eq_ignore_ascii_case (c # r) ''nan''" "\<not> eq_ignore_ascii_case (c # r) ''infinity''"
    "\<not> eq_ignore_ascii_case (c # r) ''inf''"
proof -
  have "c \<noteq> CHR ''n''" "c \<noteq> CHR ''i''"
    using assms by (auto simp: is_ascii_digit_def)
  then show "\<not> eq_ignore_ascii_case (c # r) ''nan''" "\<not> eq_ignore_ascii_case (c # r) ''infinity''"
    "\<not> eq_ignore_ascii_case (c # r) ''inf''"
    using digit_lower [OF assms]
    by (simp_all add: eq_ignore_ascii_case_def to_ascii_lowercase_def ascii_lower_def
        is_ascii_uppercase_def)
qed

lemma find_pos_None: "list_all (\<lambda>c. \<not> P c) s \<Longrightarrow> find_pos P s = None"
  by (induction s) auto

lemma numeral_no_exponent:
  assumes "all_digits i" "all_digits f"
  shows "split_exponent (numeral_text False i f) = Some (numeral_text False i f, 0)"
proof -
  have d: "is_ascii_digit c \<Longrightarrow> c \<noteq> CHR ''e'' \<and> c \<noteq> CHR ''E''" for c
    by (auto simp: is_ascii_digit_def)
  have "list_all (\<lambda>c. \<not> (c = CHR ''e'' \<or> c = CHR ''E'')) (numeral_text False i f)"
    using assms d by (auto simp: numeral_text_def list_all_iff all_digits_def)
  then show ?thesis
    using find_pos_None [of "\<lambda>c. c = CHR ''e'' \<or> c = CHR ''E''"] by (simp add: split_exponent_def)
qed

lemma trim_start_id: "no_leading_zero j \<Longrightarrow> trim_start_matches CHR ''0'' j = j"
  by (cases j) (auto simp: no_leading_zero_def trim_start_matches_def)

lemma place_point_own:
  assumes "all_digits j" "j \<noteq> []"
  shows "split_point (place_point (j @ f) (int (length j))) = (j, f)"
proof -
  have dot: "CHR ''.'' \<notin> set j"
    using digit_not_in [OF assms(1)] by simp
  show ?thesis
  proof (cases "f = []")
    case True
    then have "place_point (j @ f) (int (length j)) = j"
      using assms(2) by (simp add: place_point_def)
    then show ?thesis
      using True split_point_simps(2) [OF dot] by simp
  next
    case False
    then have "place_point (j @ f) (int (length j)) = j @ CHR ''.'' # f"
      using assms(2) by (simp add: place_point_def)
    then show ?thesis
      using split_point_simps(1) [OF dot] by simp
  qed
qed

lemma parse_numeral_text:
  assumes i: "all_digits i" "no_leading_zero i" "length i \<le> 131072" and f: "all_digits f" "length f \<le> 16383"
    and neg: "neg \<Longrightarrow> \<not> (i = [] \<and> list_all (\<lambda>b. b = CHR ''0'') f)"
  shows "parse_numeric (numeral_text neg i f) = Some (numeral_text neg i f)"
proof -
  define t body where "t = numeral_text neg i f" and "body = numeral_text False i f"
  define j where "j = (if i = [] then ''0'' else i)"
  have j: "all_digits j" "j \<noteq> []" "length j \<le> 131072" "trim_start_matches CHR ''0'' j = i"
    using i trim_start_id [OF i(2)] by (auto simp: j_def trim_start_matches_def)
  have ss: "split_sign t = (neg, body)" and sp: "split_point body = (j, f)"
    using numeral_text_parts [OF i(1) f(1)] by (simp_all add: t_def body_def j_def)
  have tr: "trim t = t" "t \<noteq> []"
    using plain_trim numeral_text_plain(1) [OF i(1) f(1)] by (simp_all add: t_def)
  obtain c r where c: "body = c # r" "is_ascii_digit c"
    using j(1,2) by (cases j) (auto simp: body_def numeral_text_def j_def split: if_splits)
  have se: "split_exponent body = Some (body, 0)"
    using numeral_no_exponent [OF i(1) f(1)] by (simp add: body_def)
  have "parsed t neg j f 0 (int (length j))"
    unfolding parsed_def tr ss using se sp j f
    by (simp add: saturating_id in_i64_def NUMERIC_MAX_WEIGHT_def NUMERIC_MAX_SCALE_def)
  moreover have "t = finish_numeral neg (split_point (place_point (j @ f) (int (length j))))"
    unfolding place_point_own [OF j(1,2)] finish_numeral_def Let_def fst_conv snd_conv j(4)
    using neg by (cases neg) (simp_all add: t_def)
  ultimately have "\<exists>i f e p. parsed t neg i f e p \<and> t = finish_numeral neg (split_point (place_point (i @ f) p))"
    by blast
  then have "parse_numeric t = Some t"
    unfolding parse_numeric_iff tr(1) ss Let_def prod.case using tr(2) c digit_not_word by simp
  then show ?thesis
    by (simp add: t_def)
qed

lemma length_trim_start: "length (trim_start_matches c s) \<le> length s"
  by (simp add: trim_start_matches_def length_dropWhile_le)

lemma parse_numeric_special:
  assumes "t \<in> {''NaN'', ''Infinity'', ''-Infinity''}"
  shows "parse_numeric t = Some t"
proof -
  have "trim t = t"
    using assms by (intro trim_graphic) (auto simp: graphic_def)
  moreover have "to_ascii_lowercase ''NaN'' = ''nan''" "to_ascii_lowercase ''Infinity'' = ''infinity''"
    "to_ascii_lowercase ''nan'' = ''nan''" "to_ascii_lowercase ''infinity'' = ''infinity''"
    by code_simp+
  ultimately show ?thesis
    using assms
    by (auto simp: parse_numeric_def split_sign_def strip_prefix_def eq_ignore_ascii_case_def)
qed

lemma parse_numeric_idem:
  assumes "parse_numeric s = Some t"
  shows "parse_numeric t = Some t"
proof -
  obtain neg body where nb: "split_sign (trim s) = (neg, body)" by fastforce
  consider "t \<in> {''NaN'', ''Infinity'', ''-Infinity''}"
    | (fin) i f e p where "parsed s neg i f e p" "t = finish_numeral neg (split_point (place_point (i @ f) p))"
    using assms unfolding parse_numeric_iff Let_def nb prod.case by (auto split: if_splits)
  then show ?thesis
  proof cases
    case 1
    then show ?thesis by (rule parse_numeric_special)
  next
    case fin
    note q = parsed_point [OF fin(1)]
    obtain ip fp where pp: "split_point (place_point (i @ f) p) = (ip, fp)" "all_digits ip" "all_digits fp"
      "int (length fp) = max 0 (int (length (i @ f)) - p)" "int (length ip) = max 1 p"
      using place_point_parts [OF q(4)] by metis
    have "length ip \<le> 131072" "length fp \<le> 16383"
      using pp(4,5) q(2,3) by simp_all
    then show ?thesis
      unfolding fin(2) pp(1) finish_numeral_def Let_def fst_conv snd_conv
      using trim_start_props [OF pp(2)] pp(3) length_trim_start [of "CHR ''0''" ip]
      by (intro parse_numeral_text) simp_all
  qed
qed

section \<open>Lemmas: mantissa and scale\<close>

lemma show_int_text: "show_int m = (if m < 0 then CHR ''-'' # show_uint (- m) else show_uint m)"
  by (simp add: show_int_def)

text \<open>\<open>decimal_text\<close> prints the sign, then the digits padded to put one before the point.\<close>

lemma decimal_text_shape:
  obtains ip fp where "decimal_text m k = (if m < 0 then ''-'' else []) @ ip @ (if k = 0 then [] else CHR ''.'' # fp)"
    "all_digits ip" "all_digits fp" "ip \<noteq> []" "length fp = k" "digits_val (ip @ fp) = \<bar>m\<bar>"
proof (cases "k = 0")
  case True
  then show ?thesis
    using that [of "show_uint \<bar>m\<bar>" "[]"] by (auto simp: decimal_text_def show_int_text)
next
  case False
  define d where "d = show_uint \<bar>m\<bar>"
  define p where "p = (if length d \<le> k then replicate (k + 1 - length d) CHR ''0'' @ d else d)"
  define ip fp where "ip = take (length p - k) p" and "fp = drop (length p - k) p"
  have d: "all_digits d" "digits_val d = \<bar>m\<bar>" "d \<noteq> []"
    by (simp_all add: d_def)
  have p: "all_digits p" "digits_val p = \<bar>m\<bar>" "k < length p"
    using d by (auto simp: p_def digits_val_append)
  have pf: "ip @ fp = p"
    by (simp add: ip_def fp_def)
  have "all_digits ip" "all_digits fp"
    using p(1) by (simp_all flip: pf)
  moreover have "ip \<noteq> []" "length fp = k"
    using p(3) by (auto simp: ip_def fp_def)
  moreover have "decimal_text m k = (if m < 0 then ''-'' else []) @ ip @ CHR ''.'' # fp"
    using False by (simp add: decimal_text_def Let_def ip_def fp_def p_def d_def)
  ultimately show ?thesis
    using that [of ip fp] False p(2) by (simp add: pf)
qed

lemma parse_i128_digits:
  "all_digits s \<Longrightarrow> s \<noteq> [] \<Longrightarrow>
    parse_i128 s = (if digits_val s < 2 ^ 127 then Some (digits_val s) else None)"
  using digits_val_less [of s] by (cases s) (auto simp: parse_i128_def parse_int_def)

lemma decimal_parts_decimal_text:
  assumes "\<bar>m\<bar> < 2 ^ 127" and "k < 2 ^ 32"
  shows "decimal_parts (decimal_text m k) = Some (m, k)"
proof -
  obtain ip fp where t: "decimal_text m k = (if m < 0 then ''-'' else []) @ ip @ (if k = 0 then [] else CHR ''.'' # fp)"
    and d: "all_digits ip" "all_digits fp" "ip \<noteq> []" "length fp = k" "digits_val (ip @ fp) = \<bar>m\<bar>"
    by (rule decimal_text_shape)
  have tx: "decimal_text m k = numeral_text (m < 0) ip fp"
    using d(3,4) by (auto simp: t numeral_text_def)
  have pl: "plain (numeral_text (m < 0) ip fp)"
    by (rule numeral_text_plain(1) [OF d(1,2)])
  have "parse_i128 (ip @ fp) = Some \<bar>m\<bar>"
    using parse_i128_digits [of "ip @ fp"] d assms(1) by simp
  then show ?thesis
    unfolding decimal_parts_def tx plain_trim(1) [OF pl] plain_not_special [OF pl]
      numeral_text_parts(1) [OF d(1,2)] Let_def prod.case numeral_text_parts(2) [OF d(1,2)]
    using d assms(2) by auto
qed

section \<open>Properties\<close>

text \<open>
  C20: \<open>numeric_cmp\<close> compares by value: on any two plain decimals, whatever their leading and
  trailing zeros, signs and scales, it answers as the comparison of the numbers they denote.
\<close>

theorem numeric_cmp_by_value:
  assumes "plain a" and "plain b"
  shows "numeric_cmp a b = dec_cmp (dec_num a) (dec_num b)"
  using assms by (rule numeric_cmp_plain)

theorem numeric_cmp_by_value_witness:
  "numeric_cmp ''-0.50'' ''+00.499'' = Less \<and> numeric_cmp ''1.0'' ''01.00'' = Equal"
proof -
  have "plain ''-0.50''" "plain ''+00.499''" "plain ''1.0''" "plain ''01.00''"
    "dec_cmp (dec_num ''-0.50'') (dec_num ''+00.499'') = Less"
    "dec_cmp (dec_num ''1.0'') (dec_num ''01.00'') = Equal"
    by code_simp+
  then show ?thesis
    using numeric_cmp_by_value [of "''-0.50''" "''+00.499''"] numeric_cmp_by_value [of "''1.0''" "''01.00''"]
    by simp
qed

text \<open>
  C21: the canonical spelling is a normal form for that comparison: two plain decimals get the same
  \<open>canonical_numeric\<close> text exactly when \<open>numeric_cmp\<close> calls them equal, so grouping by the text and
  comparing by value cannot disagree.
\<close>

theorem canonical_numeric_normal_form:
  assumes "plain a" and "plain b"
  shows "canonical_numeric a = canonical_numeric b \<longleftrightarrow> numeric_cmp a b = Equal"
  using assms by (rule canonical_numeric_eq_iff)

theorem canonical_numeric_normal_form_witness:
  "canonical_numeric ''-00.500'' = canonical_numeric ''-.5'' \<longleftrightarrow> numeric_cmp ''-00.500'' ''-.5'' = Equal"
proof -
  have "plain ''-00.500''" "plain ''-.5''"
    by code_simp+
  then show ?thesis
    using canonical_numeric_normal_form by blast
qed

text \<open>
  C22: what \<open>parse_numeric\<close> accepts it stores exactly. The text returned for a finite literal is a
  plain decimal whose value is the mantissa times the power of ten of the exponent, parsing it
  again changes nothing, and it stays inside the limits on digits before and after the point.
\<close>

theorem parse_numeric_exact:
  assumes "parse_numeric s = Some t" and "split_sign (trim s) = (neg, body)"
    and "split_exponent body = Some (m, e)" and "split_point m = (i, f)"
    and "numeric_special_rank t = None"
  shows "plain t \<and> parse_numeric t = Some t
    \<and> dec_cmp (dec_num t) ((if neg then - 1 else 1) * digits_val (i @ f) * 10 ^ nat e, length f + nat (- e)) = Equal
    \<and> int (snd (dec_num t)) \<le> NUMERIC_MAX_SCALE"
proof -
  have "t \<noteq> ''NaN''" "t \<noteq> ''Infinity''" "t \<noteq> ''-Infinity''"
    using assms(5) by (auto simp: numeric_special_rank_def)
  then obtain i' f' e' p where p: "parsed s neg i' f' e' p"
    and t: "t = finish_numeral neg (split_point (place_point (i' @ f') p))"
    using assms(1) unfolding parse_numeric_iff Let_def assms(2) prod.case
    by (auto split: if_splits)
  have same: "i' = i" "f' = f" "e' = e"
    using p assms(2-4) by (auto simp: parsed_def)
  note q = parsed_point [OF p]
  obtain ip fp where pp: "split_point (place_point (i' @ f') p) = (ip, fp)" "all_digits ip" "all_digits fp"
    "int (length fp) = max 0 (int (length (i' @ f')) - p)"
    using place_point_parts [OF q(4)] by metis
  have "int (snd (dec_num t)) \<le> NUMERIC_MAX_SCALE"
    unfolding t pp(1) finish_numeral_value(2) [OF pp(2,3)] using pp(4) q(3)
    by (simp add: NUMERIC_MAX_SCALE_def)
  then show ?thesis
    using parsed_value [OF p] parse_numeric_idem [OF assms(1)] unfolding t same by blast
qed

theorem parse_numeric_exact_witness:
  "parse_numeric ''-1.5e2'' = Some ''-150'' \<and> plain ''-150'' \<and> parse_numeric ''-150'' = Some ''-150''"
proof -
  have tr: "trim ''-1.5e2'' = ''-1.5e2''"
    by (rule trim_graphic) (simp_all add: graphic_def)
  have ss: "split_sign ''-1.5e2'' = (True, ''1.5e2'')" "split_exponent ''1.5e2'' = Some (''1.5'', 2)"
    "split_point ''1.5'' = (''1'', ''5'')" "numeric_special_rank ''-150'' = None"
    "\<not> eq_ignore_ascii_case ''1.5e2'' ''nan''" "\<not> eq_ignore_ascii_case ''1.5e2'' ''infinity''"
    "\<not> eq_ignore_ascii_case ''1.5e2'' ''inf''" "all_digits (''1'' @ ''5'')" "place_point (''1'' @ ''5'') 3 = ''150''"
    "split_point ''150'' = (''150'', [])" "trim_start_matches CHR ''0'' ''150'' = ''150''"
    by code_simp+
  have "parse_numeric ''-1.5e2'' = Some ''-150''"
    unfolding parse_numeric_def tr Let_def ss prod.case
    by (simp add: ss [simplified] saturating_i64_def NUMERIC_MAX_WEIGHT_def NUMERIC_MAX_SCALE_def)
  then show ?thesis
    using parse_numeric_exact [of "''-1.5e2''" "''-150''", OF _ _ ss(2,3,4)] tr ss(1) by auto
qed

text \<open>
  C23: the mantissa/scale form and the text form are inverse: \<open>decimal_parts\<close> recovers the mantissa
  and the scale that \<open>decimal_text\<close> printed, for every mantissa of less than 128 bits with sign.
\<close>

theorem decimal_text_round_trip:
  assumes "\<bar>m\<bar> < 2 ^ 127" and "k < 2 ^ 32"
  shows "decimal_parts (decimal_text m k) = Some (m, k)"
  using assms by (rule decimal_parts_decimal_text)

theorem decimal_text_round_trip_witness:
  "decimal_text (- 5) 2 = ''-0.05'' \<and> decimal_parts (decimal_text (- 5) 2) = Some (- 5, 2)"
proof -
  have "decimal_text (- 5) 2 = ''-0.05''"
    by code_simp
  then show ?thesis
    using decimal_text_round_trip [of "- 5" 2] by simp
qed

end
