(* ===== verification/Sql_Value.thy ===== *)
theory Sql_Value
  imports Float64 Decimal "HOL-Library.Sublist" "HOL-Library.Product_Lexorder"
begin

unbundle bit_operations_syntax

text \<open>
  The value layer of \<open>mpedb-types/src/value.rs\<close>: column types and type affinities with their names
  and tags, SQL values, the two comparisons (\<open>sql_cmp\<close>, which refuses a cross-class pair, and
  \<open>sort_cmp\<close>, sqlite's storage-class order) and the collating sequences.
\<close>

section \<open>Column types\<close>

datatype ColumnType = Int64T | Float64T | BoolT | TextT | BlobT | TimestampT | AnyT | DateT | TimeT | NumericT

fun type_tag :: "ColumnType \<Rightarrow> byte" where
  "type_tag Int64T = 1"
| "type_tag Float64T = 2"
| "type_tag BoolT = 3"
| "type_tag TextT = 4"
| "type_tag BlobT = 5"
| "type_tag TimestampT = 6"
| "type_tag AnyT = 7"
| "type_tag DateT = 8"
| "type_tag TimeT = 9"
| "type_tag NumericT = 10"

definition type_from_tag :: "byte \<Rightarrow> ColumnType option" where
  "type_from_tag tag =
    (if tag = 1 then Some Int64T else if tag = 2 then Some Float64T else if tag = 3 then Some BoolT
     else if tag = 4 then Some TextT else if tag = 5 then Some BlobT
     else if tag = 6 then Some TimestampT else if tag = 7 then Some AnyT
     else if tag = 8 then Some DateT else if tag = 9 then Some TimeT
     else if tag = 10 then Some NumericT else None)"

definition type_parse :: "string \<Rightarrow> ColumnType option" where
  "type_parse name =
    (if name \<in> {''int64'', ''int'', ''integer''} then Some Int64T
     else if name \<in> {''float64'', ''float'', ''real'', ''double''} then Some Float64T
     else if name \<in> {''bool'', ''boolean''} then Some BoolT
     else if name \<in> {''text'', ''string''} then Some TextT
     else if name \<in> {''blob'', ''bytes''} then Some BlobT
     else if name = ''timestamp'' then Some TimestampT
     else if name = ''any'' then Some AnyT
     else if name = ''date'' then Some DateT
     else if name = ''time'' then Some TimeT
     else if name \<in> {''numeric'', ''decimal''} then Some NumericT
     else None)"

fun type_name :: "ColumnType \<Rightarrow> string" where
  "type_name Int64T = ''int64''"
| "type_name Float64T = ''float64''"
| "type_name BoolT = ''bool''"
| "type_name TextT = ''text''"
| "type_name BlobT = ''blob''"
| "type_name TimestampT = ''timestamp''"
| "type_name AnyT = ''any''"
| "type_name DateT = ''date''"
| "type_name TimeT = ''time''"
| "type_name NumericT = ''numeric''"

fun decltype_name :: "ColumnType \<Rightarrow> string option" where
  "decltype_name Int64T = Some ''INTEGER''"
| "decltype_name Float64T = Some ''REAL''"
| "decltype_name BoolT = Some ''BOOLEAN''"
| "decltype_name TextT = Some ''TEXT''"
| "decltype_name BlobT = Some ''BLOB''"
| "decltype_name TimestampT = Some ''TIMESTAMP''"
| "decltype_name DateT = Some ''DATE''"
| "decltype_name TimeT = Some ''TIME''"
| "decltype_name NumericT = Some ''NUMERIC''"
| "decltype_name AnyT = None"

section \<open>Affinities\<close>

datatype Affinity = AInteger | AReal | AText | ABlob | ANumeric

fun affinity_tag :: "Affinity \<Rightarrow> byte" where
  "affinity_tag AInteger = 1"
| "affinity_tag AReal = 2"
| "affinity_tag AText = 3"
| "affinity_tag ABlob = 4"
| "affinity_tag ANumeric = 5"

definition affinity_from_tag :: "byte \<Rightarrow> Affinity option" where
  "affinity_from_tag tag =
    (if tag = 1 then Some AInteger else if tag = 2 then Some AReal else if tag = 3 then Some AText
     else if tag = 4 then Some ABlob else if tag = 5 then Some ANumeric else None)"

fun affinity_name :: "Affinity \<Rightarrow> string" where
  "affinity_name AInteger = ''INTEGER''"
| "affinity_name AReal = ''REAL''"
| "affinity_name AText = ''TEXT''"
| "affinity_name ABlob = ''BLOB''"
| "affinity_name ANumeric = ''NUMERIC''"

definition byte_lower :: "byte \<Rightarrow> byte" where
  "byte_lower b = (if 65 \<le> b \<and> b \<le> 90 then b + 32 else b)"

text \<open>\<open>u32::from_be_bytes(*b"char")\<close>\<close>

definition name4 :: "string \<Rightarrow> u32" where
  "name4 s = from_be_bytes (as_bytes s)"

text \<open>The scan with its rolling window \<open>h\<close>; finding \<open>int\<close> returns at once.\<close>

fun affinity_scan :: "Affinity \<Rightarrow> u32 \<Rightarrow> bytes \<Rightarrow> Affinity" where
  "affinity_scan aff h [] = aff"
| "affinity_scan aff h0 (b # bs) =
    (let h = push_bit 8 h0 + ucast (byte_lower b)
     in if h = name4 ''char'' \<or> h = name4 ''clob'' \<or> h = name4 ''text'' then affinity_scan AText h bs
        else if h = name4 ''blob'' \<and> aff \<in> {ANumeric, AReal} then affinity_scan ABlob h bs
        else if (h = name4 ''real'' \<or> h = name4 ''floa'' \<or> h = name4 ''doub'') \<and> aff = ANumeric
          then affinity_scan AReal h bs
        else if h AND 0x00ffffff = 0x00696e74 then AInteger
        else affinity_scan aff h bs)"

definition from_type_name :: "string \<Rightarrow> Affinity" where
  "from_type_name name = affinity_scan ANumeric 0 (as_bytes name)"

fun implied_by :: "ColumnType \<Rightarrow> Affinity" where
  "implied_by Int64T = AInteger"
| "implied_by BoolT = AInteger"
| "implied_by TimestampT = AInteger"
| "implied_by DateT = AInteger"
| "implied_by TimeT = AInteger"
| "implied_by Float64T = AReal"
| "implied_by TextT = AText"
| "implied_by NumericT = AText"
| "implied_by BlobT = ABlob"
| "implied_by AnyT = ABlob"

definition affinity_declared :: "string \<Rightarrow> Affinity" where
  "affinity_declared name = (if trim name = [] then ABlob else from_type_name name)"

definition type_declared :: "string \<Rightarrow> ColumnType \<times> Affinity" where
  "type_declared name =
    (let lower = to_ascii_lowercase (trim name)
     in if lower = [] then (AnyT, ABlob)
        else if lower \<in> {''bool'', ''boolean''} then (BoolT, implied_by BoolT)
        else if lower = ''any'' then (AnyT, ABlob)
        else case affinity_declared lower of
          AInteger \<Rightarrow> (Int64T, AInteger)
        | AReal \<Rightarrow> (Float64T, AReal)
        | AText \<Rightarrow> (TextT, AText)
        | ABlob \<Rightarrow> (AnyT, ABlob)
        | ANumeric \<Rightarrow> (AnyT, ANumeric))"

definition from_declared :: "string \<Rightarrow> ColumnType" where
  "from_declared name = fst (type_declared name)"

section \<open>Values\<close>

datatype Value =
    VNull
  | VInt i64
  | VFloat f64
  | VBool bool
  | VText string
  | VBlob bytes
  | VTimestamp i64
  | VDate i64
  | VTime i64
  | VNumeric string
  | VList "Value list"

definition is_null :: "Value \<Rightarrow> bool" where
  "is_null v \<longleftrightarrow> (case v of VNull \<Rightarrow> True | _ \<Rightarrow> False)"

definition is_list :: "Value \<Rightarrow> bool" where
  "is_list v \<longleftrightarrow> (case v of VList _ \<Rightarrow> True | _ \<Rightarrow> False)"

fun column_type :: "Value \<Rightarrow> ColumnType option" where
  "column_type VNull = None"
| "column_type (VInt _) = Some Int64T"
| "column_type (VFloat _) = Some Float64T"
| "column_type (VBool _) = Some BoolT"
| "column_type (VText _) = Some TextT"
| "column_type (VBlob _) = Some BlobT"
| "column_type (VTimestamp _) = Some TimestampT"
| "column_type (VDate _) = Some DateT"
| "column_type (VTime _) = Some TimeT"
| "column_type (VNumeric _) = Some NumericT"
| "column_type (VList _) = None"

definition fits :: "Value \<Rightarrow> ColumnType \<Rightarrow> bool" where
  "fits v ty = (if ty = AnyT then \<not> is_list v
     else case column_type v of None \<Rightarrow> True | Some t \<Rightarrow> t = ty)"

definition value_type_name :: "Value \<Rightarrow> string" where
  "value_type_name v = (case column_type v of None \<Rightarrow> ''null'' | Some t \<Rightarrow> type_name t)"

definition bool_cmp :: "bool \<Rightarrow> bool \<Rightarrow> ordering" where
  "bool_cmp a b = ord_cmp a b"

definition sql_cmp :: "Value \<Rightarrow> Value \<Rightarrow> ordering option result" where
  "sql_cmp v w =
    (if v = VNull \<or> w = VNull then Ok None
     else case v of
       VInt a \<Rightarrow> (case w of VInt b \<Rightarrow> Ok (Some (icmp a b))
                  | VFloat b \<Rightarrow> Ok (Some (int_float_cmp a b)) | _ \<Rightarrow> Err TypeMismatch)
     | VFloat a \<Rightarrow> (case w of VFloat b \<Rightarrow> Ok (Some (float_total_cmp a b))
                    | VInt b \<Rightarrow> Ok (Some (ord_reverse (int_float_cmp b a))) | _ \<Rightarrow> Err TypeMismatch)
     | VBool a \<Rightarrow> (case w of VBool b \<Rightarrow> Ok (Some (bool_cmp a b)) | _ \<Rightarrow> Err TypeMismatch)
     | VText a \<Rightarrow> (case w of VText b \<Rightarrow> Ok (Some (str_cmp a b)) | _ \<Rightarrow> Err TypeMismatch)
     | VBlob a \<Rightarrow> (case w of VBlob b \<Rightarrow> Ok (Some (ord_cmp a b)) | _ \<Rightarrow> Err TypeMismatch)
     | VTimestamp a \<Rightarrow> (case w of VTimestamp b \<Rightarrow> Ok (Some (icmp a b)) | _ \<Rightarrow> Err TypeMismatch)
     | VDate a \<Rightarrow> (case w of VDate b \<Rightarrow> Ok (Some (icmp a b)) | _ \<Rightarrow> Err TypeMismatch)
     | VTime a \<Rightarrow> (case w of VTime b \<Rightarrow> Ok (Some (icmp a b)) | _ \<Rightarrow> Err TypeMismatch)
     | VNumeric a \<Rightarrow> (case w of VNumeric b \<Rightarrow> Ok (Some (numeric_cmp a b)) | _ \<Rightarrow> Err TypeMismatch)
     | _ \<Rightarrow> Err TypeMismatch)"

section \<open>Collating sequences\<close>

datatype Collation = Binary | NoCase | Rtrim

fun collation_tag :: "Collation \<Rightarrow> byte" where
  "collation_tag Binary = 0"
| "collation_tag NoCase = 1"
| "collation_tag Rtrim = 2"

definition collation_from_tag :: "byte \<Rightarrow> Collation option" where
  "collation_from_tag t =
    (if t = 0 then Some Binary else if t = 1 then Some NoCase else if t = 2 then Some Rtrim else None)"

fun collation_name :: "Collation \<Rightarrow> string" where
  "collation_name Binary = ''BINARY''"
| "collation_name NoCase = ''NOCASE''"
| "collation_name Rtrim = ''RTRIM''"

definition collation_parse :: "string \<Rightarrow> Collation option" where
  "collation_parse name =
    (if eq_ignore_ascii_case name ''BINARY'' then Some Binary
     else if eq_ignore_ascii_case name ''NOCASE'' then Some NoCase
     else if eq_ignore_ascii_case name ''RTRIM'' then Some Rtrim
     else None)"

text \<open>The loop over the common length; the length breaks the tie.\<close>

fun nocase_loop :: "bytes \<Rightarrow> bytes \<Rightarrow> ordering" where
  "nocase_loop (a # as) (b # bs) =
    (let c = ord_cmp (byte_lower a) (byte_lower b) in if c \<noteq> Equal then c else nocase_loop as bs)"
| "nocase_loop _ _ = Equal"

definition nocase_cmp :: "bytes \<Rightarrow> bytes \<Rightarrow> ordering" where
  "nocase_cmp a b = (let c = nocase_loop a b in if c \<noteq> Equal then c else ord_cmp (length a) (length b))"

fun compare_str :: "Collation \<Rightarrow> string \<Rightarrow> string \<Rightarrow> ordering" where
  "compare_str Binary a b = ord_cmp (as_bytes a) (as_bytes b)"
| "compare_str NoCase a b = nocase_cmp (as_bytes a) (as_bytes b)"
| "compare_str Rtrim a b =
     ord_cmp (as_bytes (trim_end_matches CHR '' '' a)) (as_bytes (trim_end_matches CHR '' '' b))"

fun fold_key :: "Collation \<Rightarrow> string \<Rightarrow> string" where
  "fold_key Binary s = s"
| "fold_key NoCase s = to_ascii_lowercase s"
| "fold_key Rtrim s = trim_end_matches CHR '' '' s"

definition sql_cmp_collated :: "Value \<Rightarrow> Value \<Rightarrow> Collation \<Rightarrow> ordering option result" where
  "sql_cmp_collated v w coll = (case (v, w) of
     (VText a, VText b) \<Rightarrow> Ok (Some (compare_str coll a b))
   | _ \<Rightarrow> sql_cmp v w)"

fun class_rank :: "Value \<Rightarrow> nat option" where
  "class_rank (VInt _) = Some 1"
| "class_rank (VFloat _) = Some 1"
| "class_rank (VText _) = Some 2"
| "class_rank (VBlob _) = Some 3"
| "class_rank _ = None"

definition sort_cmp :: "Value \<Rightarrow> Value \<Rightarrow> Collation \<Rightarrow> ordering option" where
  "sort_cmp v w coll =
    (if is_null v \<or> is_null w then None
     else case (v, w) of
       (VText a, VText b) \<Rightarrow> Some (compare_str coll a b)
     | _ \<Rightarrow> (case sql_cmp_collated v w coll of
          Inr c \<Rightarrow> c
        | Inl _ \<Rightarrow> (case (class_rank v, class_rank w) of
            (Some x, Some y) \<Rightarrow> Some (ord_cmp x y)
          | _ \<Rightarrow> None)))"

section \<open>Vector literals\<close>

text \<open>\<open>split_whitespace\<close>: the maximal runs without white space.\<close>

definition skip_ws :: "string \<Rightarrow> string" where
  "skip_ws s = trim_with white_space s"

fun word_len :: "string \<Rightarrow> nat" where
  "word_len [] = 0"
| "word_len (c # s) = (if ws_at white_space (c # s) = 0 then Suc (word_len s) else 0)"

function split_whitespace :: "string \<Rightarrow> string list" where
  "split_whitespace s =
    (let t = skip_ws s; n = word_len t
     in if n = 0 then [] else take n t # split_whitespace (drop n t))"
  by auto
termination
proof (relation "measure length", goal_cases)
  case (2 s t n)
  have "length (trim_with ws u) \<le> length u" for ws u
    by (induction ws u rule: trim_with.induct) (subst trim_with.simps, auto)
  then have "length t \<le> length s"
    using 2 by (simp add: skip_ws_def)
  moreover have "t \<noteq> []"
    using 2 by auto
  ultimately show ?case
    using 2 by (auto simp: length_greater_0_conv [symmetric] simp del: length_greater_0_conv)
qed simp

fun parse_elements :: "string list \<Rightarrow> Value list option" where
  "parse_elements [] = Some []"
| "parse_elements (p # ps) = (case parse_i64 p of None \<Rightarrow> None
     | Some n \<Rightarrow> (case parse_elements ps of None \<Rightarrow> None | Some vs \<Rightarrow> Some (VInt (word_of_int n) # vs)))"

definition array_elements :: "Value \<Rightarrow> Value list option" where
  "array_elements v = (case v of
     VList items \<Rightarrow> Some items
   | VNull \<Rightarrow> Some []
   | VText s \<Rightarrow>
       let t = trim s;
           (body, comma) = (case strip_prefix CHR ''{'' t of
               None \<Rightarrow> (t, False)
             | Some r \<Rightarrow> (case strip_suffix CHR ''}'' r of None \<Rightarrow> (t, False) | Some inner \<Rightarrow> (trim inner, True)))
       in if body = [] then Some []
          else parse_elements (if comma then map trim (split_on CHR '','' body) else split_whitespace body)
   | _ \<Rightarrow> None)"

section \<open>Lemmas: the affinity scan\<close>

lemma be_nat_append: "be_nat (xs @ ys) = be_nat xs * 256 ^ length ys + be_nat ys"
  by (induction xs) (simp_all add: power_add algebra_simps)

lemma be_nat_less: "be_nat bs < 256 ^ length bs"
proof (induction bs)
  case (Cons b bs)
  have "be_nat (b # bs) < (unat b + 1) * 256 ^ length bs"
    using Cons by simp
  also have "\<dots> \<le> 256 * 256 ^ length bs"
    using unat_byte_less [of b] by (intro mult_le_mono1) linarith
  finally show ?case by simp
qed simp

lemma be_nat_inject:
  "length xs = length ys \<Longrightarrow> be_nat xs = be_nat ys \<longleftrightarrow> xs = ys"
proof (induction xs arbitrary: ys)
  case (Cons x xs)
  then obtain y ys' where y: "ys = y # ys'" "length xs = length ys'" by (cases ys) auto
  have "be_nat (x # xs) = be_nat ys \<Longrightarrow> unat x = unat y \<and> be_nat xs = be_nat ys'"
  proof -
    assume e: "be_nat (x # xs) = be_nat ys"
    have l: "be_nat xs < 256 ^ length ys'" "be_nat ys' < 256 ^ length ys'"
      using be_nat_less [of xs] be_nat_less [of ys'] y(2) by simp_all
    have e': "unat x * 256 ^ length ys' + be_nat xs = unat y * 256 ^ length ys' + be_nat ys'"
      using e y by simp
    have "unat x = (unat x * 256 ^ length ys' + be_nat xs) div 256 ^ length ys'"
      using l by simp
    also have "\<dots> = unat y"
      unfolding e' using l by simp
    finally show ?thesis using e' by simp
  qed
  then show ?case
    using Cons.IH [OF y(2)] y(1) by (auto simp: word_unat_eq_iff)
qed simp

text \<open>The window after a run of bytes, and what it equals.\<close>

definition window :: "bytes \<Rightarrow> u32" where
  "window ws = foldl (\<lambda>h b. push_bit 8 h + ucast b) 0 ws"

lemma window_snoc: "window (ws @ [b]) = push_bit 8 (window ws) + ucast b"
  by (simp add: window_def)

lemma unat_window: "unat (window ws) = be_nat ws mod 2 ^ 32"
proof (induction ws rule: rev_induct)
  case Nil
  then show ?case by (simp add: window_def)
next
  case (snoc b ws)
  have p: "unat (push_bit 8 (window ws)) = unat (window ws) * 256 mod 2 ^ 32"
    by (simp add: push_bit_eq_mult unat_word_ariths mult.commute)
  have u: "unat (ucast b :: u32) = unat b"
    by (simp add: unsigned_ucast_eq take_bit_nat_eq_self order.strict_trans [OF unat_byte_less])
  have "unat (window (ws @ [b])) = (unat (window ws) * 256 mod 2 ^ 32 + unat b) mod 2 ^ 32"
    by (simp only: window_snoc unat_word_ariths p u) simp
  also have "\<dots> = (be_nat ws * 256 + unat b) mod 2 ^ 32"
    unfolding snoc by (simp add: mod_simps)
  finally show ?case
    by (simp add: be_nat_append)
qed

lemma mod_window:
  assumes "length x = n"
  shows "be_nat (pre @ x) mod 256 ^ n = be_nat x"
  using assms be_nat_less [of x] by (simp add: be_nat_append)

lemma window_match:
  assumes s: "length s = n" "0 < be_nat s div 256 ^ (n - 1)" "0 < n"
  shows "be_nat ws mod 256 ^ n = be_nat s \<longleftrightarrow> suffix s ws"
proof (cases "n \<le> length ws")
  case True
  define pre x where "pre = take (length ws - n) ws" and "x = drop (length ws - n) ws"
  have w: "ws = pre @ x" "length x = n"
    using True by (simp_all add: pre_def x_def)
  have "be_nat ws mod 256 ^ n = be_nat s \<longleftrightarrow> x = s"
    using mod_window [OF w(2)] be_nat_inject [of x s] w s(1) by simp
  also have "\<dots> \<longleftrightarrow> suffix s ws"
    using w s(1) by (auto simp: suffix_def)
  finally show ?thesis .
next
  case False
  have "be_nat ws < 256 ^ length ws" by (rule be_nat_less)
  also have "\<dots> \<le> 256 ^ (n - 1)"
    using False by (intro power_increasing) simp_all
  also have "\<dots> \<le> be_nat s"
    using s(2) by (simp add: div_greater_zero_iff)
  finally have "be_nat ws < be_nat s" .
  then have "be_nat ws mod 256 ^ n \<noteq> be_nat s"
    using mod_less_eq_dividend [of "be_nat ws" "256 ^ n"] by linarith
  moreover have "\<not> suffix s ws"
    using False s(1) suffix_length_le by auto
  ultimately show ?thesis by simp
qed

lemma window_name4:
  assumes "length s = 4" "0 < be_nat (as_bytes s) div 256 ^ 3"
  shows "window ws = name4 s \<longleftrightarrow> suffix (as_bytes s) ws"
proof -
  have "be_nat (as_bytes s) < 256 ^ 4"
    using be_nat_less [of "as_bytes s"] assms(1) by simp
  then have "unat (name4 s) = be_nat (as_bytes s)"
    by (simp add: name4_def from_be_bytes_def unat_of_nat)
  then have "window ws = name4 s \<longleftrightarrow> be_nat ws mod 256 ^ 4 = be_nat (as_bytes s)"
    by (simp add: word_unat_eq_iff unat_window)
  also have "\<dots> \<longleftrightarrow> suffix (as_bytes s) ws"
    using assms by (intro window_match) simp_all
  finally show ?thesis .
qed

lemma window_int: "window ws AND 0x00ffffff = 0x00696e74 \<longleftrightarrow> suffix (as_bytes ''int'') ws"
proof -
  have m: "(0x00ffffff :: u32) = mask 24"
    by (simp add: mask_eq_exp_minus_1)
  have "unat (window ws AND 0x00ffffff) = be_nat ws mod 2 ^ 32 mod 2 ^ 24"
    unfolding m take_bit_eq_mask [symmetric] unsigned_take_bit_eq unat_window
    by (simp add: take_bit_eq_mod)
  also have "\<dots> = be_nat ws mod 256 ^ 3"
    by (simp add: mod_mod_cancel)
  finally have "window ws AND 0x00ffffff = 0x00696e74 \<longleftrightarrow> be_nat ws mod 256 ^ 3 = 0x00696e74"
    by (simp add: word_unat_eq_iff)
  also have "(0x00696e74 :: nat) = be_nat (as_bytes ''int'')"
    by (simp add: byte_of_char_def)
  also have "be_nat ws mod 256 ^ 3 = be_nat (as_bytes ''int'') \<longleftrightarrow> suffix (as_bytes ''int'') ws"
    by (intro window_match) (simp_all add: byte_of_char_def)
  finally show ?thesis .
qed

text \<open>A name occurs in the rest of a scan when some prefix of the rest completes it.\<close>

definition hit :: "string \<Rightarrow> bytes \<Rightarrow> bytes \<Rightarrow> bool" where
  "hit s ws bs \<longleftrightarrow> (\<exists>n<length bs. suffix (as_bytes s) (ws @ take (Suc n) bs))"

lemma hit_Nil [simp]: "\<not> hit s ws []"
  by (simp add: hit_def)

lemma hit_Cons: "hit s ws (b # bs) \<longleftrightarrow> suffix (as_bytes s) (ws @ [b]) \<or> hit s (ws @ [b]) bs"
proof -
  have "(\<exists>n<Suc (length bs). P n) \<longleftrightarrow> P 0 \<or> (\<exists>n<length bs. P (Suc n))" for P
    by (rule Ex_less_Suc2)
  then show ?thesis
    by (simp add: hit_def)
qed

lemma hit_sublist: "s \<noteq> [] \<Longrightarrow> hit s [] bs \<longleftrightarrow> sublist (as_bytes s) bs"
proof
  assume "hit s [] bs"
  then obtain n where "suffix (as_bytes s) (take (Suc n) bs)" by (auto simp: hit_def)
  then show "sublist (as_bytes s) bs"
    by (meson sublist_order.order_trans suffix_imp_sublist sublist_take)
next
  assume s: "s \<noteq> []" and "sublist (as_bytes s) bs"
  then obtain ps ss where bs: "bs = ps @ as_bytes s @ ss" by (auto simp: sublist_def)
  define n where "n = length ps + length s - 1"
  have "Suc n = length ps + length s" using s by (cases s) (simp_all add: n_def)
  then have "take (Suc n) bs = ps @ as_bytes s" "n < length bs"
    by (simp_all add: bs)
  then show "hit s [] bs"
    by (auto simp: hit_def suffix_def)
qed

definition text_names :: "bytes \<Rightarrow> bytes \<Rightarrow> bool" where
  "text_names ws bs \<longleftrightarrow> hit ''char'' ws bs \<or> hit ''clob'' ws bs \<or> hit ''text'' ws bs"

definition real_names :: "bytes \<Rightarrow> bytes \<Rightarrow> bool" where
  "real_names ws bs \<longleftrightarrow> hit ''real'' ws bs \<or> hit ''floa'' ws bs \<or> hit ''doub'' ws bs"

lemma name_unique:
  "suffix (as_bytes s) u \<Longrightarrow> suffix (as_bytes t) u \<Longrightarrow> length s = length t \<Longrightarrow> s = t"
  by (metis as_bytes_inject as_bytes_simps(4) suffix_length_suffix suffix_order.order_antisym order_refl)

lemma name_tail_unique:
  assumes "suffix (as_bytes s) u" "suffix (as_bytes t) u" "length s = Suc (length t)"
  shows "tl s = t"
proof -
  obtain c s' where s: "s = c # s'" using assms(3) by (cases s) auto
  have "suffix (as_bytes s') u"
    using assms(1) unfolding s as_bytes_simps by (rule suffix_ConsD)
  then show ?thesis
    using name_unique [of s' u t] assms(2,3) by (simp add: s)
qed

lemma affinity_scan_eq:
  "affinity_scan aff (window ws) bs =
    (if hit ''int'' ws (map byte_lower bs) then AInteger
     else if text_names ws (map byte_lower bs) then AText
     else if hit ''blob'' ws (map byte_lower bs) \<and> aff \<in> {ANumeric, AReal} then ABlob
     else if real_names ws (map byte_lower bs) \<and> aff = ANumeric then AReal
     else aff)"
proof (induction bs arbitrary: aff ws)
  case Nil
  then show ?case by (simp add: text_names_def real_names_def)
next
  case (Cons b bs)
  define u where "u = ws @ [byte_lower b]"
  have h: "push_bit 8 (window ws) + ucast (byte_lower b) = window u"
    by (simp add: u_def window_snoc)
  have n: "window u = name4 ''char'' \<longleftrightarrow> suffix (as_bytes ''char'') u"
    "window u = name4 ''clob'' \<longleftrightarrow> suffix (as_bytes ''clob'') u"
    "window u = name4 ''text'' \<longleftrightarrow> suffix (as_bytes ''text'') u"
    "window u = name4 ''blob'' \<longleftrightarrow> suffix (as_bytes ''blob'') u"
    "window u = name4 ''real'' \<longleftrightarrow> suffix (as_bytes ''real'') u"
    "window u = name4 ''floa'' \<longleftrightarrow> suffix (as_bytes ''floa'') u"
    "window u = name4 ''doub'' \<longleftrightarrow> suffix (as_bytes ''doub'') u"
    by (rule window_name4; simp add: byte_of_char_def)+
  have nu: "\<not> (suffix (as_bytes s) u \<and> suffix (as_bytes t) u)" if "length s = length t" "s \<noteq> t" for s t
    using that name_unique by blast
  have ni: "\<not> (suffix (as_bytes s) u \<and> suffix (as_bytes ''int'') u)" if "length s = 4" "tl s \<noteq> ''int''" for s
    using that name_tail_unique [of s u "''int''"] by auto
  define T B R I where "T \<longleftrightarrow> suffix (as_bytes ''char'') u \<or> suffix (as_bytes ''clob'') u \<or> suffix (as_bytes ''text'') u"
    and "B \<longleftrightarrow> suffix (as_bytes ''blob'') u"
    and "R \<longleftrightarrow> suffix (as_bytes ''real'') u \<or> suffix (as_bytes ''floa'') u \<or> suffix (as_bytes ''doub'') u"
    and "I \<longleftrightarrow> suffix (as_bytes ''int'') u"
  have excl: "\<not> (T \<and> B)" "\<not> (T \<and> R)" "\<not> (T \<and> I)" "\<not> (B \<and> R)" "\<not> (B \<and> I)" "\<not> (R \<and> I)"
    unfolding T_def B_def R_def I_def
    using nu [of "''char''" "''blob''"] nu [of "''clob''" "''blob''"] nu [of "''text''" "''blob''"]
      nu [of "''char''" "''real''"] nu [of "''clob''" "''real''"] nu [of "''text''" "''real''"]
      nu [of "''char''" "''floa''"] nu [of "''clob''" "''floa''"] nu [of "''text''" "''floa''"]
      nu [of "''char''" "''doub''"] nu [of "''clob''" "''doub''"] nu [of "''text''" "''doub''"]
      nu [of "''blob''" "''real''"] nu [of "''blob''" "''floa''"] nu [of "''blob''" "''doub''"]
      ni [of "''char''"] ni [of "''clob''"] ni [of "''text''"] ni [of "''blob''"] ni [of "''real''"]
      ni [of "''floa''"] ni [of "''doub''"]
    by (simp_all del: as_bytes_simps) blast+
  have step: "affinity_scan aff (window ws) (b # bs) =
      (if T then affinity_scan AText (window u) bs
       else if B \<and> aff \<in> {ANumeric, AReal} then affinity_scan ABlob (window u) bs
       else if R \<and> aff = ANumeric then affinity_scan AReal (window u) bs
       else if I then AInteger else affinity_scan aff (window u) bs)"
    by (simp only: affinity_scan.simps Let_def h n window_int T_def B_def R_def I_def)
  have hits: "hit ''int'' ws (map byte_lower (b # bs)) \<longleftrightarrow> I \<or> hit ''int'' u (map byte_lower bs)"
    "text_names ws (map byte_lower (b # bs)) \<longleftrightarrow> T \<or> text_names u (map byte_lower bs)"
    "hit ''blob'' ws (map byte_lower (b # bs)) \<longleftrightarrow> B \<or> hit ''blob'' u (map byte_lower bs)"
    "real_names ws (map byte_lower (b # bs)) \<longleftrightarrow> R \<or> real_names u (map byte_lower bs)"
    unfolding text_names_def real_names_def list.map hit_Cons T_def B_def R_def I_def u_def by blast+
  show ?case
    unfolding step hits Cons.IH using excl by (cases aff) auto
qed

section \<open>Lemmas: collations and the sort order\<close>

lemma nocase_cmp_fold: "nocase_cmp a b = ord_cmp (map byte_lower a) (map byte_lower b)"
proof (induction a b rule: nocase_loop.induct [case_names both left right])
  case (both a as b bs)
  show ?case
  proof (cases "byte_lower a = byte_lower b")
    case True
    have "nocase_cmp (a # as) (b # bs) = nocase_cmp as bs"
      using True by (simp add: nocase_cmp_def Let_def ord_cmp_def)
    moreover have "ord_cmp (map byte_lower (a # as)) (map byte_lower (b # bs))
        = ord_cmp (map byte_lower as) (map byte_lower bs)"
      using True by (simp add: ord_cmp_def)
    ultimately show ?thesis
      using both True by simp
  next
    case False
    then show ?thesis
      by (auto simp: nocase_cmp_def Let_def ord_cmp_def)
  qed
next
  case (left b)
  then show ?case by (cases b) (simp_all add: nocase_cmp_def ord_cmp_def)
next
  case (right a)
  then show ?case by (cases a) (simp_all add: nocase_cmp_def ord_cmp_def)
qed

lemma byte_of_char_lower: "byte_of_char (ascii_lower c) = byte_lower (byte_of_char c)"
proof -
  have l: "(of_char c :: nat) < 256" by (rule nat_of_char_less_256)
  then have u: "unat (byte_of_char c) = of_char c"
    by (simp add: byte_of_char_def unat_of_nat)
  then have up: "65 \<le> byte_of_char c \<and> byte_of_char c \<le> 90 \<longleftrightarrow> is_ascii_uppercase c"
    by (simp add: word_le_nat_alt is_ascii_uppercase_def)
  show ?thesis
  proof (cases "is_ascii_uppercase c")
    case True
    then have "(of_char c :: nat) + 32 < 256"
      by (simp add: is_ascii_uppercase_def)
    then show ?thesis
      using True up by (simp add: ascii_lower_def byte_lower_def byte_of_char_def)
  next
    case False
    then show ?thesis
      using up by (simp add: ascii_lower_def byte_lower_def)
  qed
qed

lemma as_bytes_lowercase: "as_bytes (to_ascii_lowercase s) = map byte_lower (as_bytes s)"
  by (simp add: as_bytes_def to_ascii_lowercase_def byte_of_char_lower)

lemma compare_str_fold: "compare_str coll a b = ord_cmp (as_bytes (fold_key coll a)) (as_bytes (fold_key coll b))"
  by (cases coll) (simp_all add: nocase_cmp_fold as_bytes_lowercase)

text \<open>
  The key the storage-class order compares by: the class, then for numbers whether it is NaN and
  the exact number, then the folded bytes of a text or the bytes of a blob.
\<close>

type_synonym sort_key = "nat \<times> bool \<times> int \<times> bytes"

fun sort_key :: "Collation \<Rightarrow> Value \<Rightarrow> sort_key" where
  "sort_key coll (VInt i) = (1, False, sint i * fix_one, [])"
| "sort_key coll (VFloat r) = (1, is_nan r, if is_nan r then 0 else fix_val r, [])"
| "sort_key coll (VText s) = (2, False, 0, as_bytes (fold_key coll s))"
| "sort_key coll (VBlob b) = (3, False, 0, b)"
| "sort_key coll _ = (0, False, 0, [])"

definition storage_class :: "Value \<Rightarrow> bool" where
  "storage_class v \<longleftrightarrow> class_rank v \<noteq> None"

lemma float_total_cmp_exact:
  "float_total_cmp a b = ord_cmp (is_nan a, if is_nan a then 0 else fix_val a) (is_nan b, if is_nan b then 0 else fix_val b)"
  unfolding float_total_cmp_def
  by (rule ord_cmp_mono) (auto simp: normalize_less_iff less_prod_def' less_prod_def)

lemma ord_cmp_tail: "ord_cmp (a, x) (a, y) = ord_cmp x (y :: 'a::linorder)"
  for a :: "'b::linorder"
  by (auto simp: ord_cmp_def less_prod_def')

lemma sort_cmp_key:
  assumes "storage_class v" and "storage_class w"
  shows "sort_cmp v w coll = Some (ord_cmp (sort_key coll v) (sort_key coll w))"
proof -
  have r: "ord_cmp (a, x) (b, y) = ord_cmp a b" if "a \<noteq> b"
    for a b :: nat and x y :: "bool \<times> int \<times> bytes"
    using that by (auto simp: ord_cmp_def)
  have f: "ord_cmp (is_nan a, if is_nan a then 0 else fix_val a, [])
      (is_nan b, if is_nan b then 0 else fix_val b, []) = float_total_cmp a b" for a b
    unfolding float_total_cmp_exact by (auto simp: ord_cmp_def)
  have i: "ord_cmp (False, sint a * fix_one, []) (is_nan b, if is_nan b then 0 else fix_val b, [])
      = int_float_cmp a b" for a b
    unfolding int_float_cmp_exact by (auto simp: ord_cmp_def)
  have j: "ord_cmp (is_nan b, if is_nan b then 0 else fix_val b, []) (False, sint a * fix_one, [])
      = ord_reverse (int_float_cmp a b)" for a b
    using ord_reverse_ord_cmp i by metis
  have k: "ord_cmp (sint a * fix_one, ([] :: bytes)) (sint b * fix_one, []) = icmp a b" for a b
    using less_imp_neq [OF fix_one_pos] not_le [THEN iffD2, OF fix_one_pos]
    by (auto simp: ord_cmp_def icmp_def mult_less_cancel_right)
  show ?thesis
    using assms
    by (cases v; cases w)
      (simp_all add: storage_class_def sort_cmp_def sql_cmp_collated_def sql_cmp_def is_null_def
        compare_str_fold ord_cmp_tail r f i j k str_cmp_def)
qed

lemma numeric_cmp_flip: "numeric_cmp b a = ord_reverse (numeric_cmp a b)"
proof -
  have st: "ord_reverse (str_cmp x y) = str_cmp y x" for x y
    by (simp add: str_cmp_def)
  have rr: "ord_reverse (ord_reverse x) = x" for x
    by (cases x) simp_all
  show ?thesis
    by (cases "numeric_special_rank a"; cases "numeric_special_rank b")
      (auto simp: numeric_cmp_def Let_def split_beta ord_reverse_then st rr)
qed

lemma sql_cmp_flip:
  "sql_cmp w v = (case sql_cmp v w of Inl e \<Rightarrow> Inl e | Inr c \<Rightarrow> Inr (map_option ord_reverse c))"
proof -
  have f: "ord_reverse (float_total_cmp a b) = float_total_cmp b a"
    "ord_reverse (icmp c d) = icmp d c" "ord_reverse (str_cmp s t) = str_cmp t s"
    "ord_reverse (bool_cmp x y) = bool_cmp y x" "ord_reverse (ord_reverse z) = z" for a b c d s t x y z
    by (cases z; simp add: float_total_cmp_def icmp_def str_cmp_def bool_cmp_def)+
  have n: "ord_reverse (numeric_cmp s t) = numeric_cmp t s" for s t
    by (rule numeric_cmp_flip [symmetric])
  show ?thesis
    by (cases v; cases w) (simp_all add: sql_cmp_def f n)
qed

section \<open>Properties\<close>

text \<open>
  C26: \<open>sort_cmp\<close> is a total order on the storage classes: on integers, floats, texts and blobs it is
  the comparison of the pair's sort keys (class, then the exact number with NaN on top, then the
  text folded by the collation or the blob), which are linearly ordered.
\<close>

theorem sort_cmp_total_order:
  assumes "storage_class v" and "storage_class w"
  shows "sort_cmp v w coll = Some (ord_cmp (sort_key coll v) (sort_key coll w))"
  using assms by (rule sort_cmp_key)

theorem sort_cmp_total_order_witness:
  "sort_cmp (VText ''abc'') (VInt 5) NoCase = Some Greater"
  using sort_cmp_total_order [of "VText ''abc''" "VInt 5" NoCase]
  by (simp add: storage_class_def ord_cmp_def)

text \<open>
  C27: \<open>sql_cmp\<close> is antisymmetric on every pair of values: exchanging the operands reverses the
  answer, keeps NULL and keeps the refusal of a cross-class pair.
\<close>

theorem sql_cmp_antisymmetric:
  "sql_cmp w v = (case sql_cmp v w of Inl e \<Rightarrow> Inl e | Inr c \<Rightarrow> Inr (map_option ord_reverse c))"
  by (rule sql_cmp_flip)

text \<open>
  C28: every collating sequence is the byte order of its fold: \<open>compare_str\<close> orders two strings as
  their \<open>fold_key\<close> images compare bytewise, so equal under the collation means an identical fold.
\<close>

theorem compare_str_is_fold_order:
  "compare_str coll a b = ord_cmp (as_bytes (fold_key coll a)) (as_bytes (fold_key coll b))
    \<and> (compare_str coll a b = Equal \<longleftrightarrow> fold_key coll a = fold_key coll b)"
  by (simp add: compare_str_fold)

text \<open>
  C29: the rolling-window scan of a declared type name is sqlite's substring rule, ignoring case:
  \<open>int\<close> anywhere gives INTEGER, otherwise \<open>char\<close>, \<open>clob\<close> or \<open>text\<close> gives TEXT, otherwise \<open>blob\<close> gives BLOB,
  otherwise \<open>real\<close>, \<open>floa\<close> or \<open>doub\<close> gives REAL, and NUMERIC is left.
\<close>

theorem from_type_name_rule:
  "from_type_name name =
    (let has = (\<lambda>s. sublist (as_bytes s) (map byte_lower (as_bytes name)))
     in if has ''int'' then AInteger
        else if has ''char'' \<or> has ''clob'' \<or> has ''text'' then AText
        else if has ''blob'' then ABlob
        else if has ''real'' \<or> has ''floa'' \<or> has ''doub'' then AReal
        else ANumeric)"
proof -
  have "from_type_name name = affinity_scan ANumeric (window []) (as_bytes name)"
    by (simp add: from_type_name_def window_def)
  then show ?thesis
    unfolding affinity_scan_eq text_names_def real_names_def Let_def by (simp add: hit_sublist)
qed

end
