(* ===== verification/Value_Codec.thy ===== *)
theory Value_Codec
  imports Sql_Value
begin

text \<open>
  The tagged byte form of a value (\<open>write_value\<close> and \<open>read_value\<close> of \<open>mpedb-types/src/value.rs\<close>), which
  plan blobs, key footprints and the intent ring's parameters use: the round trip at any position
  of a buffer, and what the reader does on arbitrary bytes.
\<close>

section \<open>The tagged byte form\<close>

text \<open>\<open>(s.len() as u32).to_le_bytes()\<close>\<close>

definition len_u32 :: "'a list \<Rightarrow> bytes" where
  "len_u32 xs = to_le_bytes (word_of_nat (length xs) :: u32)"

fun write_value :: "Value \<Rightarrow> bytes" where
  "write_value VNull = [0]"
| "write_value (VInt x) = 1 # to_le_bytes x"
| "write_value (VFloat x) = 2 # to_le_bytes x"
| "write_value (VBool x) = [3, if x then 1 else 0]"
| "write_value (VText s) = 4 # len_u32 s @ as_bytes s"
| "write_value (VBlob b) = 5 # len_u32 b @ b"
| "write_value (VTimestamp x) = 6 # to_le_bytes x"
| "write_value (VDate x) = 8 # to_le_bytes x"
| "write_value (VTime x) = 9 # to_le_bytes x"
| "write_value (VNumeric s) = 10 # len_u32 s @ as_bytes s"
| "write_value (VList items) = 7 # len_u32 items @ concat (map write_value items)"

text \<open>The bounds-checked \<open>take\<close>: the bytes and the position after them.\<close>

definition take_bytes :: "bytes \<Rightarrow> nat \<Rightarrow> nat \<Rightarrow> (bytes \<times> nat) result" where
  "take_bytes buf p n = rbind (ok_or Corrupt (get_range buf p (p + n))) (\<lambda>s. Ok (s, p + n))"

definition take_i64 :: "(64 word \<Rightarrow> Value) \<Rightarrow> bytes \<Rightarrow> nat \<Rightarrow> (Value \<times> nat) result" where
  "take_i64 c buf p = rbind (take_bytes buf p 8) (\<lambda>(s, q). Ok (c (from_le_bytes s), q))"

definition take_len :: "bytes \<Rightarrow> nat \<Rightarrow> (nat \<times> nat) result" where
  "take_len buf p = rbind (take_bytes buf p 4) (\<lambda>(s, q). Ok (unat (from_le_bytes s :: u32), q))"

definition take_str :: "(string \<Rightarrow> Value) \<Rightarrow> bytes \<Rightarrow> nat \<Rightarrow> (Value \<times> nat) result" where
  "take_str c buf p = rbind (take_len buf p) (\<lambda>(len, q). rbind (take_bytes buf q len) (\<lambda>(bs, r).
     rbind (from_utf8 bs) (\<lambda>s. Ok (c s, r))))"

text \<open>The element loop of a list: a nested list is refused once it has been read.\<close>

fun read_items :: "(bytes \<Rightarrow> nat \<Rightarrow> (Value \<times> nat) result) \<Rightarrow> nat \<Rightarrow> bytes \<Rightarrow> nat \<Rightarrow> (Value list \<times> nat) result" where
  "read_items rd 0 buf p = Ok ([], p)"
| "read_items rd (Suc n) buf p =
     rbind (rd buf p) (\<lambda>(v, q).
     if is_list v then Err Corrupt
     else rbind (read_items rd n buf q) (\<lambda>(vs, r). Ok (v # vs, r)))"

text \<open>
  The recursion of \<open>read_value\<close> is bounded by fuel: every level of nesting consumes a tag and a
  length, so a buffer of \<open>n\<close> bytes nests less than \<open>n\<close> levels (shown below as independence of the fuel).
\<close>

definition read_tagged :: "(bytes \<Rightarrow> nat \<Rightarrow> (Value \<times> nat) result) \<Rightarrow> byte \<Rightarrow> bytes \<Rightarrow> nat \<Rightarrow> (Value \<times> nat) result" where
  "read_tagged rd tag buf q =
    (if tag = 0 then Ok (VNull, q)
     else if tag = 1 then take_i64 VInt buf q
     else if tag = 2 then take_i64 VFloat buf q
     else if tag = 3 then
       rbind (take_bytes buf q 1) (\<lambda>(b, r).
         if hd b = 0 then Ok (VBool False, r) else if hd b = 1 then Ok (VBool True, r) else Err Corrupt)
     else if tag = 4 then take_str VText buf q
     else if tag = 5 then
       rbind (take_len buf q) (\<lambda>(len, r). rbind (take_bytes buf r len) (\<lambda>(bs, u). Ok (VBlob bs, u)))
     else if tag = 6 then take_i64 VTimestamp buf q
     else if tag = 7 then
       rbind (take_len buf q) (\<lambda>(len, r). rbind (read_items rd len buf r) (\<lambda>(vs, u). Ok (VList vs, u)))
     else if tag = 8 then take_i64 VDate buf q
     else if tag = 9 then take_i64 VTime buf q
     else if tag = 10 then take_str VNumeric buf q
     else Err Corrupt)"

fun read_nested :: "nat \<Rightarrow> bytes \<Rightarrow> nat \<Rightarrow> (Value \<times> nat) result" where
  "read_nested 0 buf p = Err Corrupt"
| "read_nested (Suc n) buf p =
     rbind (take_bytes buf p 1) (\<lambda>(t, q). read_tagged (read_nested n) (hd t) buf q)"

definition read_value :: "bytes \<Rightarrow> nat \<Rightarrow> (Value \<times> nat) result" where
  "read_value buf p = read_nested (Suc (length buf)) buf p"

section \<open>Lemmas: the tagged byte form\<close>

lemma take_bytes_at: "at_pos buf p (xs @ ys) \<Longrightarrow> length xs = n \<Longrightarrow> take_bytes buf p n = Ok (xs, p + n)"
  by (simp add: take_bytes_def read_simps)

lemma take_bytes_OkD:
  "take_bytes buf p n = Ok (s, q) \<Longrightarrow> q = p + n \<and> q \<le> length buf \<and> length s = n"
  by (auto simp: take_bytes_def get_range_def rbind_Ok_iff ok_or_Ok_iff split: if_splits)

lemma take_tag_at: "at_pos buf p (x # xs) \<Longrightarrow> take_bytes buf p 1 = Ok ([x], Suc p)"
  using take_bytes_at [of buf p "[x]" xs 1] by simp

lemma take_i64_at: "at_pos buf p (to_le_bytes x @ ys) \<Longrightarrow> take_i64 c buf p = Ok (c x, p + 8)"
  by (simp add: take_i64_def take_bytes_at)

lemma take_len_at:
  assumes "at_pos buf p (len_u32 xs @ ys)" and "length xs < 2 ^ 32"
  shows "take_len buf p = Ok (length xs, p + 4)"
proof -
  have "take_bytes buf p 4 = Ok (len_u32 xs, p + 4)"
    using assms(1) by (rule take_bytes_at) (simp add: len_u32_def)
  then show ?thesis
    using assms(2) by (simp add: take_len_def len_u32_def unat_of_nat)
qed

lemma length_len_u32 [simp]: "length (len_u32 xs) = 4"
  by (simp add: len_u32_def)

lemma take_str_at:
  assumes at: "at_pos buf p (len_u32 s @ as_bytes s @ ys)" and "valid_str s" and "length s < 2 ^ 32"
  shows "take_str c buf p = Ok (c s, p + 4 + length s)"
proof -
  have "at_pos buf (p + 4) (as_bytes s @ ys)"
    using at_pos_add [OF at] by simp
  then have "take_bytes buf (p + 4) (length s) = Ok (as_bytes s, p + 4 + length s)"
    by (intro take_bytes_at) simp_all
  then show ?thesis
    using take_len_at [OF at] assms(2,3) by (simp add: take_str_def)
qed

text \<open>What \<open>write_value\<close> can carry: lengths that fit a \<open>u32\<close>, valid strings, and flat lists.\<close>

fun valid_scalar :: "Value \<Rightarrow> bool" where
  "valid_scalar (VText s) \<longleftrightarrow> valid_str s \<and> length s < 2 ^ 32"
| "valid_scalar (VNumeric s) \<longleftrightarrow> valid_str s \<and> length s < 2 ^ 32"
| "valid_scalar (VBlob b) \<longleftrightarrow> length b < 2 ^ 32"
| "valid_scalar (VList _) \<longleftrightarrow> False"
| "valid_scalar _ \<longleftrightarrow> True"

definition valid_value :: "Value \<Rightarrow> bool" where
  "valid_value v \<longleftrightarrow> (case v of VList vs \<Rightarrow> length vs < 2 ^ 32 \<and> list_all valid_scalar vs | _ \<Rightarrow> valid_scalar v)"

lemma read_scalar:
  assumes "valid_scalar v" and "at_pos buf p (write_value v @ rest)"
  shows "read_nested (Suc n) buf p = Ok (v, p + length (write_value v))"
proof -
  obtain t body where w: "write_value v = t # body"
    by (cases v) auto
  then have at: "at_pos buf p (t # body @ rest)"
    using assms(2) by simp
  have tag: "take_bytes buf p 1 = Ok ([t], Suc p)"
    by (rule take_tag_at [OF at])
  have at': "at_pos buf (Suc p) (body @ rest)"
    by (rule at_pos_Suc [OF at])
  have b: "take_bytes buf (Suc p) 1 = Ok ([x], Suc (Suc p))" if "body = [x]" for x
    using take_tag_at [of buf "Suc p" x rest] at' that by simp
  have blob: "take_bytes buf (Suc p + 4) (length bs) = Ok (bs, Suc p + 4 + length bs)"
    if "body = len_u32 bs @ bs" for bs
  proof (rule take_bytes_at [of _ _ _ rest])
    show "at_pos buf (Suc p + 4) (bs @ rest)"
      using at_pos_add [of buf "Suc p" "len_u32 bs" "bs @ rest" 4] at' that by simp
  qed simp
  show ?thesis
  proof (cases v)
    case (VText s)
    then show ?thesis
      using assms(1) w at' tag take_str_at [of buf "Suc p" s rest VText] by (auto simp: read_tagged_def)
  next
    case (VNumeric s)
    then show ?thesis
      using assms(1) w at' tag take_str_at [of buf "Suc p" s rest VNumeric] by (auto simp: read_tagged_def)
  next
    case (VBlob bs)
    then show ?thesis
      using assms(1) w at' tag blob [of bs] take_len_at [of buf "Suc p" bs "bs @ rest"] by (auto simp: read_tagged_def)
  next
    case (VBool x)
    then show ?thesis
      using w tag b [of "if x then 1 else 0"] by (cases x) (auto simp: read_tagged_def)
  qed (use assms(1) w at' tag take_i64_at in \<open>auto simp: read_tagged_def\<close>)
qed

lemma is_list_scalar: "valid_scalar v \<Longrightarrow> \<not> is_list v"
  by (cases v) (simp_all add: is_list_def)

lemma read_items_round:
  "list_all valid_scalar vs \<Longrightarrow> at_pos buf p (concat (map write_value vs) @ rest)
    \<Longrightarrow> read_items (read_nested (Suc n)) (length vs) buf p = Ok (vs, p + length (concat (map write_value vs)))"
proof (induction vs arbitrary: p)
  case (Cons v vs)
  have at: "at_pos buf p (write_value v @ concat (map write_value vs) @ rest)"
    using Cons.prems(2) by simp
  show ?case
    using Cons.prems(1) Cons.IH [of "p + length (write_value v)"] at_pos_add [OF at]
      read_scalar [OF _ at] is_list_scalar
    by (simp del: read_nested.simps add: add.assoc)
qed simp

lemma read_value_round:
  assumes "valid_value v" and at: "at_pos buf p (write_value v @ rest)"
  shows "read_value buf p = Ok (v, p + length (write_value v))"
proof (cases "is_list v")
  case False
  then have "valid_scalar v"
    using assms(1) by (cases v) (simp_all add: valid_value_def is_list_def)
  then show ?thesis
    unfolding read_value_def using at by (rule read_scalar)
next
  case True
  then obtain vs where v: "v = VList vs" by (cases v) (simp_all add: is_list_def)
  have vs: "length vs < 2 ^ 32" "list_all valid_scalar vs"
    using assms(1) by (simp_all add: valid_value_def v)
  define body where "body = concat (map write_value vs)"
  have at1: "at_pos buf p (7 # len_u32 vs @ body @ rest)"
    using at by (simp add: v body_def)
  have at2: "at_pos buf (Suc p) (len_u32 vs @ body @ rest)"
    by (rule at_pos_Suc [OF at1])
  have at3: "at_pos buf (Suc p + 4) (body @ rest)"
    by (rule at_pos_add [OF at2]) simp
  obtain m where m: "length buf = Suc m"
    using at_pos_length [OF at1] by (cases "length buf") auto
  have "read_items (read_nested (length buf)) (length vs) buf (Suc p + 4) = Ok (vs, Suc p + 4 + length body)"
    unfolding m using read_items_round [OF vs(2), of buf "Suc p + 4" rest m] at3 by (simp add: body_def)
  then show ?thesis
    using take_tag_at [OF at1] take_len_at [OF at2 vs(1)]
    by (simp add: read_value_def read_tagged_def v body_def del: read_nested.simps(1))
qed

interpretation value_codec: pos_codec write_value "\<lambda>(_ :: unit). read_value" "\<lambda>_. valid_value" "\<lambda>_. True"
  by unfold_locales (simp_all add: read_value_round)

text \<open>The reader moves forward and never past the end.\<close>

lemma take_i64_OkD: "take_i64 c buf p = Ok (v, q) \<Longrightarrow> q = p + 8 \<and> q \<le> length buf"
  by (auto simp: take_i64_def rbind_Ok_iff dest: take_bytes_OkD)

lemma take_len_OkD: "take_len buf p = Ok (n, q) \<Longrightarrow> q = p + 4 \<and> q \<le> length buf"
  by (auto simp: take_len_def rbind_Ok_iff dest: take_bytes_OkD)

lemma take_str_OkD: "take_str c buf p = Ok (v, q) \<Longrightarrow> p < q \<and> q \<le> length buf"
  by (auto simp: take_str_def rbind_Ok_iff dest!: take_bytes_OkD take_len_OkD)

lemma read_items_advance:
  assumes "\<And>p v q. rd buf p = Ok (v, q) \<Longrightarrow> p < q \<and> q \<le> length buf" and "p \<le> length buf"
  shows "read_items rd n buf p = Ok (vs, q) \<Longrightarrow> p \<le> q \<and> q \<le> length buf"
  using assms(2)
proof (induction n arbitrary: p vs)
  case (Suc n)
  then obtain v r us where 1: "rd buf p = Ok (v, r)" and 2: "read_items rd n buf r = Ok (us, q)"
    by (auto simp: rbind_Ok_iff split: if_splits)
  show ?case
    using assms(1) [OF 1] Suc.IH [OF 2] by simp
qed simp

lemma read_tagged_advance:
  assumes rd: "\<And>p v q. rd buf p = Ok (v, q) \<Longrightarrow> p < q \<and> q \<le> length buf"
    and r: "read_tagged rd tag buf p = Ok (v, q)" and p: "p \<le> length buf"
  shows "p \<le> q \<and> q \<le> length buf"
proof -
  consider "q = p" | c where "take_i64 c buf p = Ok (v, q)" | c where "take_str c buf p = Ok (v, q)"
    | b where "take_bytes buf p 1 = Ok (b, q)"
    | len r bs where "take_len buf p = Ok (len, r)" "take_bytes buf r len = Ok (bs, q)"
    | len r vs where "take_len buf p = Ok (len, r)" "read_items rd len buf r = Ok (vs, q)"
    using r unfolding read_tagged_def by (auto simp: rbind_Ok_iff split: if_splits)
  then show ?thesis
  proof cases
    case (6 len r vs)
    have "r \<le> q \<and> q \<le> length buf"
      by (rule read_items_advance [of rd buf r len vs q]) (use rd take_len_OkD [OF 6(1)] 6(2) in auto)
    then show ?thesis
      using take_len_OkD [OF 6(1)] by auto
  qed (use p in \<open>auto dest!: take_i64_OkD take_str_OkD take_bytes_OkD take_len_OkD\<close>)
qed

lemma read_nested_advance: "read_nested n buf p = Ok (v, q) \<Longrightarrow> p < q \<and> q \<le> length buf"
proof (induction n arbitrary: p v q)
  case (Suc n)
  obtain t r where t: "take_bytes buf p 1 = Ok (t, r)" "read_tagged (read_nested n) (hd t) buf r = Ok (v, q)"
    using Suc.prems by (auto simp: rbind_Ok_iff)
  have "r \<le> q \<and> q \<le> length buf"
    by (rule read_tagged_advance [OF _ t(2)]) (use Suc.IH take_bytes_OkD [OF t(1)] in auto)
  then show ?case
    using take_bytes_OkD [OF t(1)] by auto
qed simp

lemma read_tagged_cong:
  assumes "\<And>len r. take_len buf p = Ok (len, r) \<Longrightarrow> read_items rd len buf r = read_items rd' len buf r"
  shows "read_tagged rd tag buf p = read_tagged rd' tag buf p"
proof -
  have "rbind (take_len buf p) (\<lambda>(len, r). rbind (read_items rd len buf r) (\<lambda>(vs, u). Ok (VList vs, u)))
      = rbind (take_len buf p) (\<lambda>(len, r). rbind (read_items rd' len buf r) (\<lambda>(vs, u). Ok (VList vs, u)))"
    using assms by (intro rbind_cong [OF refl]) (auto split: prod.split)
  then show ?thesis
    by (simp only: read_tagged_def)
qed

lemma read_items_cong:
  assumes "\<And>q. p \<le> q \<Longrightarrow> rd buf q = rd' buf q" and "\<And>p v q. rd buf p = Ok (v, q) \<Longrightarrow> p \<le> q"
  shows "read_items rd n buf p = read_items rd' n buf p"
  using assms(1)
proof (induction n arbitrary: p)
  case (Suc n)
  have "read_items rd n buf q = read_items rd' n buf q" if "rd buf p = Ok (v, q)" for v q
    using Suc.prems assms(2) [OF that] by (intro Suc.IH) auto
  then have "rbind (rd buf p) (\<lambda>(v, q). if is_list v then Err Corrupt
        else rbind (read_items rd n buf q) (\<lambda>(vs, r). Ok (v # vs, r)))
      = rbind (rd buf p) (\<lambda>(v, q). if is_list v then Err Corrupt
        else rbind (read_items rd' n buf q) (\<lambda>(vs, r). Ok (v # vs, r)))"
    by (intro rbind_cong [OF refl]) (auto split: prod.split)
  moreover have "rd buf p = rd' buf p"
    using Suc.prems by simp
  ultimately show ?case
    by (simp only: read_items.simps)
qed simp

lemma read_nested_fuel:
  "length buf - p < n \<Longrightarrow> length buf - p < m \<Longrightarrow> read_nested n buf p = read_nested m buf p"
proof (induction n arbitrary: m p)
  case (Suc n)
  obtain k where m: "m = Suc k" using Suc.prems by (cases m) auto
  have li: "read_items (read_nested n) len buf u = read_items (read_nested k) len buf u"
    if "take_bytes buf p 1 = Ok (t, r)" "take_len buf r = Ok (len, u)" for t r len u
  proof (rule read_items_cong)
    have u: "u = p + 5" "u \<le> length buf"
      using take_bytes_OkD [OF that(1)] take_len_OkD [OF that(2)] by auto
    show "read_nested n buf q = read_nested k buf q" if "u \<le> q" for q
      using Suc.prems m u that by (intro Suc.IH) auto
  qed (use read_nested_advance in \<open>auto intro: less_imp_le\<close>)
  show ?case
    unfolding m read_nested.simps
    by (rule rbind_cong [OF refl]) (clarsimp, rule read_tagged_cong, rule li, simp_all)
qed simp

section \<open>Properties\<close>

text \<open>
  C29: \<open>read_value\<close> reads back what \<open>write_value\<close> wrote, at any position of a buffer and whatever
  follows, and stops right after it.
\<close>

theorem value_round_trip:
  assumes "valid_value v" and "at_pos buf p (write_value v @ rest)"
  shows "read_value buf p = Ok (v, p + length (write_value v))"
  using value_codec.round [OF assms(1) TrueI assms(2)] .

theorem value_round_trip_witness:
  "read_value (9 # write_value (VList [VInt 7, VText ''ab'', VNull]) @ [1, 2]) 1
    = Ok (VList [VInt 7, VText ''ab'', VNull], 1 + length (write_value (VList [VInt 7, VText ''ab'', VNull])))"
proof -
  have "valid_value (VList [VInt 7, VText ''ab'', VNull])"
    by (simp add: valid_value_def valid_str_def byte_of_char_def)
  moreover have "at_pos (9 # w @ [1, 2]) 1 (w @ [1, 2])" for w :: bytes
    by (simp add: at_pos_def)
  ultimately show ?thesis
    by (rule value_round_trip)
qed

text \<open>
  C30: on arbitrary bytes \<open>read_value\<close> only ever moves forward inside the buffer, and the bound on its
  recursion is never what stops it: any fuel above the number of remaining bytes gives the same
  result.
\<close>

theorem read_value_total:
  "(read_value buf p = Ok (v, q) \<longrightarrow> p < q \<and> q \<le> length buf)
    \<and> (length buf - p < n \<longrightarrow> read_nested n buf p = read_value buf p)"
  using read_nested_advance [of "Suc (length buf)" buf p v q] read_nested_fuel [of buf p n "Suc (length buf)"]
  by (auto simp: read_value_def simp del: read_nested.simps)

theorem read_value_total_witness:
  "read_value [3, 1] 0 = Ok (VBool True, 2) \<and> read_nested 3 [3, 1] 0 = read_value [3, 1] 0"
proof -
  have "read_value [3, 1] 0 = Ok (VBool True, 2)"
    by (simp add: read_value_def read_tagged_def take_bytes_def get_range_def)
  then show ?thesis
    using read_value_total [of "[3, 1]" 0 "VBool True" 2 3] by simp
qed

end
