(* ===== verification/Numeric_Key.thy ===== *)
theory Numeric_Key
  imports Sql_Value
begin

unbundle bit_operations_syntax

text \<open>
  The order-preserving byte form of an exact decimal (\<open>encode_numeric\<close> and \<open>decode_numeric\<close> of
  \<open>mpedb-types/src/keycode.rs\<close>) and the escaped byte strings that the whole key codec shares. A
  finite number is written in scientific form, \<open>0.d1d2.. * 10 ^ E\<close> with \<open>d1\<close> and the last digit not
  zero, the bytes complemented for a negative one.
\<close>

section \<open>Escaped byte strings\<close>

fun encode_bytes :: "bytes \<Rightarrow> bytes" where
  "encode_bytes [] = [0]"
| "encode_bytes (b # bs) = (if b = 0 then b # 0xff # encode_bytes bs else b # encode_bytes bs)"

text \<open>The loop of \<open>decode_bytes\<close>; its position grows by at least one in every turn.\<close>

function decode_bytes :: "bytes \<Rightarrow> nat \<Rightarrow> (bytes \<times> nat) result" where
  "decode_bytes buf p =
    (case get_at buf p of
       None \<Rightarrow> Err Corrupt
     | Some b \<Rightarrow>
         if b \<noteq> 0 then rbind (decode_bytes buf (p + 1)) (\<lambda>(out, q). Ok (b # out, q))
         else if get_at buf (p + 1) = Some 0xff
           then rbind (decode_bytes buf (p + 2)) (\<lambda>(out, q). Ok (0 # out, q))
         else Ok ([], p + 1))"
  by auto
termination
  by (relation "measure (\<lambda>(buf, p). length buf - p)") (auto simp: get_at_def split: if_splits)

declare decode_bytes.simps [simp del]

section \<open>Decimals\<close>

definition DEC_NEG_INF :: byte where "DEC_NEG_INF = 0"
definition DEC_NEG :: byte where "DEC_NEG = 1"
definition DEC_ZERO :: byte where "DEC_ZERO = 2"
definition DEC_POS :: byte where "DEC_POS = 3"
definition DEC_POS_INF :: byte where "DEC_POS_INF = 4"
definition DEC_NAN :: byte where "DEC_NAN = 5"
definition DEC_INVALID :: byte where "DEC_INVALID = 6"

lemmas dec_classes =
  DEC_NEG_INF_def DEC_NEG_def DEC_ZERO_def DEC_POS_def DEC_POS_INF_def DEC_NAN_def DEC_INVALID_def

text \<open>\<open>((exp as i32) as u32) ^ 0x8000_0000\<close>\<close>

definition bias_exp :: "int \<Rightarrow> u32" where
  "bias_exp e = word_of_int e XOR 0x80000000"

definition numeric_key_text :: "string \<Rightarrow> string" where
  "numeric_key_text s =
    (if list_ex (\<lambda>b. b = CHR ''e'' \<or> b = CHR ''E'') s
     then (case parse_numeric s of Some t \<Rightarrow> t | None \<Rightarrow> trim s)
     else canonical_numeric s)"

definition encode_numeric :: "string \<Rightarrow> bytes" where
  "encode_numeric s =
    (let c = numeric_key_text s
     in if c = ''NaN'' then [DEC_NAN]
        else if c = ''Infinity'' then [DEC_POS_INF]
        else if c = ''-Infinity'' then [DEC_NEG_INF]
        else
          let (neg, body) = (case strip_prefix CHR ''-'' c of Some rest \<Rightarrow> (True, rest) | None \<Rightarrow> (False, c));
              (int_part, frac_part) = split_point body
          in if body = [] \<or> \<not> list_all (\<lambda>b. is_ascii_digit b \<or> b = CHR ''.'') body
             then DEC_INVALID # encode_bytes (as_bytes c)
             else
               let all = int_part @ frac_part;
                   lead = length all - length (trim_start_matches CHR ''0'' all);
                   sig = trim_end_matches CHR ''0'' (trim_start_matches CHR ''0'' all)
               in if sig = [] then [DEC_ZERO]
                  else
                    let exp = int (length int_part) - int lead; biased = bias_exp exp
                    in if neg
                       then DEC_NEG # map NOT (to_be_bytes biased) @ map NOT (as_bytes sig) @ [0xff]
                       else DEC_POS # to_be_bytes biased @ as_bytes sig @ [0])"

text \<open>The digit loop of \<open>decode_numeric\<close>, with the significand read so far.\<close>

function read_sig :: "bool \<Rightarrow> bytes \<Rightarrow> nat \<Rightarrow> string \<Rightarrow> (string \<times> nat) result" where
  "read_sig neg buf p sig =
    (case get_at buf p of
       None \<Rightarrow> Err Corrupt
     | Some b \<Rightarrow>
         if b = (if neg then 0xff else 0) then Ok (sig, p + 1)
         else
           let d = (if neg then NOT b else b)
           in if \<not> is_ascii_digit (char_of_byte d) then Err Corrupt
              else let sig' = sig @ [char_of_byte d]
                   in if int (length sig') > NUMERIC_MAX_WEIGHT then Err Corrupt
                      else read_sig neg buf (p + 1) sig')"
  by auto
termination
  by (relation "measure (\<lambda>(neg, buf, p, sig). length buf - p)") (auto simp: get_at_def split: if_splits)

declare read_sig.simps [simp del]

definition decode_numeric :: "bytes \<Rightarrow> nat \<Rightarrow> (string \<times> nat) result" where
  "decode_numeric buf p =
    rbind (ok_or Corrupt (get_at buf p)) (\<lambda>cls.
    let p = p + 1
    in if cls = DEC_NAN then Ok (''NaN'', p)
       else if cls = DEC_POS_INF then Ok (''Infinity'', p)
       else if cls = DEC_NEG_INF then Ok (''-Infinity'', p)
       else if cls = DEC_ZERO then Ok (''0'', p)
       else if cls = DEC_INVALID then
         rbind (decode_bytes buf p) (\<lambda>(bs, q). rbind (from_utf8 bs) (\<lambda>s. Ok (s, q)))
       else if cls = DEC_NEG \<or> cls = DEC_POS then
         let neg = (cls = DEC_NEG)
         in rbind (ok_or Corrupt (get_range buf p (p + 4))) (\<lambda>raw.
            let b4 = (if neg then map NOT raw else raw);
                exp = sint ((from_be_bytes b4 :: u32) XOR 0x80000000)
            in rbind (read_sig neg buf (p + 4) []) (\<lambda>(sig, q).
               if sig = [] then Err Corrupt
               else if exp > NUMERIC_MAX_WEIGHT \<or> int (length sig) - exp > NUMERIC_MAX_SCALE then Err Corrupt
               else let plain = place_point sig exp
                    in Ok (if neg then CHR ''-'' # plain else plain, q)))
       else Err Corrupt)"

section \<open>Lemmas: first differences\<close>

text \<open>
  Two byte strings that differ at some position: such a comparison is not changed by what follows,
  and complementing the bytes reverses it.
\<close>

definition differ_less :: "bytes \<Rightarrow> bytes \<Rightarrow> bool" where
  "differ_less xs ys \<longleftrightarrow> (\<exists>p a b us vs. xs = p @ a # us \<and> ys = p @ b # vs \<and> a < b)"

lemma differ_less_append: "differ_less xs ys \<Longrightarrow> xs @ r < ys @ s"
  by (auto simp: differ_less_def)

lemma differ_less_context: "differ_less xs ys \<Longrightarrow> differ_less (p @ xs @ r) (p @ ys @ s)"
  unfolding differ_less_def by (metis append.assoc append_Cons)

lemma differ_lessI: "a < b \<Longrightarrow> differ_less (p @ a # us) (p @ b # vs)"
  by (auto simp: differ_less_def)

lemma not_byte_less: "(a :: byte) < b \<Longrightarrow> NOT b < NOT a"
proof -
  assume "a < b"
  have n: "unat (NOT w) = 255 - unat w" for w :: byte
  proof -
    have "NOT w = - 1 - w" by (simp add: not_eq_complement)
    also have "unat \<dots> = unat (- 1 :: byte) - unat w"
      by (intro unat_sub word_order.extremum)
    finally show ?thesis by (simp add: unsigned_minus_1_eq_mask mask_eq_exp_minus_1)
  qed
  show ?thesis
    using \<open>a < b\<close> unat_byte_less [of b] unfolding word_less_nat_alt n by linarith
qed

lemma differ_less_not: "differ_less xs ys \<Longrightarrow> differ_less (map NOT ys) (map NOT xs)"
  unfolding differ_less_def using not_byte_less by fastforce

lemma differ_less_same_length: "xs < ys \<Longrightarrow> length xs = length ys \<Longrightarrow> differ_less xs ys"
proof (induction xs arbitrary: ys)
  case (Cons x xs)
  then obtain y ys' where ys: "ys = y # ys'" by (cases ys) auto
  show ?case
  proof (cases "x < y")
    case True
    then show ?thesis
      unfolding ys using differ_lessI [of x y "[]" xs ys'] by simp
  next
    case False
    then have "x = y" "xs < ys'" using Cons.prems ys by auto
    then have "differ_less ([x] @ xs @ []) ([x] @ ys' @ [])"
      using Cons.IH [of ys'] Cons.prems ys by (intro differ_less_context) simp
    then show ?thesis
      using \<open>x = y\<close> ys by simp
  qed
qed simp

text \<open>A string closed by a byte below all of its own bytes.\<close>

lemma differ_less_terminated:
  "as < bs \<Longrightarrow> \<forall>b\<in>set bs. t < b \<Longrightarrow> \<forall>a\<in>set as. t < a \<Longrightarrow> differ_less (as @ [t]) (bs @ [t])"
proof (induction "as" arbitrary: bs)
  case Nil
  then obtain b bs' where "bs = b # bs'" by (cases bs) auto
  then show ?case
    using Nil differ_lessI [of t b "[]" "[]" "bs' @ [t]"] by simp
next
  case (Cons a as)
  then obtain b bs' where bs: "bs = b # bs'" by (cases bs) auto
  show ?case
  proof (cases "a < b")
    case True
    then show ?thesis
      unfolding bs using differ_lessI [of a b "[]" "as @ [t]" "bs' @ [t]"] by simp
  next
    case False
    then have ab: "a = b" "as < bs'" using Cons.prems(1) bs by auto
    then have "differ_less ([a] @ (as @ [t]) @ []) ([a] @ (bs' @ [t]) @ [])"
      using Cons bs by (intro differ_less_context) auto
    then show ?thesis
      using ab bs by simp
  qed
qed

section \<open>Lemmas: escaped byte strings\<close>

text \<open>What may follow an escaped string: nothing, or a byte that is not the escape.\<close>

definition key_follow :: "bytes \<Rightarrow> bool" where
  "key_follow r \<longleftrightarrow> (case r of [] \<Rightarrow> True | x # _ \<Rightarrow> x < 0xff)"

lemma key_follow_simps [simp]: "key_follow []" "key_follow (x # r) \<longleftrightarrow> x < 0xff"
  by (simp_all add: key_follow_def)

lemma encode_bytes_less:
  "a < b \<Longrightarrow> key_follow r \<Longrightarrow> encode_bytes a @ r < encode_bytes b @ s"
proof (induction a arbitrary: b)
  case Nil
  then obtain x b' where b: "b = x # b'" by (cases b) auto
  have "(0 :: byte) < x" if "x \<noteq> 0" using that by (simp add: word_neq_0_conv)
  then show ?case
    using Nil.prems(2) by (cases r) (auto simp: b)
next
  case (Cons x a)
  then obtain y b' where b: "b = y # b'" by (cases b) auto
  show ?case
  proof (cases "x = y")
    case True
    then show ?thesis
      using Cons b by auto
  next
    case False
    then have "x < y" using Cons.prems(1) b by auto
    then show ?thesis
      by (auto simp: b)
  qed
qed

lemma decode_bytes_round:
  "at_pos buf p (encode_bytes bs @ rest) \<Longrightarrow> key_follow rest
    \<Longrightarrow> decode_bytes buf p = Ok (bs, p + length (encode_bytes bs))"
proof (induction bs arbitrary: p)
  case Nil
  have at: "at_pos buf p (0 # rest)"
    using Nil.prems(1) by simp
  have "get_at buf (p + 1) \<noteq> Some 0xff"
  proof (cases rest)
    case Nil
    then show ?thesis
      using at_pos_get_at_end [of buf "Suc p"] at_pos_Suc [OF at] by simp
  next
    case (Cons x xs)
    then show ?thesis
      using at_pos_get_at [of buf "Suc p" x xs] at_pos_Suc [OF at] Nil.prems(2) by auto
  qed
  then show ?case
    using at_pos_get_at [OF at] by (simp add: decode_bytes.simps [of buf p])
next
  case (Cons b bs)
  show ?case
  proof (cases "b = 0")
    case True
    have at: "at_pos buf p (0 # 0xff # encode_bytes bs @ rest)"
      using Cons.prems(1) True by simp
    have at1: "at_pos buf (Suc p) (0xff # encode_bytes bs @ rest)"
      by (rule at_pos_Suc [OF at])
    have "decode_bytes buf (Suc (Suc p)) = Ok (bs, Suc (Suc p) + length (encode_bytes bs))"
      using at_pos_Suc [OF at1] Cons.prems(2) by (rule Cons.IH)
    then show ?thesis
      using True at_pos_get_at [OF at] at_pos_get_at [OF at1] by (simp add: decode_bytes.simps [of buf p])
  next
    case False
    have at: "at_pos buf p (b # encode_bytes bs @ rest)"
      using Cons.prems(1) False by simp
    have "decode_bytes buf (Suc p) = Ok (bs, Suc p + length (encode_bytes bs))"
      using at_pos_Suc [OF at] Cons.prems(2) by (rule Cons.IH)
    then show ?thesis
      using False at_pos_get_at [OF at] by (simp add: decode_bytes.simps [of buf p])
  qed
qed

section \<open>Lemmas: scientific form\<close>

text \<open>
  The scientific form of a decimal's significant parts: the number is \<open>0.sig * 10 ^ exp\<close>. It orders
  first by the exponent and then by the digits as a string.
\<close>

definition sci_digits :: "string \<times> string \<Rightarrow> string" where
  "sci_digits p = trim_start_matches CHR ''0'' (fst p @ snd p)"

definition sci_sig :: "string \<times> string \<Rightarrow> string" where
  "sci_sig p = trim_end_matches CHR ''0'' (sci_digits p)"

definition sci_exp :: "string \<times> string \<Rightarrow> int" where
  "sci_exp p = int (length (sci_digits p)) - int (length (snd p))"

lemma sci_digits_props:
  assumes "sig_ok p"
  shows "all_digits (sci_digits p)" "no_leading_zero (sci_digits p)" "digits_val (sci_digits p) = sig_val p"
    "sci_digits p = [] \<longleftrightarrow> sig_val p = 0"
proof -
  have d: "all_digits (fst p @ snd p)" using assms by (simp add: sig_ok_def)
  show a: "all_digits (sci_digits p)" "no_leading_zero (sci_digits p)" "digits_val (sci_digits p) = sig_val p"
    using trim_start_props [OF d] by (simp_all add: sci_digits_def sig_val_def digits_val_append)
  have "0 < digits_val (sci_digits p)" if "sci_digits p \<noteq> []"
    using less_le_trans [OF zero_less_power digits_val_lower [OF a(1,2) that]] by simp
  then show "sci_digits p = [] \<longleftrightarrow> sig_val p = 0"
    using a(3) by (cases "sci_digits p = []") auto
qed

lemma sci_sig_props:
  assumes "sig_ok p" and "sig_val p \<noteq> 0"
  shows "all_digits (sci_sig p)" "no_trailing_zero (sci_sig p)" "sci_sig p \<noteq> []"
    "\<exists>k. length (sci_digits p) = length (sci_sig p) + k \<and> sig_val p = digits_val (sci_sig p) * 10 ^ k"
proof -
  note d = sci_digits_props [OF assms(1)]
  show "all_digits (sci_sig p)" "no_trailing_zero (sci_sig p)"
    "\<exists>k. length (sci_digits p) = length (sci_sig p) + k \<and> sig_val p = digits_val (sci_sig p) * 10 ^ k"
    using trim_end_props [OF d(1)] d(3) by (simp_all add: sci_sig_def)
  then show "sci_sig p \<noteq> []"
    using assms(2) by auto
qed

lemma ord_cmp_scale: "0 < c \<Longrightarrow> ord_cmp (a * c) (b * c) = ord_cmp a (b :: int)"
  by (intro ord_cmp_mono) simp_all

lemma sci_cmp_exp:
  assumes p: "sig_ok p" "sig_val p \<noteq> 0" and q: "sig_ok q" "sig_val q \<noteq> 0" and less: "sci_exp p < sci_exp q"
  shows "sig_val p * 10 ^ length (snd q) < sig_val q * 10 ^ length (snd p)"
proof -
  note dp = sci_digits_props [OF p(1)] and dq = sci_digits_props [OF q(1)]
  let ?m = "length (sci_digits p)" and ?n = "length (sci_digits q)"
  have n: "1 \<le> ?n" using dq(4) q(2) by (cases "sci_digits q") auto
  have "sig_val p < 10 ^ ?m"
    using digits_val_less [OF dp(1)] dp(3) by simp
  then have "sig_val p * 10 ^ length (snd q) < 10 ^ ?m * 10 ^ length (snd q)"
    by simp
  also have "\<dots> = 10 ^ (?m + length (snd q))"
    by (simp add: power_add)
  also have "\<dots> \<le> 10 ^ (?n - 1 + length (snd p))"
    using less n by (intro power_increasing) (simp_all add: sci_exp_def)
  also have "\<dots> = 10 ^ (?n - 1) * 10 ^ length (snd p)"
    by (simp add: power_add)
  also have "\<dots> \<le> sig_val q * 10 ^ length (snd p)"
    using digits_val_lower [OF dq(1,2)] dq(3,4) q(2) by (intro mult_right_mono) simp_all
  finally show ?thesis .
qed

lemma sci_cmp:
  assumes p: "sig_ok p" "sig_val p \<noteq> 0" and q: "sig_ok q" "sig_val q \<noteq> 0"
  shows "ord_cmp (sig_val p * 10 ^ length (snd q)) (sig_val q * 10 ^ length (snd p))
    = ord_then (ord_cmp (sci_exp p) (sci_exp q)) (str_cmp (sci_sig p) (sci_sig q))"
proof (cases "sci_exp p" "sci_exp q" rule: linorder_cases)
  case less
  then show ?thesis
    using sci_cmp_exp [OF p q] by (simp add: ord_cmp_def)
next
  case greater
  then show ?thesis
    using sci_cmp_exp [OF q p] by (simp add: ord_cmp_def)
next
  case equal
  obtain j where j: "length (sci_digits p) = length (sci_sig p) + j" "sig_val p = digits_val (sci_sig p) * 10 ^ j"
    using sci_sig_props(4) [OF p] by blast
  obtain k where k: "length (sci_digits q) = length (sci_sig q) + k" "sig_val q = digits_val (sci_sig q) * 10 ^ k"
    using sci_sig_props(4) [OF q] by blast
  let ?A = "digits_val (sci_sig p)" and ?B = "digits_val (sci_sig q)"
    and ?m = "length (sci_sig p)" and ?n = "length (sci_sig q)"
    and ?f = "length (snd p)" and ?g = "length (snd q)"
  have e: "?m + j + ?g = ?n + k + ?f"
    using equal j(1) k(1) by (simp add: sci_exp_def)
  have "ord_cmp (sig_val p * 10 ^ ?g) (sig_val q * 10 ^ ?f)
      = ord_cmp (sig_val p * 10 ^ ?g * 10 ^ (?m + ?n)) (sig_val q * 10 ^ ?f * 10 ^ (?m + ?n))"
    by (rule ord_cmp_scale [symmetric]) simp
  also have "sig_val p * 10 ^ ?g * 10 ^ (?m + ?n) = ?A * 10 ^ ?n * 10 ^ (?m + j + ?g)"
    unfolding j(2) by (simp add: power_add)
  also have "sig_val q * 10 ^ ?f * 10 ^ (?m + ?n) = ?B * 10 ^ ?m * 10 ^ (?m + j + ?g)"
    unfolding e k(2) by (simp add: power_add)
  also have "ord_cmp (?A * 10 ^ ?n * 10 ^ (?m + j + ?g)) (?B * 10 ^ ?m * 10 ^ (?m + j + ?g)) = ord_cmp (?A * 10 ^ ?n) (?B * 10 ^ ?m)"
    by (rule ord_cmp_scale) simp
  also have "\<dots> = str_cmp (sci_sig p) (sci_sig q)"
    using sci_sig_props [OF p] sci_sig_props [OF q] by (intro frac_cmp [symmetric])
  finally show ?thesis
    using equal by simp
qed

section \<open>Lemmas: what \<open>encode_numeric\<close> writes\<close>

text \<open>The bytes of a finite non-zero number, by sign, exponent and digits.\<close>

definition sci_code :: "int \<Rightarrow> string \<Rightarrow> bytes" where
  "sci_code e sig = to_be_bytes (bias_exp e) @ as_bytes sig @ [0]"

definition dec_code :: "bool \<Rightarrow> string \<times> string \<Rightarrow> bytes" where
  "dec_code neg p =
    (if sig_val p = 0 then [DEC_ZERO]
     else if neg then DEC_NEG # map NOT (sci_code (sci_exp p) (sci_sig p))
     else DEC_POS # sci_code (sci_exp p) (sci_sig p))"

lemma strip_prefix_numeral:
  assumes "all_digits i" "all_digits f"
  shows "strip_prefix CHR ''-'' (numeral_text neg i f) = (if neg then Some (numeral_text False i f) else None)"
proof -
  define j where "j = (if i = [] then ''0'' else i)"
  have "all_digits j" "j \<noteq> []" using assms by (simp_all add: j_def)
  then obtain c r where c: "j = c # r" "is_ascii_digit c" by (cases j) auto
  then have "c \<noteq> CHR ''-''" by auto
  then show ?thesis
    using c by (cases neg) (simp_all add: numeral_text_def strip_prefix_def flip: j_def)
qed

lemma trim_start_zero: "trim_start_matches CHR ''0'' (''0'' @ s) = trim_start_matches CHR ''0'' s"
  by (simp add: trim_start_matches_def)

lemma numeral_text_not_word:
  assumes "all_digits i" "all_digits f"
  shows "numeral_text neg i f \<noteq> ''NaN''" "numeral_text neg i f \<noteq> ''Infinity''" "numeral_text neg i f \<noteq> ''-Infinity''"
proof -
  have "plain (numeral_text neg i f)" by (rule numeral_text_plain(1) [OF assms])
  moreover have "\<not> plain ''NaN''" "\<not> plain ''Infinity''" "\<not> plain ''-Infinity''"
    using plain_not_special [of "''NaN''"] plain_not_special [of "''Infinity''"] plain_not_special [of "''-Infinity''"]
    by (auto simp: numeric_special_rank_def)
  ultimately show "numeral_text neg i f \<noteq> ''NaN''" "numeral_text neg i f \<noteq> ''Infinity''" "numeral_text neg i f \<noteq> ''-Infinity''"
    by metis+
qed

lemma numeral_text_body:
  assumes "all_digits i" "all_digits f"
  shows "numeral_text False i f \<noteq> []" "list_all (\<lambda>b. is_ascii_digit b \<or> b = CHR ''.'') (numeral_text False i f)"
  using assms by (auto simp: numeral_text_def all_digits_def list_all_iff)

lemma encode_numeral:
  assumes c: "numeric_key_text s = numeral_text neg (fst p) (snd p)" and p: "sig_ok p"
  shows "encode_numeric s = dec_code neg p"
proof -
  have d: "all_digits (fst p)" "all_digits (snd p)" using p by (simp_all add: sig_ok_def)
  define j where "j = (if fst p = [] then ''0'' else fst p)"
  have t: "trim_start_matches CHR ''0'' (j @ snd p) = sci_digits p"
    by (simp add: j_def sci_digits_def trim_start_zero [simplified])
  have sg: "sci_sig p = [] \<longleftrightarrow> sig_val p = 0"
    using sci_sig_props(3) [OF p] sci_digits_props(4) [OF p]
    by (cases "sig_val p = 0") (auto simp: sci_sig_def trim_end_matches_def)
  have le: "length (sci_digits p) \<le> length (j @ snd p)"
    unfolding t [symmetric] by (rule length_trim_start)
  have e: "int (length j) - int (length j + length (snd p) - length (sci_digits p)) = sci_exp p"
    using le by (simp add: sci_exp_def)
  show ?thesis
    unfolding encode_numeric_def Let_def c
    using numeral_text_not_word [OF d, of neg] numeral_text_body [OF d]
    by (simp add: strip_prefix_numeral [OF d] numeral_text_parts(2) [OF d] t e sg dec_code_def sci_code_def
        flip: j_def sci_sig_def)
qed

section \<open>Lemmas: order\<close>

text \<open>Flipping the top bit of a word is what turns the signed order into the unsigned one.\<close>

lemma xor_top:
  fixes w :: "'a::len word"
  shows "w XOR 2 ^ (LENGTH('a) - 1) = w + 2 ^ (LENGTH('a) - 1)"
proof -
  let ?t = "2 ^ (LENGTH('a) - 1) :: 'a word"
  have add: "v XOR ?t = v + ?t" if "\<not> bit v (LENGTH('a) - 1)" for v :: "'a word"
  proof -
    have "v AND ?t = 0"
      using that by (intro bit_eqI) (auto simp: bit_simps)
    then show ?thesis by (simp add: disjunctive_add_eq_xor)
  qed
  show ?thesis
  proof (cases "bit w (LENGTH('a) - 1)")
    case True
    define v where "v = w XOR ?t"
    have "\<not> bit v (LENGTH('a) - 1)"
      using True by (simp add: v_def bit_simps)
    then have "w = v + ?t"
      using add [of v] by (simp add: v_def xor.assoc)
    moreover have "?t + ?t = 0"
    proof -
      have "?t + ?t = 2 ^ LENGTH('a)"
        by (metis Suc_pred' len_gt_0 mult_2 power_Suc)
      then show ?thesis by simp
    qed
    ultimately show ?thesis
      by (metis add.assoc add.right_neutral v_def)
  qed (rule add)
qed

lemma uint_xor_top:
  fixes w :: "'a::len word"
  shows "uint (w XOR 2 ^ (LENGTH('a) - 1)) = sint w + 2 ^ (LENGTH('a) - 1)"
proof -
  obtain n where n: "LENGTH('a) = Suc n" using len_gt_0 [where 'a = 'a] gr0_implies_Suc by blast
  have "uint (w + 2 ^ n) = take_bit (Suc n) (uint w + uint (2 ^ n :: 'a word))"
    by (simp add: uint_word_ariths(1) take_bit_eq_mod n)
  also have "uint (2 ^ n :: 'a word) = 2 ^ n"
    using n by (intro uint_2p) (simp add: exp_eq_zero_iff flip: word_neq_0_conv)
  finally have "uint (w + 2 ^ n) = signed_take_bit n (uint w) + 2 ^ n"
    by (simp add: signed_take_bit_eq_take_bit_shift)
  then show ?thesis
    using xor_top [of w] by (simp add: n sint_uint)
qed

lemma bias_exp_less:
  assumes "- (2 ^ 31) \<le> e" "e < 2 ^ 31" "- (2 ^ 31) \<le> e'" "e' < 2 ^ 31"
  shows "bias_exp e < bias_exp e' \<longleftrightarrow> e < e'"
proof -
  have u: "uint (bias_exp e) = e + 2 ^ 31" if "- (2 ^ 31) \<le> e" "e < 2 ^ 31" for e
  proof -
    have "sint (word_of_int e :: u32) = e"
      using that by (simp add: signed_of_int signed_take_bit_int_eq_self)
    then show ?thesis
      using uint_xor_top [of "word_of_int e :: u32"] by (simp add: bias_exp_def)
  qed
  show ?thesis
    using assms by (simp add: word_less_alt u)
qed

lemma digit_bytes_pos: "all_digits s \<Longrightarrow> \<forall>b\<in>set (as_bytes s). 0 < b"
proof
  fix b assume "all_digits s" "b \<in> set (as_bytes s)"
  then obtain c where c: "b = byte_of_char c" "is_ascii_digit c"
    by (auto simp: as_bytes_def all_digits_def list_all_iff)
  have "b \<noteq> 0"
  proof
    assume "b = 0"
    then have "of_char (char_of_byte b) = (0 :: nat)" by (simp add: char_of_byte_def)
    then have "(of_char c :: nat) = 0" using c by simp
    then show False using c by (simp add: is_ascii_digit_def)
  qed
  then show "0 < b" by (simp add: word_neq_0_conv)
qed

lemma sci_code_less:
  assumes "- (2 ^ 31) \<le> e" "e < 2 ^ 31" "- (2 ^ 31) \<le> e'" "e' < 2 ^ 31" "all_digits s" "all_digits s'"
    and less: "ord_then (ord_cmp e e') (str_cmp s s') = Less"
  shows "differ_less (sci_code e s) (sci_code e' s')"
proof (cases "e < e'")
  case True
  then have "to_be_bytes (bias_exp e) < to_be_bytes (bias_exp e')"
    using bias_exp_less [OF assms(1-4)] by simp
  then have "differ_less ([] @ to_be_bytes (bias_exp e) @ (as_bytes s @ [0])) ([] @ to_be_bytes (bias_exp e') @ (as_bytes s' @ [0]))"
    by (intro differ_less_context differ_less_same_length) simp_all
  then show ?thesis by (simp add: sci_code_def)
next
  case False
  then have e: "e = e'" and "as_bytes s < as_bytes s'"
    using less by (auto simp: ord_then_def str_cmp_def split: if_splits)
  then have "differ_less (to_be_bytes (bias_exp e) @ (as_bytes s @ [0]) @ []) (to_be_bytes (bias_exp e') @ (as_bytes s' @ [0]) @ [])"
    unfolding e using digit_bytes_pos assms(5,6) by (intro differ_less_context differ_less_terminated) auto
  then show ?thesis by (simp add: sci_code_def)
qed

definition exp_ok :: "string \<times> string \<Rightarrow> bool" where
  "exp_ok p \<longleftrightarrow> - (2 ^ 31) \<le> sci_exp p \<and> sci_exp p < 2 ^ 31"

text \<open>The signed number times a common scale.\<close>

definition dec_scaled :: "bool \<Rightarrow> string \<times> string \<Rightarrow> string \<times> string \<Rightarrow> int" where
  "dec_scaled neg p q = (if neg then - 1 else 1) * sig_val p * 10 ^ length (snd q)"

definition dec_sign :: "bool \<Rightarrow> string \<times> string \<Rightarrow> byte" where
  "dec_sign neg p = (if sig_val p = 0 then DEC_ZERO else if neg then DEC_NEG else DEC_POS)"

lemma dec_code_sign: "dec_code neg p = dec_sign neg p # tl (dec_code neg p)"
  by (simp add: dec_code_def dec_sign_def)

lemma dec_scaled_sign:
  assumes "sig_ok p"
  shows "dec_scaled neg p q < 0 \<longleftrightarrow> dec_sign neg p = DEC_NEG" "dec_scaled neg p q = 0 \<longleftrightarrow> dec_sign neg p = DEC_ZERO"
    "0 < dec_scaled neg p q \<longleftrightarrow> dec_sign neg p = DEC_POS"
proof -
  have "0 \<le> sig_val p" by (rule sig_val_nonneg [OF assms])
  then consider "sig_val p = 0" | "0 < sig_val p" by linarith
  then show "dec_scaled neg p q < 0 \<longleftrightarrow> dec_sign neg p = DEC_NEG" "dec_scaled neg p q = 0 \<longleftrightarrow> dec_sign neg p = DEC_ZERO"
    "0 < dec_scaled neg p q \<longleftrightarrow> dec_sign neg p = DEC_POS"
    by (cases; simp add: dec_scaled_def dec_sign_def dec_classes zero_less_mult_iff mult_less_0_iff)+
qed

lemma dec_sign_cases: "dec_sign neg p = DEC_NEG \<or> dec_sign neg p = DEC_ZERO \<or> dec_sign neg p = DEC_POS"
  by (simp add: dec_sign_def)

lemma dec_code_less:
  assumes p: "sig_ok p" "exp_ok p" and q: "sig_ok q" "exp_ok q"
    and less: "dec_scaled m p q < dec_scaled n q p"
  shows "differ_less (dec_code m p) (dec_code n q)"
proof (cases "dec_sign m p = dec_sign n q")
  case False
  then have "dec_sign m p < dec_sign n q"
    using less dec_scaled_sign [OF p(1), of m q] dec_scaled_sign [OF q(1), of n p]
      dec_sign_cases [of m p] dec_sign_cases [of n q]
    by (elim disjE) (auto simp: dec_classes)
  then have "differ_less ([] @ dec_sign m p # tl (dec_code m p)) ([] @ dec_sign n q # tl (dec_code n q))"
    by (rule differ_lessI)
  then show ?thesis
    by (simp flip: dec_code_sign)
next
  case True
  then have nz: "sig_val p \<noteq> 0" "sig_val q \<noteq> 0" and mn: "m = n"
    using less by (auto simp: dec_sign_def dec_scaled_def dec_classes split: if_splits)
  note sp = sci_sig_props(1) [OF p(1) nz(1)] and sq = sci_sig_props(1) [OF q(1) nz(2)]
  note b = p(2) [unfolded exp_ok_def] q(2) [unfolded exp_ok_def]
  show ?thesis
  proof (cases n)
    case True
    then have "sig_val q * 10 ^ length (snd p) < sig_val p * 10 ^ length (snd q)"
      using less mn by (simp add: dec_scaled_def)
    then have "differ_less (sci_code (sci_exp q) (sci_sig q)) (sci_code (sci_exp p) (sci_sig p))"
      using sci_cmp [OF q(1) nz(2) p(1) nz(1)] b sp sq by (intro sci_code_less) (simp_all flip: ord_cmp_iffs)
    then have "differ_less ([DEC_NEG] @ map NOT (sci_code (sci_exp p) (sci_sig p)) @ []) ([DEC_NEG] @ map NOT (sci_code (sci_exp q) (sci_sig q)) @ [])"
      by (intro differ_less_context differ_less_not)
    then show ?thesis
      using True mn nz by (simp add: dec_code_def)
  next
    case False
    then have "sig_val p * 10 ^ length (snd q) < sig_val q * 10 ^ length (snd p)"
      using less mn by (simp add: dec_scaled_def)
    then have "differ_less (sci_code (sci_exp p) (sci_sig p)) (sci_code (sci_exp q) (sci_sig q))"
      using sci_cmp [OF p(1) nz(1) q(1) nz(2)] b sp sq by (intro sci_code_less) (simp_all flip: ord_cmp_iffs)
    then have "differ_less ([DEC_POS] @ sci_code (sci_exp p) (sci_sig p) @ []) ([DEC_POS] @ sci_code (sci_exp q) (sci_sig q) @ [])"
      by (intro differ_less_context)
    then show ?thesis
      using False mn nz by (simp add: dec_code_def)
  qed
qed

lemma dec_code_equal:
  assumes p: "sig_ok p" and q: "sig_ok q" and eq: "dec_scaled m p q = dec_scaled n q p"
  shows "dec_code m p = dec_code n q"
proof (cases "sig_val p = 0")
  case True
  then have "sig_val q = 0" using eq by (auto simp: dec_scaled_def split: if_splits)
  then show ?thesis using True by (simp add: dec_code_def)
next
  case False
  have sgn: "dec_sign m p = dec_sign n q"
    using eq dec_scaled_sign [OF p, of m q] dec_scaled_sign [OF q, of n p] dec_sign_cases [of m p] by metis
  then have nz: "sig_val q \<noteq> 0" and mn: "m = n"
    using False by (auto simp: dec_sign_def dec_classes split: if_splits)
  then have "sig_val p * 10 ^ length (snd q) = sig_val q * 10 ^ length (snd p)"
    using eq by (auto simp: dec_scaled_def split: if_splits)
  then have "ord_then (ord_cmp (sci_exp p) (sci_exp q)) (str_cmp (sci_sig p) (sci_sig q)) = Equal"
    using sci_cmp [OF p False q nz] by simp
  then have "sci_exp p = sci_exp q" "sci_sig p = sci_sig q"
    by (auto simp: ord_then_def str_cmp_Equal_iff split: if_splits)
  then show ?thesis
    using mn False nz by (simp add: dec_code_def)
qed

text \<open>
  The decimals whose key is a number's: a plain decimal (of less than \<open>2 ^ 31\<close> digits, so that the
  exponent's \<open>as i32\<close> loses nothing) or one of the three special values.
\<close>

definition num_ok :: "string \<Rightarrow> bool" where
  "num_ok s \<longleftrightarrow> numeric_special_rank s \<noteq> None \<or> plain s \<and> length s < 2 ^ 31"

lemma plain_no_exponent:
  assumes "plain s"
  shows "numeric_key_text s = canonical_numeric s"
proof -
  obtain neg body where nb: "split_sign s = (neg, body)" by fastforce
  obtain i f where p: "split_point body = (i, f)" by fastforce
  have "\<forall>c\<in>set body. is_ascii_digit c \<or> c = CHR ''.''"
    using assms split_point_cases [OF p] by (auto simp: plain_def nb p all_digits_def list_all_iff)
  then have "\<forall>c\<in>set body. c \<noteq> CHR ''e'' \<and> c \<noteq> CHR ''E''"
    by (auto simp: is_ascii_digit_def)
  moreover have "set s \<subseteq> {CHR ''+'', CHR ''-''} \<union> set body"
    using split_sign_cases [OF nb] by (elim disjE conjE; simp) auto
  ultimately have "\<not> list_ex (\<lambda>b. b = CHR ''e'' \<or> b = CHR ''E'') s"
    unfolding list_ex_iff by fastforce
  then show ?thesis
    unfolding numeric_key_text_def by (rule if_not_P)
qed

lemma sci_exp_bounds:
  "- int (length (snd p)) \<le> sci_exp p \<and> sci_exp p \<le> int (length (fst p))"
  using length_trim_start [of "CHR ''0''" "fst p @ snd p"] by (simp add: sci_exp_def sci_digits_def)

lemma significant_length:
  "length (fst (split_significant s)) + length (snd (split_significant s)) \<le> length s"
proof -
  obtain i f where p: "split_point s = (i, f)" by fastforce
  have "length i + length f \<le> length s"
    using split_point_cases [OF p] by auto
  moreover have "length (trim_end_matches c f) \<le> length f" for c
    using length_dropWhile_le [of "\<lambda>x. x = c" "rev f"] by (simp add: trim_end_matches_def)
  ultimately show ?thesis
    using length_trim_start [of "CHR ''0''" i] by (simp add: split_significant_def p) (meson add_le_mono order_trans)
qed

lemma num_ok_code:
  assumes "plain s" and "length s < 2 ^ 31"
  obtains neg p k where "sig_ok p" "exp_ok p" "encode_numeric s = dec_code neg p"
    "dec_num s = ((if neg then - 1 else 1) * sig_val p * 10 ^ k, length (snd p) + k)"
proof -
  obtain neg body where nb: "split_sign s = (neg, body)" by fastforce
  define p where "p = split_significant body"
  obtain k where ok: "sig_ok p" and d: "dec_num s = ((if neg then - 1 else 1) * sig_val p * 10 ^ k, length (snd p) + k)"
    using plain_sig [OF assms(1)] by (auto simp: nb p_def)
  have c: "numeric_key_text s = numeral_text (neg \<and> sig_val p \<noteq> 0) (fst p) (snd p)"
    unfolding plain_no_exponent [OF assms(1)]
    using canonical_numeric_plain [OF assms(1)] by (simp add: nb p_def Let_def)
  have "length body \<le> length s"
    using split_sign_cases [OF nb] by auto
  then have "exp_ok p"
    using sci_exp_bounds [of p] significant_length [of body] assms(2) by (simp add: exp_ok_def p_def)
  moreover have "dec_num s = ((if neg \<and> sig_val p \<noteq> 0 then - 1 else 1) * sig_val p * 10 ^ k, length (snd p) + k)"
    using d by simp
  ultimately show thesis
    using that ok encode_numeral [OF c ok] by blast
qed

lemma special_key_text:
  assumes "t \<in> {''NaN'', ''Infinity'', ''-Infinity''}"
  shows "numeric_key_text t = t"
proof -
  have "trim t = t"
    using assms by (intro trim_graphic) (auto simp: graphic_def)
  then show ?thesis
    using assms by (auto simp: numeric_key_text_def canonical_numeric_def split_sign_def strip_prefix_def is_ascii_digit_def)
qed

lemma encode_special:
  "encode_numeric ''NaN'' = [DEC_NAN]" "encode_numeric ''Infinity'' = [DEC_POS_INF]"
  "encode_numeric ''-Infinity'' = [DEC_NEG_INF]"
  by (simp_all add: encode_numeric_def special_key_text)

lemma numeric_special_cases:
  assumes "numeric_special_rank s = Some r"
  obtains "s = ''-Infinity''" "r = 0" | "s = ''Infinity''" "r = 3" | "s = ''NaN''" "r = 4"
  using assms by (auto simp: numeric_special_rank_def split: if_splits)

lemma plain_cmp_scaled:
  assumes "plain a" "plain b"
    and "dec_num a = ((if m then - 1 else 1) * sig_val p * 10 ^ j, length (snd p) + j)"
    and "dec_num b = ((if n then - 1 else 1) * sig_val q * 10 ^ k, length (snd q) + k)"
  shows "numeric_cmp a b = ord_cmp (dec_scaled m p q) (dec_scaled n q p)"
  unfolding numeric_cmp_plain [OF assms(1,2)] assms(3,4) dec_cmp_scale
  by (simp add: dec_cmp_def dec_scaled_def)

lemma special_code:
  assumes "numeric_special_rank s = Some r"
  shows "encode_numeric s = [if r = 0 then DEC_NEG_INF else if r = 3 then DEC_POS_INF else DEC_NAN]"
  using assms by (rule numeric_special_cases) (simp_all add: encode_special)

lemma plain_code_head:
  assumes "plain s" and "length s < 2 ^ 31"
  obtains c r where "encode_numeric s = c # r" "DEC_NEG_INF < c" "c < DEC_POS_INF"
proof -
  obtain neg p where "encode_numeric s = dec_code neg p"
    using num_ok_code [OF assms] by metis
  then show thesis
    using that [of "dec_sign neg p"] dec_code_sign [of neg p] by (simp add: dec_sign_def dec_classes split: if_splits)
qed

lemma differ_less_hd: "a < b \<Longrightarrow> differ_less (a # xs) (b # ys)"
  using differ_lessI [of a b "[]"] by simp

lemma encode_numeric_less:
  assumes a: "num_ok a" and b: "num_ok b" and less: "numeric_cmp a b = Less"
  shows "differ_less (encode_numeric a) (encode_numeric b)"
proof (cases "numeric_special_rank a")
  case None
  note ra = None
  then have pa: "plain a" "length a < 2 ^ 31" using a by (simp_all add: num_ok_def)
  show ?thesis
  proof (cases "numeric_special_rank b")
    case None
    then have pb: "plain b" "length b < 2 ^ 31" using b by (simp_all add: num_ok_def)
    obtain m p j where p: "sig_ok p" "exp_ok p" "encode_numeric a = dec_code m p"
      "dec_num a = ((if m then - 1 else 1) * sig_val p * 10 ^ j, length (snd p) + j)"
      using num_ok_code [OF pa] by metis
    obtain n q k where q: "sig_ok q" "exp_ok q" "encode_numeric b = dec_code n q"
      "dec_num b = ((if n then - 1 else 1) * sig_val q * 10 ^ k, length (snd q) + k)"
      using num_ok_code [OF pb] by metis
    have "dec_scaled m p q < dec_scaled n q p"
      using less plain_cmp_scaled [OF pa(1) pb(1) p(4) q(4)] by simp
    then show ?thesis
      unfolding p(3) q(3) using p q by (intro dec_code_less)
  next
    case (Some r)
    then have "r = 3 \<or> r = 4" using ra less by (auto simp: numeric_cmp_def elim: numeric_special_cases)
    moreover obtain c x where c: "encode_numeric a = c # x" "c < DEC_POS_INF"
      using plain_code_head [OF pa] by metis
    moreover have "c < DEC_NAN"
      using c(2) by (rule less_trans) (simp add: dec_classes)
    ultimately show ?thesis
      using special_code [OF Some] by (auto intro: differ_less_hd)
  qed
next
  case (Some r)
  note ra = Some
  show ?thesis
  proof (cases "numeric_special_rank b")
    case None
    then have "r = 0" using ra less by (auto simp: numeric_cmp_def elim: numeric_special_cases)
    moreover have "plain b" "length b < 2 ^ 31" using b None by (simp_all add: num_ok_def)
    ultimately show ?thesis
      using plain_code_head [of b] special_code [OF ra] by (metis differ_less_hd)
  next
    case (Some t)
    then have "r < t" using ra less by (simp add: numeric_cmp_def)
    then show ?thesis
      unfolding special_code [OF ra] special_code [OF Some]
      by (intro differ_less_hd) (use ra Some in \<open>auto simp: dec_classes elim!: numeric_special_cases\<close>)
  qed
qed

lemma encode_numeric_equal:
  assumes a: "num_ok a" and b: "num_ok b" and eq: "numeric_cmp a b = Equal"
  shows "encode_numeric a = encode_numeric b"
proof (cases "numeric_special_rank a = None \<and> numeric_special_rank b = None")
  case True
  then have pa: "plain a" "length a < 2 ^ 31" and pb: "plain b" "length b < 2 ^ 31"
    using a b by (simp_all add: num_ok_def)
  obtain m p j where p: "sig_ok p" "encode_numeric a = dec_code m p"
    "dec_num a = ((if m then - 1 else 1) * sig_val p * 10 ^ j, length (snd p) + j)"
    using num_ok_code [OF pa] by metis
  obtain n q k where q: "sig_ok q" "encode_numeric b = dec_code n q"
    "dec_num b = ((if n then - 1 else 1) * sig_val q * 10 ^ k, length (snd q) + k)"
    using num_ok_code [OF pb] by metis
  have "dec_scaled m p q = dec_scaled n q p"
    using eq plain_cmp_scaled [OF pa(1) pb(1) p(3) q(3)] by simp
  then show ?thesis
    unfolding p(2) q(2) by (rule dec_code_equal [OF p(1) q(1)])
next
  case False
  then show ?thesis
    using eq by (cases "numeric_special_rank a"; cases "numeric_special_rank b")
      (auto simp: numeric_cmp_def elim!: numeric_special_cases)
qed

section \<open>Lemmas: decoding\<close>

lemma trim_end_id: "no_trailing_zero s \<Longrightarrow> trim_end_matches CHR ''0'' s = s"
  by (cases s rule: rev_cases) (auto simp: trim_end_matches_def no_trailing_zero_def)

lemma place_point_fill:
  "0 < n \<Longrightarrow> length ds \<le> n \<Longrightarrow> place_point ds (int n) = ds @ replicate (n - length ds) CHR ''0''"
  by (simp add: place_point_def)

lemma place_point_sci:
  assumes "sig_ok p" and "sig_val p \<noteq> 0"
  shows "place_point (sci_sig p) (sci_exp p) = numeral_text False (fst p) (snd p)"
proof (cases "fst p = []")
  case True
  let ?f = "snd p" and ?t = "trim_start_matches CHR ''0'' (snd p)"
  obtain k where k: "?f = replicate k CHR ''0'' @ ?t" using trim_start_parts by blast
  have f: "no_trailing_zero ?f" "?t \<noteq> []" "?f \<noteq> []"
    using assms True sci_digits_props(4) [OF assms(1)] by (auto simp: sig_ok_def sci_digits_def sig_val_def)
  have "no_trailing_zero ?t"
    using f k unfolding no_trailing_zero_def by (metis last_appendR)
  then have sig: "sci_sig p = ?t"
    using True by (simp add: sci_sig_def sci_digits_def trim_end_id)
  have "length ?f = k + length ?t"
    using arg_cong [OF k, of length] by simp
  then have exp: "sci_exp p = - int k"
    using True by (simp add: sci_exp_def sci_digits_def)
  show ?thesis
    using True f k by (simp add: sig exp place_point_def numeral_text_def)
next
  case False
  let ?i = "fst p" and ?f = "snd p"
  have i: "no_leading_zero ?i" "no_trailing_zero ?f" using assms(1) by (simp_all add: sig_ok_def)
  then have "no_leading_zero (?i @ ?f)" using False by (simp add: no_leading_zero_def)
  then have d: "sci_digits p = ?i @ ?f" by (simp add: sci_digits_def trim_start_id)
  have exp: "sci_exp p = int (length ?i)" by (simp add: sci_exp_def d)
  have pos: "0 < length ?i" using False by simp
  show ?thesis
  proof (cases "?f = []")
    case True
    obtain k where k: "?i = trim_end_matches CHR ''0'' ?i @ replicate k CHR ''0''"
      using trim_end_matches_parts by blast
    have sig: "sci_sig p = trim_end_matches CHR ''0'' ?i" by (simp add: sci_sig_def d True)
    have l: "length ?i = length (sci_sig p) + k"
      using arg_cong [OF k, of length] by (simp add: sig)
    have "place_point (sci_sig p) (int (length ?i)) = sci_sig p @ replicate (length ?i - length (sci_sig p)) CHR ''0''"
      by (rule place_point_fill) (use pos l in auto)
    then have "place_point (sci_sig p) (sci_exp p) = ?i"
      using k l by (simp only: exp sig) simp
    then show ?thesis using True False by (simp add: numeral_text_def)
  next
    case fne: False
    then have "no_trailing_zero (?i @ ?f)" using i(2) by (simp add: no_trailing_zero_def)
    then have "sci_sig p = ?i @ ?f" by (simp add: sci_sig_def d trim_end_id)
    then show ?thesis
      using pos fne False by (simp add: place_point_def exp numeral_text_def)
  qed
qed

text \<open>The digits as they stand in the buffer, complemented for a negative number.\<close>

definition flip_if :: "bool \<Rightarrow> bytes \<Rightarrow> bytes" where
  "flip_if neg bs = (if neg then map NOT bs else bs)"

lemma minus_one_byte: "(- 1 :: byte) = 0xff"
  by simp

lemma not_eq_ff: "NOT (b :: byte) = 0xff \<longleftrightarrow> b = 0"
proof -
  have "(0xff :: byte) = NOT 0" by simp
  then show ?thesis by (simp only: bit.compl_eq_compl_iff)
qed

lemma read_sig_round:
  assumes "all_digits ds" and "int (length sig + length ds) \<le> NUMERIC_MAX_WEIGHT"
    and "at_pos buf p (flip_if neg (as_bytes ds @ [0]) @ rest)"
  shows "read_sig neg buf p sig = Ok (sig @ ds, p + length ds + 1)"
  using assms
proof (induction ds arbitrary: p sig)
  case Nil
  have "get_at buf p = Some (if neg then 0xff else 0)"
    using Nil.prems(3) at_pos_get_at [of buf p "if neg then 0xff else 0" rest] by (simp add: flip_if_def minus_one_byte split: if_splits)
  then show ?case
    by (simp add: read_sig.simps [of neg buf p])
next
  case (Cons c ds)
  let ?b = "if neg then NOT (byte_of_char c) else byte_of_char c"
  have at: "at_pos buf p (?b # flip_if neg (as_bytes ds @ [0]) @ rest)"
    using Cons.prems(3) by (simp add: flip_if_def split: if_splits)
  have "byte_of_char c \<noteq> 0"
    using digit_bytes_pos [OF Cons.prems(1)] by auto
  then have nt: "?b \<noteq> (if neg then 0xff else 0)"
    by (simp add: not_eq_ff)
  have "read_sig neg buf (p + 1) (sig @ [c]) = Ok ((sig @ [c]) @ ds, p + 1 + length ds + 1)"
    using Cons.prems at_pos_Suc [OF at] by (intro Cons.IH) simp_all
  moreover have "char_of_byte (if neg then NOT ?b else ?b) = c" by simp
  moreover have "is_ascii_digit c" "int (length (sig @ [c])) \<le> NUMERIC_MAX_WEIGHT"
    using Cons.prems by simp_all
  ultimately show ?case
    using at_pos_get_at [OF at] nt
    by (simp only: read_sig.simps [of neg buf p sig] option.case if_False Let_def) simp
qed

lemma sint_bias_exp:
  assumes "- (2 ^ 31) \<le> e" "e < 2 ^ 31"
  shows "sint (bias_exp e XOR 0x80000000) = e"
proof -
  have "bias_exp e XOR 0x80000000 = (word_of_int e :: u32)"
    by (simp add: bias_exp_def xor.assoc)
  then show ?thesis
    using assms by (simp add: signed_of_int signed_take_bit_int_eq_self)
qed

text \<open>
  The decimals that a key gives back as they were: the special values, and canonical decimals of at
  most as many characters as the smaller of the parser's two bounds.
\<close>

definition canonical_key :: "string \<Rightarrow> bool" where
  "canonical_key s \<longleftrightarrow> numeric_special_rank s \<noteq> None
    \<or> plain s \<and> canonical_numeric s = s \<and> int (length s) \<le> NUMERIC_MAX_SCALE"

lemma decode_dec_code:
  assumes p: "sig_ok p" "exp_ok p" and len: "int (length (fst p) + length (snd p)) \<le> NUMERIC_MAX_SCALE"
    and neg: "neg \<longrightarrow> sig_val p \<noteq> 0" and at: "at_pos buf pos (dec_code neg p @ rest)"
  shows "decode_numeric buf pos = Ok (numeral_text neg (fst p) (snd p), pos + length (dec_code neg p))"
proof (cases "sig_val p = 0")
  case True
  then have "numeral_text neg (fst p) (snd p) = ''0''"
    using sig_val_0_iff [OF p(1)] neg by (simp add: numeral_text_def)
  then show ?thesis
    using True at at_pos_get_at [of buf pos DEC_ZERO rest]
    by (simp add: decode_numeric_def dec_code_def dec_classes)
next
  case False
  note sg = sci_sig_props [OF p(1) False]
  let ?img = "flip_if neg (to_be_bytes (bias_exp (sci_exp p)))" and ?ds = "flip_if neg (as_bytes (sci_sig p) @ [0])"
  have code: "dec_code neg p = (if neg then DEC_NEG else DEC_POS) # ?img @ ?ds"
    using False by (simp add: dec_code_def sci_code_def flip_if_def)
  have at0: "at_pos buf pos ((if neg then DEC_NEG else DEC_POS) # ?img @ ?ds @ rest)"
    using at by (simp add: code)
  have at1: "at_pos buf (Suc pos) (?img @ ?ds @ rest)"
    by (rule at_pos_Suc [OF at0])
  have li: "length ?img = 4" by (simp add: flip_if_def)
  have at2: "at_pos buf (Suc pos + 4) (?ds @ rest)"
    by (rule at_pos_add [OF at1 li])
  obtain k where k: "length (sci_digits p) = length (sci_sig p) + k" using sg(4) by blast
  have sl: "length (sci_digits p) \<le> length (fst p) + length (snd p)"
    using length_trim_start [of "CHR ''0''" "fst p @ snd p"] by (simp add: sci_digits_def)
  have w: "NUMERIC_MAX_SCALE < NUMERIC_MAX_WEIGHT"
    by (simp add: NUMERIC_MAX_SCALE_def NUMERIC_MAX_WEIGHT_def)
  have rs: "read_sig neg buf (Suc pos + 4) [] = Ok (sci_sig p, Suc pos + 4 + length (sci_sig p) + 1)"
    using read_sig_round [OF sg(1) _ at2, of "[]"] k sl len w by simp
  have ex: "\<not> (sci_exp p > NUMERIC_MAX_WEIGHT \<or> int (length (sci_sig p)) - sci_exp p > NUMERIC_MAX_SCALE)"
    using sci_exp_bounds [of p] k len w by (simp add: sci_exp_def)
  have raw: "get_range buf (Suc pos) (Suc pos + 4) = Some ?img"
    by (rule at_pos_get_range [OF at1 li])
  have cls: "DEC_POS \<noteq> DEC_NEG" by (simp add: dec_classes)
  have cls': "DEC_NEG \<noteq> c" "DEC_POS \<noteq> c"
    if "c \<in> {DEC_NAN, DEC_POS_INF, DEC_NEG_INF, DEC_ZERO, DEC_INVALID}" for c
    using that by (auto simp: dec_classes)
  have nt: "numeral_text neg (fst p) (snd p) = (if neg then CHR ''-'' # place_point (sci_sig p) (sci_exp p) else place_point (sci_sig p) (sci_exp p))"
    unfolding place_point_sci [OF p(1) False] by (simp add: numeral_text_def)
  show ?thesis
    unfolding decode_numeric_def at_pos_get_at [OF at0] nt code
    using rs ex sg(3) raw p(2) sint_bias_exp [of "sci_exp p"]
    by (cases neg) (simp_all add: exp_ok_def flip_if_def Let_def comp_def cls cls')
qed

lemma decode_numeric_round:
  assumes "canonical_key s" and at: "at_pos buf pos (encode_numeric s @ rest)"
  shows "decode_numeric buf pos = Ok (s, pos + length (encode_numeric s))"
proof (cases "numeric_special_rank s")
  case (Some r)
  then show ?thesis
    by (rule numeric_special_cases)
      (use at at_pos_get_at [of buf pos] in \<open>simp_all add: encode_special decode_numeric_def dec_classes\<close>)
next
  case None
  then have pl: "plain s" and c: "canonical_numeric s = s" and len: "int (length s) \<le> NUMERIC_MAX_SCALE"
    using assms(1) by (simp_all add: canonical_key_def)
  obtain neg body where nb: "split_sign s = (neg, body)" by fastforce
  define p where "p = split_significant body"
  define n where "n = (neg \<and> sig_val p \<noteq> 0)"
  have ok: "sig_ok p" using plain_sig [OF pl] by (auto simp: nb p_def)
  have s: "s = numeral_text n (fst p) (snd p)"
    using canonical_numeric_plain [OF pl] c by (simp add: nb p_def n_def Let_def)
  have code: "encode_numeric s = dec_code n p"
    using plain_no_exponent [OF pl] c s ok by (intro encode_numeral) simp_all
  have "length body \<le> length s"
    using split_sign_cases [OF nb] by auto
  then have l: "int (length (fst p) + length (snd p)) \<le> NUMERIC_MAX_SCALE"
    using significant_length [of body] len by (simp add: p_def)
  then have "exp_ok p"
    using sci_exp_bounds [of p] by (simp add: exp_ok_def NUMERIC_MAX_SCALE_def)
  then have "decode_numeric buf pos = Ok (numeral_text n (fst p) (snd p), pos + length (dec_code n p))"
    using at ok l by (intro decode_dec_code [of p n buf pos rest]) (simp_all add: code n_def)
  then show ?thesis
    using s code by simp
qed

end
