(* ===== verification/Keycode.thy ===== *)
theory Keycode
  imports Numeric_Key
begin

unbundle bit_operations_syntax

text \<open>
  The memcmp-ordered key codec (\<open>mpedb-types/src/keycode.rs\<close>): the typed encoding of a rigidly typed
  column, the storage-class encoding of an \<open>any\<close> column and of grouping keys, the injective identity
  key, and their decoders. The append-to-buffer functions of the code are functions to the bytes they
  append; a list value, whose arm is \<open>unreachable!\<close>, gives \<open>Panic\<close>.
\<close>

section \<open>The typed encoding\<close>

definition TAG_NULL :: byte where "TAG_NULL = 0"
definition TAG_PRESENT :: byte where "TAG_PRESENT = 1"

text \<open>\<open>((x as u64) ^ (1 << 63)).to_be_bytes()\<close>\<close>

definition int_image :: "i64 \<Rightarrow> bytes" where
  "int_image x = to_be_bytes (x XOR push_bit 63 1)"

definition float_image :: "f64 \<Rightarrow> bytes" where
  "float_image x = to_be_bytes (normalize_float_bits x)"

definition bool_byte :: "bool \<Rightarrow> byte" where
  "bool_byte x = (if x then 1 else 0)"

definition encode_value :: "Value \<Rightarrow> bytes result" where
  "encode_value v = (case v of
     VNull \<Rightarrow> Ok [TAG_NULL]
   | VInt x \<Rightarrow> Ok (TAG_PRESENT # int_image x)
   | VTimestamp x \<Rightarrow> Ok (TAG_PRESENT # int_image x)
   | VDate x \<Rightarrow> Ok (TAG_PRESENT # int_image x)
   | VTime x \<Rightarrow> Ok (TAG_PRESENT # int_image x)
   | VNumeric n \<Rightarrow> Ok (TAG_PRESENT # encode_numeric n)
   | VFloat x \<Rightarrow> Ok (TAG_PRESENT # float_image x)
   | VBool x \<Rightarrow> Ok [TAG_PRESENT, bool_byte x]
   | VText s \<Rightarrow> Ok (TAG_PRESENT # encode_bytes (as_bytes s))
   | VBlob b \<Rightarrow> Ok (TAG_PRESENT # encode_bytes b)
   | VList _ \<Rightarrow> Err Panic)"

definition encode_value_collated :: "Value \<Rightarrow> Collation \<Rightarrow> bytes result" where
  "encode_value_collated v coll = (case v of
     VText s \<Rightarrow> if coll \<noteq> Binary then Ok (TAG_PRESENT # encode_bytes (as_bytes (fold_key coll s)))
                else encode_value v
   | _ \<Rightarrow> encode_value v)"

text \<open>The loop over the values of a composite key.\<close>

fun encode_each :: "('v \<Rightarrow> bytes result) \<Rightarrow> 'v list \<Rightarrow> bytes result" where
  "encode_each enc [] = Ok []"
| "encode_each enc (v # vs) = rbind (enc v) (\<lambda>b. rbind (encode_each enc vs) (\<lambda>bs. Ok (b @ bs)))"

text \<open>\<open>settings.get(i).copied().unwrap_or(default)\<close> for the \<open>i\<close>-th value.\<close>

fun zip_default :: "'s \<Rightarrow> 'v list \<Rightarrow> 's list \<Rightarrow> ('v \<times> 's) list" where
  "zip_default d [] ss = []"
| "zip_default d (v # vs) [] = (v, d) # zip_default d vs []"
| "zip_default d (v # vs) (s # ss) = (v, s) # zip_default d vs ss"

definition encode_key :: "Value list \<Rightarrow> bytes result" where
  "encode_key vs = encode_each encode_value vs"

definition encode_key_collated :: "Value list \<Rightarrow> Collation list \<Rightarrow> bytes result" where
  "encode_key_collated vs colls = encode_each (\<lambda>(v, c). encode_value_collated v c) (zip_default Binary vs colls)"

section \<open>The storage-class encoding\<close>

definition CLASS_NULL :: byte where "CLASS_NULL = 0"
definition CLASS_NUM :: byte where "CLASS_NUM = 1"
definition CLASS_TEXT :: byte where "CLASS_TEXT = 2"
definition CLASS_BLOB :: byte where "CLASS_BLOB = 3"
definition CLASS_BOOL :: byte where "CLASS_BOOL = 4"
definition CLASS_TS :: byte where "CLASS_TS = 5"
definition CLASS_DATE :: byte where "CLASS_DATE = 6"
definition CLASS_TIME :: byte where "CLASS_TIME = 7"
definition CLASS_NUMERIC :: byte where "CLASS_NUMERIC = 8"

lemmas class_tags = CLASS_NULL_def CLASS_NUM_def CLASS_TEXT_def CLASS_BLOB_def CLASS_BOOL_def
  CLASS_TS_def CLASS_DATE_def CLASS_TIME_def CLASS_NUMERIC_def

definition NUM_BELOW :: byte where "NUM_BELOW = 0"
definition NUM_EXACT :: byte where "NUM_EXACT = 1"
definition NUM_ABOVE :: byte where "NUM_ABOVE = 2"
definition NUM_NAN :: byte where "NUM_NAN = 3"

lemmas num_tags = NUM_BELOW_def NUM_EXACT_def NUM_ABOVE_def NUM_NAN_def

definition i64_max :: i64 where "i64_max = 0x7fffffffffffffff"
definition i64_min :: i64 where "i64_min = 0x8000000000000000"

text \<open>
  \<open>f.floor()\<close> of a float inside the range of \<open>i64\<close> is a float again, so \<open>fl as i64\<close> is that integer and
  \<open>fl == f\<close> says that the number is it.
\<close>

definition floor_val :: "f64 \<Rightarrow> int" where
  "floor_val f = fix_val f div fix_one"

definition encode_number :: "Value \<Rightarrow> bytes result" where
  "encode_number v = (case v of
     VInt i \<Rightarrow> Ok (int_image i @ [NUM_EXACT])
   | VFloat f \<Rightarrow>
       Ok (if is_nan f then int_image i64_max @ NUM_NAN # float_image f
           else if \<not> f_less f f64_two63 then int_image i64_max @ NUM_ABOVE # float_image f
           else if f_less f f64_minus_two63 then int_image i64_min @ NUM_BELOW # float_image f
           else let i = word_of_int (floor_val f)
                in int_image i @ (if floor_val f * fix_one = fix_val f then [NUM_EXACT]
                                  else NUM_ABOVE # float_image f))
   | _ \<Rightarrow> Err Panic)"

definition encode_group_value :: "Value \<Rightarrow> Collation \<Rightarrow> bytes result" where
  "encode_group_value v coll = (case v of
     VNull \<Rightarrow> Ok [CLASS_NULL]
   | VInt _ \<Rightarrow> rbind (encode_number v) (\<lambda>b. Ok (CLASS_NUM # b))
   | VFloat _ \<Rightarrow> rbind (encode_number v) (\<lambda>b. Ok (CLASS_NUM # b))
   | VText s \<Rightarrow> Ok (CLASS_TEXT # encode_bytes (as_bytes (fold_key coll s)))
   | VBlob b \<Rightarrow> Ok (CLASS_BLOB # encode_bytes b)
   | VBool x \<Rightarrow> Ok [CLASS_BOOL, bool_byte x]
   | VTimestamp x \<Rightarrow> Ok (CLASS_TS # int_image x)
   | VDate x \<Rightarrow> Ok (CLASS_DATE # int_image x)
   | VTime x \<Rightarrow> Ok (CLASS_TIME # int_image x)
   | VNumeric n \<Rightarrow> Ok (CLASS_NUMERIC # encode_numeric n)
   | VList _ \<Rightarrow> Err Panic)"

definition encode_group_key :: "Value list \<Rightarrow> Collation list \<Rightarrow> bytes result" where
  "encode_group_key vs colls = encode_each (\<lambda>(v, c). encode_group_value v c) (zip_default Binary vs colls)"

section \<open>Key specifications\<close>

record KeySpec =
  coll :: Collation
  class_mode :: bool

definition default_spec :: KeySpec where
  "default_spec = \<lparr>coll = Binary, class_mode = False\<rparr>"

definition for_column :: "ColumnType \<Rightarrow> Collation \<Rightarrow> KeySpec" where
  "for_column ty c = \<lparr>coll = c, class_mode = (ty = AnyT)\<rparr>"

definition is_plain :: "KeySpec \<Rightarrow> bool" where
  "is_plain spec \<longleftrightarrow> coll spec = Binary \<and> \<not> class_mode spec"

definition encode_value_spec :: "Value \<Rightarrow> KeySpec \<Rightarrow> bytes result" where
  "encode_value_spec v spec =
    (if class_mode spec then encode_group_value v (coll spec) else encode_value_collated v (coll spec))"

definition encode_key_spec :: "Value list \<Rightarrow> KeySpec list \<Rightarrow> bytes result" where
  "encode_key_spec vs specs = encode_each (\<lambda>(v, s). encode_value_spec v s) (zip_default default_spec vs specs)"

definition encode_key_exact :: "Value list \<Rightarrow> bytes result" where
  "encode_key_exact vs = encode_each (\<lambda>v. rbind (encode_value v) (\<lambda>b.
     Ok ((case column_type v of None \<Rightarrow> 0 | Some t \<Rightarrow> type_tag t) # b))) vs"

section \<open>Decoding\<close>

definition take8 :: "bytes \<Rightarrow> nat \<Rightarrow> (u64 \<times> nat) result" where
  "take8 buf p = rbind (ok_or Corrupt (get_range buf p (p + 8))) (\<lambda>raw. Ok (from_be_bytes raw, p + 8))"

text \<open>\<open>if n >> 63 == 1 { n & !(1 << 63) } else { !n }\<close>\<close>

definition image_bits :: "u64 \<Rightarrow> f64" where
  "image_bits n = (if drop_bit 63 n = 1 then n AND NOT (push_bit 63 1) else NOT n)"

definition decode_bool :: "bytes \<Rightarrow> nat \<Rightarrow> (Value \<times> nat) result" where
  "decode_bool buf p = rbind (ok_or Corrupt (get_at buf p)) (\<lambda>b.
     if b = 0 then Ok (VBool False, p + 1) else if b = 1 then Ok (VBool True, p + 1) else Err Corrupt)"

definition decode_text :: "bytes \<Rightarrow> nat \<Rightarrow> (Value \<times> nat) result" where
  "decode_text buf p = rbind (decode_bytes buf p) (\<lambda>(bs, q). rbind (from_utf8 bs) (\<lambda>s. Ok (VText s, q)))"

definition decode_group_value :: "bytes \<Rightarrow> nat \<Rightarrow> (Value \<times> nat) result" where
  "decode_group_value buf p0 = rbind (ok_or Corrupt (get_at buf p0)) (\<lambda>cls.
    let p = p0 + 1
    in if cls = CLASS_NULL then Ok (VNull, p)
       else if cls = CLASS_NUM then
         rbind (take8 buf p) (\<lambda>(n, q).
         rbind (ok_or Corrupt (get_at buf q)) (\<lambda>sub.
           if sub = NUM_EXACT then Ok (VInt (n XOR push_bit 63 1), q + 1)
           else if sub = NUM_BELOW \<or> sub = NUM_ABOVE \<or> sub = NUM_NAN
             then rbind (take8 buf (q + 1)) (\<lambda>(m, r). Ok (VFloat (image_bits m), r))
           else Err Corrupt))
       else if cls = CLASS_TEXT then decode_text buf p
       else if cls = CLASS_BLOB then rbind (decode_bytes buf p) (\<lambda>(bs, q). Ok (VBlob bs, q))
       else if cls = CLASS_BOOL then decode_bool buf p
       else if cls = CLASS_TS then rbind (take8 buf p) (\<lambda>(n, q). Ok (VTimestamp (n XOR push_bit 63 1), q))
       else Err Corrupt)"

definition decode_value :: "ColumnType \<Rightarrow> bytes \<Rightarrow> nat \<Rightarrow> (Value \<times> nat) result" where
  "decode_value ty buf p0 =
    (if ty = AnyT then decode_group_value buf p0
     else rbind (ok_or Corrupt (get_at buf p0)) (\<lambda>tag.
       let p = p0 + 1
       in if tag = TAG_NULL then Ok (VNull, p)
          else if tag \<noteq> TAG_PRESENT then Err Corrupt
          else case ty of
            AnyT \<Rightarrow> Err Panic
          | Int64T \<Rightarrow> rbind (take8 buf p) (\<lambda>(n, q). Ok (VInt (n XOR push_bit 63 1), q))
          | TimestampT \<Rightarrow> rbind (take8 buf p) (\<lambda>(n, q). Ok (VTimestamp (n XOR push_bit 63 1), q))
          | DateT \<Rightarrow> rbind (take8 buf p) (\<lambda>(n, q). Ok (VDate (n XOR push_bit 63 1), q))
          | TimeT \<Rightarrow> rbind (take8 buf p) (\<lambda>(n, q). Ok (VTime (n XOR push_bit 63 1), q))
          | NumericT \<Rightarrow> rbind (decode_numeric buf p) (\<lambda>(s, q). Ok (VNumeric s, q))
          | Float64T \<Rightarrow> rbind (take8 buf p) (\<lambda>(n, q). Ok (VFloat (image_bits n), q))
          | BoolT \<Rightarrow> decode_bool buf p
          | TextT \<Rightarrow> decode_text buf p
          | BlobT \<Rightarrow> rbind (decode_bytes buf p) (\<lambda>(bs, q). Ok (VBlob bs, q))))"

definition decode_key :: "bytes \<Rightarrow> ColumnType list \<Rightarrow> Value list result" where
  "decode_key buf types = rbind (decode_each decode_value types buf 0) (\<lambda>(vs, p).
     if p \<noteq> length buf then Err Corrupt else Ok vs)"

section \<open>Specification: the order of keys\<close>

text \<open>
  The order the encodings promise: NULL first, then the storage classes in their order, inside a
  class SQL's comparison with text compared by the column's collation. A typed column holds one
  class, so the same order serves both encodings.
\<close>

definition key_class :: "Value \<Rightarrow> byte" where
  "key_class v = (case v of VNull \<Rightarrow> CLASS_NULL | VInt _ \<Rightarrow> CLASS_NUM | VFloat _ \<Rightarrow> CLASS_NUM
    | VText _ \<Rightarrow> CLASS_TEXT | VBlob _ \<Rightarrow> CLASS_BLOB | VBool _ \<Rightarrow> CLASS_BOOL | VTimestamp _ \<Rightarrow> CLASS_TS
    | VDate _ \<Rightarrow> CLASS_DATE | VTime _ \<Rightarrow> CLASS_TIME | VNumeric _ \<Rightarrow> CLASS_NUMERIC | VList _ \<Rightarrow> 9)"

definition same_class_cmp :: "Collation \<Rightarrow> Value \<Rightarrow> Value \<Rightarrow> ordering" where
  "same_class_cmp c v w = (case sql_cmp_collated v w c of Inr (Some r) \<Rightarrow> r | _ \<Rightarrow> Equal)"

definition key_cmp :: "Collation \<Rightarrow> Value \<Rightarrow> Value \<Rightarrow> ordering" where
  "key_cmp c v w = ord_then (ord_cmp (key_class v) (key_class w)) (same_class_cmp c v w)"

text \<open>What may be keyed: no list, and decimals that are numbers (see \<open>num_ok\<close>).\<close>

definition keyable :: "Value \<Rightarrow> bool" where
  "keyable v \<longleftrightarrow> (case v of VList _ \<Rightarrow> False | VNumeric s \<Rightarrow> num_ok s | _ \<Rightarrow> True)"

section \<open>Lemmas: images\<close>

lemma length_images [simp]: "length (int_image x) = 8" "length (float_image y) = 8"
  by (simp_all add: int_image_def float_image_def)

lemma int_image_less: "int_image a < int_image b \<longleftrightarrow> sint a < sint b"
proof -
  have "uint (x XOR push_bit 63 1) = sint x + 2 ^ 63" for x :: i64
    using uint_xor_top [of x] by (simp add: push_bit_eq_mult)
  then show ?thesis
    by (simp add: int_image_def word_less_alt)
qed

lemma int_image_equal: "sint a = sint b \<Longrightarrow> int_image a = int_image b"
  by (drule word_eq_iff_signed [THEN iffD2]) simp

lemma float_image_less: "float_image a < float_image b \<longleftrightarrow> normalize_float_bits a < normalize_float_bits b"
  by (simp add: float_image_def)

lemma append_less: "xs < ys \<Longrightarrow> length xs = length ys \<Longrightarrow> xs @ r < ys @ (s :: bytes)"
  by (rule differ_less_append [OF differ_less_same_length])

lemma int_image_append_less: "sint a < sint b \<Longrightarrow> int_image a @ r < int_image b @ s"
  by (intro append_less) (simp_all add: int_image_less)

lemma float_image_append_less: "float_total_cmp a b = Less \<Longrightarrow> float_image a @ r < float_image b @ s"
  by (intro append_less) (simp_all add: float_image_less float_total_cmp_def)

section \<open>Lemmas: numbers of both types\<close>

text \<open>The number a value is, with NaN above everything, and the three parts of its key.\<close>

definition num_val :: "Value \<Rightarrow> bool \<times> int" where
  "num_val v = (case v of VInt i \<Rightarrow> (False, sint i * fix_one)
    | VFloat f \<Rightarrow> (if is_nan f then (True, 0) else (False, fix_val f)) | _ \<Rightarrow> (False, 0))"

definition num_parts :: "Value \<Rightarrow> i64 \<times> byte \<times> f64" where
  "num_parts v = (case v of VInt i \<Rightarrow> (i, NUM_EXACT, 0)
   | VFloat f \<Rightarrow>
       if is_nan f then (i64_max, NUM_NAN, f)
       else if \<not> f_less f f64_two63 then (i64_max, NUM_ABOVE, f)
       else if f_less f f64_minus_two63 then (i64_min, NUM_BELOW, f)
       else (word_of_int (floor_val f), if floor_val f * fix_one = fix_val f then NUM_EXACT else NUM_ABOVE, f)
   | _ \<Rightarrow> (0, 0, 0))"

definition is_number :: "Value \<Rightarrow> bool" where
  "is_number v \<longleftrightarrow> (case v of VInt _ \<Rightarrow> True | VFloat _ \<Rightarrow> True | _ \<Rightarrow> False)"

definition number_code :: "Value \<Rightarrow> bytes" where
  "number_code v = (let (i, sub, f) = num_parts v
     in int_image i @ sub # (if sub = NUM_EXACT then [] else float_image f))"

lemma encode_number_parts: "is_number v \<Longrightarrow> encode_number v = Ok (number_code v)"
  by (cases v) (simp_all add: is_number_def encode_number_def number_code_def num_parts_def num_tags Let_def)

text \<open>How the parts pin the number down.\<close>

definition pinned :: "bool \<times> int \<Rightarrow> int \<Rightarrow> byte \<Rightarrow> bool" where
  "pinned x i sub \<longleftrightarrow> - (2 ^ 63) \<le> i \<and> i \<le> 2 ^ 63 - 1 \<and>
    (if fst x then snd x = 0 \<and> sub = NUM_NAN \<and> i = 2 ^ 63 - 1
     else sub = NUM_BELOW \<and> i = - (2 ^ 63) \<and> snd x < i * fix_one
       \<or> sub = NUM_EXACT \<and> snd x = i * fix_one
       \<or> sub = NUM_ABOVE \<and> i * fix_one < snd x \<and> (i < 2 ^ 63 - 1 \<longrightarrow> snd x < (i + 1) * fix_one))"

lemma one_le_fix_one: "1 \<le> fix_one"
  using fix_one_pos by linarith

lemma floor_bounds:
  "floor_val f * fix_one \<le> fix_val f" "fix_val f < (floor_val f + 1) * fix_one"
  using div_mult_mod_eq [of "fix_val f" fix_one] pos_mod_bound [OF fix_one_pos, of "fix_val f"]
    pos_mod_sign [OF fix_one_pos, of "fix_val f"]
  by (simp_all only: floor_val_def distrib_right mult_1)

lemma i64_extremes: "sint i64_max = 2 ^ 63 - 1" "sint i64_min = - (2 ^ 63)"
  by (simp_all add: i64_max_def i64_min_def)

lemma num_parts_pinned:
  assumes "is_number v"
  shows "pinned (num_val v) (sint (fst (num_parts v))) (fst (snd (num_parts v)))"
proof (cases v)
  case (VInt i)
  then show ?thesis
    using sint_range [of i] by (simp add: num_val_def num_parts_def pinned_def num_tags)
next
  case (VFloat f)
  show ?thesis
  proof (cases "is_nan f \<or> \<not> f_less f f64_two63 \<or> f_less f f64_minus_two63")
    case True
    show ?thesis
      using True one_le_fix_one by (auto simp: VFloat num_val_def num_parts_def pinned_def i64_extremes f_less_def f64_two63_fields num_tags)
  next
    case False
    then have r: "\<not> is_nan f" "- (2 ^ 63) * fix_one \<le> fix_val f" "fix_val f < 2 ^ 63 * fix_one"
      by (auto simp: f_less_def f64_two63_fields)
    have "- (2 ^ 63) < floor_val f + 1"
      using order.strict_trans1 [OF r(2) floor_bounds(2)]
      by (rule mult_less_cancel_right_pos [OF fix_one_pos, THEN iffD1])
    moreover have "floor_val f < 2 ^ 63"
      using order.strict_trans1 [OF floor_bounds(1) r(3)] fix_one_pos by simp
    ultimately have "- (2 ^ 63) \<le> floor_val f" "floor_val f \<le> 2 ^ 63 - 1" "sint (word_of_int (floor_val f) :: i64) = floor_val f"
      by (simp_all add: sint_word_of_int)
    then show ?thesis
      using False r(1) floor_bounds [of f]
      by (auto simp: VFloat num_val_def num_parts_def pinned_def num_tags)
  qed
qed (use assms in \<open>simp_all add: is_number_def\<close>)

text \<open>Pinned numbers order by the integer, then by the tag, then by the number itself.\<close>

lemma pinned_less:
  assumes v: "pinned x i a" and w: "pinned y j b" and less: "x < y"
  shows "i < j \<or> i = j \<and> a < b \<or> i = j \<and> a = b \<and> a \<noteq> NUM_EXACT \<and> \<not> fst x \<and> \<not> fst y"
proof -
  have nx: "\<not> fst x" and xy: "fst y \<or> snd x < snd y"
    using less v w by (auto simp: pinned_def less_prod_def less_prod_def' split: if_splits)
  have one: "1 \<le> fix_one" by (rule one_le_fix_one)
  consider "i < j" | "i = j" | "j < i" by linarith
  then show ?thesis
  proof cases
    case 3
    then have ny: "\<not> fst y" and yj: "snd y < (j + 1) * fix_one"
      using v w one by (auto simp: pinned_def distrib_right split: if_splits)
    have "(j + 1) * fix_one \<le> i * fix_one"
      using 3 one by (intro mult_right_mono) simp_all
    moreover have "i * fix_one \<le> snd x"
      using v w 3 nx by (auto simp: pinned_def)
    ultimately show ?thesis
      using xy ny yj by linarith
  next
    case 2
    then show ?thesis
      using v w nx xy by (auto simp: pinned_def num_tags split: if_splits)
  qed simp
qed

lemma pinned_equal:
  assumes v: "pinned x i a" and w: "pinned x j b"
  shows "i = j \<and> a = b"
proof (cases "fst x")
  case False
  have one: "1 \<le> fix_one" by (rule one_le_fix_one)
  have lo: "p * fix_one \<le> snd x \<Longrightarrow> snd x < (q + 1) * fix_one \<Longrightarrow> p \<le> q" for p q
    using mult_less_cancel_right_pos [OF fix_one_pos, of p "q + 1"] by linarith
  consider "snd x < - (2 ^ 63) * fix_one" | "2 ^ 63 * fix_one \<le> snd x" | "- (2 ^ 63) * fix_one \<le> snd x" "snd x < 2 ^ 63 * fix_one"
    by linarith
  then show ?thesis
  proof cases
    case 1
    have "k = - (2 ^ 63) \<and> c = NUM_BELOW" if "pinned x k c" for k c
    proof -
      have "- (2 ^ 63) \<le> k" using that by (simp add: pinned_def)
      then have "- (2 ^ 63) * fix_one \<le> k * fix_one"
        using one by (intro mult_right_mono) simp_all
      then show ?thesis
        using that 1 False by (auto simp: pinned_def)
    qed
    then show ?thesis using v w by blast
  next
    case 2
    have "k = 2 ^ 63 - 1 \<and> c = NUM_ABOVE" if "pinned x k c" for k c
    proof -
      have "k + 1 \<le> 2 ^ 63" using that by (simp add: pinned_def)
      then have "(k + 1) * fix_one \<le> 2 ^ 63 * fix_one"
        using one by (intro mult_right_mono) simp_all
      then have "\<not> snd x < (k + 1) * fix_one" "\<not> k < 2 ^ 63 - 1 \<longrightarrow> k = 2 ^ 63 - 1" "k * fix_one < snd x"
        using that 2 one by (simp_all only: distrib_right mult_1) (simp_all add: pinned_def)
      then show ?thesis
        using that 2 False by (auto simp: pinned_def)
    qed
    then show ?thesis using v w by blast
  next
    case 3
    have b: "k * fix_one \<le> snd x \<and> snd x < (k + 1) * fix_one \<and> (c = NUM_EXACT \<longleftrightarrow> snd x = k * fix_one) \<and> (c = NUM_EXACT \<or> c = NUM_ABOVE)"
      if "pinned x k c" for k c
      using that 3 False one by (cases "k < 2 ^ 63 - 1") (auto simp: pinned_def num_tags distrib_right)
    have "i = j"
      using lo b [OF v] b [OF w] by (meson order_antisym)
    then show ?thesis
      using b [OF v] b [OF w] by metis
  qed
qed (use v w in \<open>simp add: pinned_def\<close>)

lemma number_cmp:
  assumes "is_number v" "is_number w"
  shows "same_class_cmp c v w = ord_cmp (num_val v) (num_val w)"
  using assms one_le_fix_one
  by (cases v; cases w)
    (auto simp: is_number_def same_class_cmp_def sql_cmp_collated_def sql_cmp_def num_val_def icmp_def
      int_float_cmp_exact float_total_cmp_exact ord_cmp_def less_prod_def less_prod_def'
      ord_cmp_tail)

lemma number_code_less:
  assumes "is_number v" "is_number w" and less: "num_val v < num_val w"
  shows "number_code v @ r < number_code w @ s"
proof -
  obtain i a f where v: "num_parts v = (i, a, f)" using prod_cases3 by blast
  obtain j b g where w: "num_parts w = (j, b, g)" using prod_cases3 by blast
  note pv = num_parts_pinned [OF assms(1), unfolded v fst_conv snd_conv]
    and pw = num_parts_pinned [OF assms(2), unfolded w fst_conv snd_conv]
  note l = pinned_less [OF pv pw less]
  show ?thesis
  proof (cases "sint i < sint j")
    case True
    then show ?thesis
      by (simp add: number_code_def v w int_image_append_less)
  next
    case False
    then have "sint i = sint j" using l by blast
    then have ij: "i = j" by (rule word_eq_iff_signed [THEN iffD2])
    show ?thesis
    proof (cases "a < b")
      case True
      then show ?thesis by (simp add: number_code_def v w ij)
    next
      case nab: False
      then have ab: "a = b" "a \<noteq> NUM_EXACT" and nn: "\<not> fst (num_val v)" "\<not> fst (num_val w)"
        using l False by auto
      have fv: "v = VFloat f" "\<not> is_nan f"
        using assms(1) v ab(2) nn(1) by (cases v; auto simp: is_number_def num_parts_def num_val_def split: if_splits)+
      have fw: "w = VFloat g" "\<not> is_nan g"
        using assms(2) w ab nn(2) by (cases w; auto simp: is_number_def num_parts_def num_val_def split: if_splits)+
      have "fix_val f < fix_val g"
        using less by (simp add: fv fw num_val_def)
      then have "float_image f @ r < float_image g @ s"
        using fv fw by (intro append_less) (simp_all add: float_image_less normalize_less_iff)
      then show ?thesis
        using ab by (simp add: number_code_def v w ij)
    qed
  qed
qed

lemma number_code_equal:
  assumes "is_number v" "is_number w" and eq: "num_val v = num_val w"
  shows "number_code v = number_code w"
proof -
  obtain i a f where v: "num_parts v = (i, a, f)" using prod_cases3 by blast
  obtain j b g where w: "num_parts w = (j, b, g)" using prod_cases3 by blast
  note pv = num_parts_pinned [OF assms(1), unfolded v fst_conv snd_conv eq]
    and pw = num_parts_pinned [OF assms(2), unfolded w fst_conv snd_conv]
  have ij: "sint i = sint j" and ab: "a = b" using pinned_equal [OF pv pw] by auto
  then have "i = j" by (intro word_eq_iff_signed [THEN iffD2])
  moreover have "float_image f = float_image g" if "a \<noteq> NUM_EXACT"
  proof -
    have "v = VFloat f"
      using assms(1) v that by (cases v; auto simp: is_number_def num_parts_def split: if_splits)
    moreover have "w = VFloat g"
      using assms(2) w that ab by (cases w; auto simp: is_number_def num_parts_def split: if_splits)
    ultimately have "normalize_float_bits f = normalize_float_bits g"
      using eq by (auto simp: num_val_def normalize_eq_iff split: if_splits)
    then show ?thesis by (simp add: float_image_def)
  qed
  ultimately show ?thesis
    using ab by (simp add: number_code_def v w)
qed

section \<open>Lemmas: the key code\<close>

text \<open>The bytes of one value under one specification.\<close>

definition spec_code :: "KeySpec \<times> Value \<Rightarrow> bytes" where
  "spec_code sv = (case encode_value_spec (snd sv) (fst sv) of Inr b \<Rightarrow> b | Inl _ \<Rightarrow> [])"

definition spec_cmp :: "KeySpec \<times> Value \<Rightarrow> KeySpec \<times> Value \<Rightarrow> ordering" where
  "spec_cmp a b = key_cmp (coll (fst a)) (snd a) (snd b)"

text \<open>A value a column of type \<open>ty\<close> and collation \<open>c\<close> may hold, under that column's specification.\<close>

definition column_ok :: "ColumnType \<times> Collation \<Rightarrow> KeySpec \<times> Value \<Rightarrow> bool" where
  "column_ok tc sv \<longleftrightarrow> fst sv = for_column (fst tc) (snd tc) \<and> fits (snd sv) (fst tc) \<and> keyable (snd sv)"

text \<open>The payload after the first byte, and its order among values of one class.\<close>

fun payload :: "Collation \<Rightarrow> Value \<Rightarrow> bytes" where
  "payload c (VText s) = encode_bytes (as_bytes (fold_key c s))"
| "payload c (VBlob b) = encode_bytes b"
| "payload c (VBool x) = [bool_byte x]"
| "payload c (VTimestamp x) = int_image x"
| "payload c (VDate x) = int_image x"
| "payload c (VTime x) = int_image x"
| "payload c (VNumeric n) = encode_numeric n"
| "payload c _ = []"

definition typed_payload :: "Collation \<Rightarrow> Value \<Rightarrow> bytes" where
  "typed_payload c v = (case v of VInt x \<Rightarrow> int_image x | VFloat x \<Rightarrow> float_image x | _ \<Rightarrow> payload c v)"

definition class_payload :: "Collation \<Rightarrow> Value \<Rightarrow> bytes" where
  "class_payload c v = (if is_number v then number_code v else payload c v)"

lemma typed_code:
  "\<not> is_list v \<Longrightarrow> encode_value_collated v c = Ok (if v = VNull then [TAG_NULL] else TAG_PRESENT # typed_payload c v)"
  by (cases v; cases c) (simp_all add: encode_value_collated_def encode_value_def typed_payload_def is_list_def)

lemma class_code:
  "\<not> is_list v \<Longrightarrow> encode_group_value v c = Ok (key_class v # class_payload c v)"
  by (cases v) (simp_all add: encode_group_value_def class_payload_def key_class_def is_number_def
      encode_number_parts is_list_def)

lemma keyable_not_list: "keyable v \<Longrightarrow> \<not> is_list v"
  by (cases v) (simp_all add: keyable_def is_list_def)

lemma payload_less:
  assumes "keyable v" "keyable w" "key_class v = key_class w" "\<not> is_number v"
    and "same_class_cmp c v w = Less" "key_follow r"
  shows "payload c v @ r < payload c w @ s"
  using assms
  by (cases v; cases w)
    (auto simp: keyable_def key_class_def class_tags is_number_def same_class_cmp_def sql_cmp_collated_def
      sql_cmp_def compare_str_fold icmp_def bool_cmp_def bool_byte_def
      intro!: encode_bytes_less int_image_append_less differ_less_append [OF encode_numeric_less])

lemma payload_equal:
  assumes "keyable v" "keyable w" "key_class v = key_class w" "\<not> is_number v" "same_class_cmp c v w = Equal"
  shows "payload c v = payload c w"
  using assms
  by (cases v; cases w)
    (auto simp: keyable_def key_class_def class_tags is_number_def same_class_cmp_def sql_cmp_collated_def
      sql_cmp_def compare_str_fold icmp_def bool_cmp_def bool_byte_def 
      intro!: encode_numeric_equal int_image_equal)

lemma class_payload_less:
  assumes "keyable v" "keyable w" "key_class v = key_class w" "same_class_cmp c v w = Less" "key_follow r"
  shows "class_payload c v @ r < class_payload c w @ s"
proof (cases "is_number v")
  case True
  then have w: "is_number w"
    using assms(3) by (cases v; cases w) (simp_all add: is_number_def key_class_def class_tags)
  then show ?thesis
    using True number_code_less [OF True w] assms(4) number_cmp [OF True w, of c]
    by (simp add: class_payload_def)
next
  case False
  then have "\<not> is_number w"
    using assms(3) by (cases v; cases w) (simp_all add: is_number_def key_class_def class_tags)
  then show ?thesis
    using False payload_less [OF assms(1-3) False assms(4,5)] by (simp add: class_payload_def)
qed

lemma class_payload_equal:
  assumes "keyable v" "keyable w" "key_class v = key_class w" "same_class_cmp c v w = Equal"
  shows "class_payload c v = class_payload c w"
proof (cases "is_number v")
  case True
  then have w: "is_number w"
    using assms(3) by (cases v; cases w) (simp_all add: is_number_def key_class_def class_tags)
  then show ?thesis
    using True number_code_equal [OF True w] assms(4) number_cmp [OF True w, of c]
    by (simp add: class_payload_def)
next
  case False
  then have "\<not> is_number w"
    using assms(3) by (cases v; cases w) (simp_all add: is_number_def key_class_def class_tags)
  then show ?thesis
    using False payload_equal [OF assms(1-3) False assms(4)] by (simp add: class_payload_def)
qed

text \<open>A rigid column's values other than NULL are of one constructor.\<close>

lemma typed_same:
  assumes "fits v t" "fits w t" "t \<noteq> AnyT" "v \<noteq> VNull" "w \<noteq> VNull" "keyable v" "keyable w"
  shows "column_type v = Some t" "column_type w = Some t" "key_class v = key_class w"
  using assms
  by (cases v; cases w; simp add: fits_def keyable_def key_class_def)+

lemma typed_payload_less:
  assumes "fits v t" "fits w t" "t \<noteq> AnyT" "v \<noteq> VNull" "w \<noteq> VNull" "keyable v" "keyable w"
    and "same_class_cmp c v w = Less" "key_follow r"
  shows "typed_payload c v @ r < typed_payload c w @ s"
proof (cases "is_number v")
  case True
  then show ?thesis
    using typed_same [OF assms(1-7)] assms(8)
    by (cases v; cases w) (auto simp: is_number_def typed_payload_def same_class_cmp_def sql_cmp_collated_def sql_cmp_def
        icmp_def intro!: int_image_append_less float_image_append_less)
next
  case False
  moreover have "\<not> is_number w"
    using False typed_same(3) [OF assms(1-7)] by (cases v; cases w) (simp_all add: is_number_def key_class_def class_tags)
  ultimately show ?thesis
    using payload_less [OF assms(6,7) typed_same(3) [OF assms(1-7)] False assms(8,9)]
    by (cases v; cases w) (simp_all add: typed_payload_def is_number_def)
qed

lemma typed_payload_equal:
  assumes "fits v t" "fits w t" "t \<noteq> AnyT" "v \<noteq> VNull" "w \<noteq> VNull" "keyable v" "keyable w"
    and "same_class_cmp c v w = Equal"
  shows "typed_payload c v = typed_payload c w"
proof (cases "is_number v")
  case True
  then show ?thesis
    using typed_same [OF assms(1-7)] assms(8)
    by (cases v; cases w) (auto simp: is_number_def typed_payload_def same_class_cmp_def sql_cmp_collated_def sql_cmp_def
        icmp_def float_total_cmp_def float_image_def intro!: int_image_equal)
next
  case False
  moreover have "\<not> is_number w"
    using False typed_same(3) [OF assms(1-7)] by (cases v; cases w) (simp_all add: is_number_def key_class_def class_tags)
  ultimately show ?thesis
    using payload_equal [OF assms(6,7) typed_same(3) [OF assms(1-7)] False assms(8)]
    by (cases v; cases w) (simp_all add: typed_payload_def is_number_def)
qed

lemma same_class_flip: "same_class_cmp c w v = ord_reverse (same_class_cmp c v w)"
proof -
  have "sql_cmp_collated w v c = (case sql_cmp_collated v w c of Inl e \<Rightarrow> Inl e | Inr r \<Rightarrow> Inr (map_option ord_reverse r))"
  proof (cases "\<exists>a b. v = VText a \<and> w = VText b")
    case True
    then show ?thesis by (auto simp: sql_cmp_collated_def compare_str_fold)
  next
    case False
    then have "sql_cmp_collated v w c = sql_cmp v w" "sql_cmp_collated w v c = sql_cmp w v"
      by (cases v; cases w; simp add: sql_cmp_collated_def)+
    then show ?thesis by (simp only: sql_cmp_flip [where v = v and w = w])
  qed
  then show ?thesis
    by (simp add: same_class_cmp_def split: sum.split option.split)
qed

lemma key_cmp_flip: "key_cmp c w v = ord_reverse (key_cmp c v w)"
  by (simp add: key_cmp_def ord_reverse_then same_class_flip [of c w v])

lemma column_code:
  assumes "column_ok (t, c) sv"
  shows "spec_code sv = (if t = AnyT then key_class (snd sv) # class_payload c (snd sv)
    else if snd sv = VNull then [TAG_NULL] else TAG_PRESENT # typed_payload c (snd sv))"
    "encode_value_spec (snd sv) (fst sv) = Ok (spec_code sv)"
proof -
  have l: "\<not> is_list (snd sv)" and f: "fst sv = for_column t c"
    using assms keyable_not_list by (auto simp: column_ok_def)
  have "encode_value_spec (snd sv) (fst sv) = Ok (if t = AnyT then key_class (snd sv) # class_payload c (snd sv)
    else if snd sv = VNull then [TAG_NULL] else TAG_PRESENT # typed_payload c (snd sv))"
    by (simp add: encode_value_spec_def f for_column_def class_code [OF l] typed_code [OF l])
  then show "spec_code sv = (if t = AnyT then key_class (snd sv) # class_payload c (snd sv)
    else if snd sv = VNull then [TAG_NULL] else TAG_PRESENT # typed_payload c (snd sv))"
    "encode_value_spec (snd sv) (fst sv) = Ok (spec_code sv)"
    by (simp_all add: spec_code_def)
qed

lemma key_class_null: "key_class v = CLASS_NULL \<longleftrightarrow> v = VNull"
  by (cases v) (simp_all add: key_class_def class_tags)

lemma column_code_less:
  assumes v: "column_ok (t, c) sv" and w: "column_ok (t, c) sw" and less: "spec_cmp sv sw = Less" and r: "key_follow r"
  shows "spec_code sv @ r < spec_code sw @ s"
proof -
  have f: "coll (fst sv) = c" "fits (snd sv) t" "fits (snd sw) t" "keyable (snd sv)" "keyable (snd sw)"
    using v w by (simp_all add: column_ok_def for_column_def)
  have l: "key_class (snd sv) < key_class (snd sw)
      \<or> key_class (snd sv) = key_class (snd sw) \<and> same_class_cmp c (snd sv) (snd sw) = Less"
    using less by (auto simp: spec_cmp_def key_cmp_def f(1) ord_then_def split: if_splits)
  have nn: "snd sw \<noteq> VNull"
  proof
    assume wn: "snd sw = VNull"
    then have "key_class (snd sw) = 0" by (simp add: key_class_def class_tags)
    then have "key_class (snd sv) = key_class (snd sw)" using l by auto
    then have "snd sv = VNull" using wn key_class_null by metis
    then show False
      using l wn by (simp add: same_class_cmp_def sql_cmp_collated_def sql_cmp_def)
  qed
  show ?thesis
  proof (cases "t = AnyT")
    case True
    then show ?thesis
      using l class_payload_less [OF f(4,5) _ _ r] by (auto simp: column_code [OF v] column_code [OF w])
  next
    case False
    show ?thesis
    proof (cases "snd sv = VNull")
      case True
      then show ?thesis
        using False nn by (simp add: column_code [OF v] column_code [OF w] TAG_NULL_def TAG_PRESENT_def)
    next
      case vn: False
      then have "same_class_cmp c (snd sv) (snd sw) = Less"
        using l typed_same(3) [OF f(2,3) False vn nn f(4,5)] by simp
      then show ?thesis
        using False vn nn typed_payload_less [OF f(2,3) False vn nn f(4,5) _ r, of c s]
        by (simp add: column_code [OF v] column_code [OF w])
    qed
  qed
qed

lemma column_code_equal:
  assumes v: "column_ok (t, c) sv" and w: "column_ok (t, c) sw" and eq: "spec_cmp sv sw = Equal"
  shows "spec_code sv = spec_code sw"
proof -
  have f: "coll (fst sv) = c" "fits (snd sv) t" "fits (snd sw) t" "keyable (snd sv)" "keyable (snd sw)"
    using v w by (simp_all add: column_ok_def for_column_def)
  have l: "key_class (snd sv) = key_class (snd sw)" "same_class_cmp c (snd sv) (snd sw) = Equal"
    using eq by (auto simp: spec_cmp_def key_cmp_def f(1) ord_then_def split: if_splits)
  have nn: "snd sv = VNull \<longleftrightarrow> snd sw = VNull"
    using l(1) key_class_null by metis
  show ?thesis
  proof (cases "t = AnyT \<or> snd sv = VNull")
    case True
    then show ?thesis
      using l nn class_payload_equal [OF f(4,5) l(1,2)] by (auto simp: column_code [OF v] column_code [OF w])
  next
    case False
    then show ?thesis
      using nn typed_payload_equal [OF f(2,3) _ _ _ f(4,5) l(2)] by (simp add: column_code [OF v] column_code [OF w])
  qed
qed

lemma key_class_less: "key_class v < 0xff"
  by (cases v) (simp_all add: key_class_def class_tags)

interpretation key_order: ordered_code spec_code spec_cmp column_ok key_follow
proof
  show "key_follow []" by simp
next
  fix tc sv rest
  assume "column_ok tc sv"
  then have "column_ok (fst tc, snd tc) sv" by simp
  from column_code(1) [OF this] show "key_follow (spec_code sv @ rest)"
    by (simp add: key_class_less TAG_NULL_def TAG_PRESENT_def)
next
  fix tc sv sw
  assume "column_ok tc sv" "column_ok tc sw" "spec_cmp sv sw = Equal"
  then show "spec_code sv = spec_code sw"
    using column_code_equal [of "fst tc" "snd tc"] by simp
next
  fix tc sv sw r s
  assume "column_ok tc sv" "column_ok tc sw" "spec_cmp sv sw = Less" "key_follow r"
  then show "spec_code sv @ r < spec_code sw @ s"
    using column_code_less [of "fst tc" "snd tc"] by simp
next
  fix tc sv sw
  assume "column_ok tc sv" "column_ok tc sw" "spec_cmp sv sw = Greater"
  then show "spec_cmp sw sv = Less"
    using key_cmp_flip [of "coll (fst sv)" "snd sw" "snd sv"] by (simp add: spec_cmp_def column_ok_def)
qed

section \<open>Lemmas: decoding\<close>

text \<open>The floats that come back from their image: one zero, one NaN.\<close>

definition canonical_float :: "f64 \<Rightarrow> bool" where
  "canonical_float x \<longleftrightarrow> (f_mag x = 0 \<longrightarrow> \<not> f_neg x) \<and> (is_nan x \<longrightarrow> x = f64_nan)"

lemma and_not_top: "LENGTH('a) = Suc k \<Longrightarrow> (w :: 'a::len word) AND NOT (push_bit k 1) = take_bit k w"
  by (rule bit_eqI) (auto simp: bit_simps)

lemma clear_top: "unat ((w :: u64) AND NOT (push_bit 63 1)) = f_mag w"
proof -
  have "w AND NOT (push_bit 63 1) = take_bit 63 w"
    by (rule and_not_top) simp
  then show ?thesis
    by (simp only: f_mag_def unsigned_take_bit_eq) (simp only: take_bit_eq_mod)
qed

lemma image_bits_normalize:
  assumes "canonical_float x"
  shows "image_bits (normalize_float_bits x) = x"
proof -
  let ?n = "normalize_float_bits x"
  have mag: "f_mag x < 2 ^ 63" by (rule f_mag_less)
  show ?thesis
  proof (cases "\<not> is_nan x \<and> f_neg x \<and> f_mag x \<noteq> 0")
    case True
    then have n: "unat ?n = 2 ^ 63 - 1 - f_mag x" by (simp add: unat_normalize_float_bits)
    then have "\<not> f_neg ?n" by (simp add: f_neg_def)
    then have "image_bits ?n = NOT ?n" by (simp add: image_bits_def drop_bit_63)
    moreover have "unat (NOT ?n) = unat x"
      unfolding unat_not n using True mag by (simp add: unat_split)
    ultimately show ?thesis by (simp add: word_unat_eq_iff)
  next
    case False
    have "\<not> f_neg x" "is_nan x \<longrightarrow> f_mag x = nan_mag"
      using assms False f64_nan_fields by (auto simp: canonical_float_def nan_mag_def)
    then have n: "unat ?n = 2 ^ 63 + f_mag x" and x: "unat x = f_mag x"
      by (auto simp: unat_normalize_float_bits unat_split [of x])
    then have "f_neg ?n" "f_mag ?n = f_mag x"
      using mag by (simp_all add: f_neg_def f_mag_def [of ?n])
    then have "unat (image_bits ?n) = unat x"
      using x by (simp only: image_bits_def drop_bit_63 if_True clear_top)
    then show ?thesis by (simp add: word_unat_eq_iff)
  qed
qed

lemma take8_at:
  assumes "at_pos buf p (to_be_bytes w @ rest)"
  shows "take8 buf p = Ok (w, p + 8)"
  using at_pos_get_range [OF assms, of 8] by (simp add: take8_def)

lemma take8_int: "at_pos buf p (int_image x @ rest) \<Longrightarrow> take8 buf p = Ok (x XOR push_bit 63 1, p + 8)"
  unfolding int_image_def by (rule take8_at)

lemma take8_float: "at_pos buf p (float_image x @ rest) \<Longrightarrow> take8 buf p = Ok (normalize_float_bits x, p + 8)"
  unfolding float_image_def by (rule take8_at)

lemma decode_bool_at: "at_pos buf p (bool_byte x # rest) \<Longrightarrow> decode_bool buf p = Ok (VBool x, p + 1)"
  by (simp add: decode_bool_def at_pos_get_at bool_byte_def split: if_splits)

lemma decode_text_at:
  assumes "valid_str s" "key_follow rest" "at_pos buf p (encode_bytes (as_bytes s) @ rest)"
  shows "decode_text buf p = Ok (VText s, p + length (encode_bytes (as_bytes s)))"
  using decode_bytes_round [OF assms(3,2)] assms(1) by (simp add: decode_text_def)

text \<open>What a typed key gives back verbatim.\<close>

definition key_exact :: "Value \<Rightarrow> bool" where
  "key_exact v \<longleftrightarrow> (case v of VFloat x \<Rightarrow> canonical_float x | VText s \<Rightarrow> valid_str s
    | VNumeric s \<Rightarrow> canonical_key s | VList _ \<Rightarrow> False | _ \<Rightarrow> True)"

definition typed_code_of :: "Value \<Rightarrow> bytes" where
  "typed_code_of v = (case encode_value v of Inr b \<Rightarrow> b | Inl _ \<Rightarrow> [])"

definition typed_valid :: "ColumnType \<Rightarrow> Value \<Rightarrow> bool" where
  "typed_valid t v \<longleftrightarrow> t \<noteq> AnyT \<and> fits v t \<and> key_exact v"

lemma typed_code_eq:
  "key_exact v \<Longrightarrow> typed_code_of v = (if v = VNull then [TAG_NULL] else TAG_PRESENT # typed_payload Binary v)"
  by (cases v) (simp_all add: typed_code_of_def encode_value_def typed_payload_def key_exact_def)

lemma decode_value_round:
  assumes "typed_valid t v" "key_follow rest" and at: "at_pos buf p (typed_code_of v @ rest)"
  shows "decode_value t buf p = Ok (v, p + length (typed_code_of v))"
proof (cases "v = VNull")
  case True
  then show ?thesis
    using assms at_pos_get_at [of buf p TAG_NULL rest]
    by (simp add: typed_valid_def decode_value_def typed_code_eq)
next
  case False
  have t: "t \<noteq> AnyT" and ex: "key_exact v" and ty: "column_type v = Some t"
    using assms(1) False by (auto simp: typed_valid_def fits_def key_exact_def split: option.splits Value.splits elim: column_type.elims)
  have code: "typed_code_of v = TAG_PRESENT # typed_payload Binary v"
    using typed_code_eq [OF ex] False by simp
  have at0: "at_pos buf p (TAG_PRESENT # typed_payload Binary v @ rest)"
    using at by (simp add: code)
  have at1: "at_pos buf (Suc p) (typed_payload Binary v @ rest)"
    by (rule at_pos_Suc [OF at0])
  show ?thesis
    unfolding decode_value_def code using ty ex at1 assms(2)
    by (cases v)
      (auto simp: at_pos_get_at [OF at0] t TAG_PRESENT_def TAG_NULL_def typed_payload_def key_exact_def xor.assoc
        take8_int take8_float image_bits_normalize decode_bool_at decode_text_at decode_bytes_round decode_numeric_round)
qed

interpretation key_codec: pos_codec typed_code_of decode_value typed_valid key_follow
proof
  show "key_follow []" by simp
next
  fix t v rest
  assume "typed_valid t v"
  then show "key_follow (typed_code_of v @ rest)"
    by (simp add: typed_valid_def typed_code_eq TAG_NULL_def TAG_PRESENT_def)
next
  fix t v rest buf p
  assume "typed_valid t v" "key_follow rest" "at_pos buf p (typed_code_of v @ rest)"
  then show "decode_value t buf p = Ok (v, p + length (typed_code_of v))"
    by (rule decode_value_round)
qed

lemma encode_value_code: "\<not> is_list v \<Longrightarrow> encode_value v = Ok (typed_code_of v)"
  by (cases v) (simp_all add: typed_code_of_def encode_value_def is_list_def)

section \<open>Lemmas: composite keys\<close>

definition column_fits :: "ColumnType \<times> Collation \<Rightarrow> Value \<Rightarrow> bool" where
  "column_fits tc v \<longleftrightarrow> fits v (fst tc) \<and> keyable v"

definition specs_of :: "(ColumnType \<times> Collation) list \<Rightarrow> KeySpec list" where
  "specs_of tcs = map (\<lambda>(t, c). for_column t c) tcs"

text \<open>Column by column, the first difference decides.\<close>

fun cmp_columns :: "(ColumnType \<times> Collation) list \<Rightarrow> Value list \<Rightarrow> Value list \<Rightarrow> ordering" where
  "cmp_columns (tc # tcs) (v # vs) (w # ws) = ord_then (key_cmp (snd tc) v w) (cmp_columns tcs vs ws)"
| "cmp_columns _ _ _ = Equal"

lemma encode_each_concat:
  "(\<And>x. x \<in> set xs \<Longrightarrow> enc x = Ok (f x)) \<Longrightarrow> encode_each enc xs = Ok (concat (map f xs))"
  by (induction xs) simp_all

lemma columns_ok:
  "list_all2 column_fits tcs vs \<Longrightarrow> list_all2 column_ok tcs (zip (specs_of tcs) vs)"
  by (induction tcs vs rule: list_all2_induct) (auto simp: specs_of_def column_ok_def column_fits_def)

lemma zip_default_zip: "length vs = length ss \<Longrightarrow> zip_default d vs ss = zip vs ss"
  by (induction vs ss rule: list_induct2) simp_all

lemma encode_key_spec_code:
  assumes "list_all2 column_fits tcs vs"
  shows "encode_key_spec vs (specs_of tcs) = Ok (concat (map spec_code (zip (specs_of tcs) vs)))"
  using assms
proof (induction tcs vs rule: list_all2_induct)
  case Nil
  then show ?case by (simp add: encode_key_spec_def specs_of_def)
next
  case (Cons tc tcs v vs)
  have "column_ok (fst tc, snd tc) (for_column (fst tc) (snd tc), v)"
    using Cons.hyps(1) by (simp add: column_ok_def column_fits_def)
  from column_code(2) [OF this] Cons.IH show ?case
    by (simp add: encode_key_spec_def specs_of_def case_prod_unfold)
qed

lemma cmp_columns_list:
  "list_all2 column_fits tcs vs \<Longrightarrow> list_all2 column_fits tcs ws
    \<Longrightarrow> cmp_list spec_cmp (zip (specs_of tcs) vs) (zip (specs_of tcs) ws) = cmp_columns tcs vs ws"
proof (induction tcs vs arbitrary: ws rule: list_all2_induct)
  case (Cons tc tcs v vs)
  then obtain w ws' where "ws = w # ws'" "list_all2 column_fits tcs ws'"
    by (auto simp: list_all2_Cons1)
  then show ?case
    using Cons.IH [of ws'] by (simp add: specs_of_def spec_cmp_def for_column_def case_prod_unfold)
qed (simp add: specs_of_def)

text \<open>\<open>sort_cmp\<close> and the key order say the same.\<close>

lemma sort_cmp_key_cmp:
  assumes "keyable v" "keyable w"
  shows "sort_cmp v w c = Some r \<Longrightarrow> key_cmp c v w = r"
    "key_cmp c v w = Equal \<longleftrightarrow> sort_cmp v w c = Some Equal \<or> is_null v \<and> is_null w"
  using assms
  by (cases v; cases w; auto simp: keyable_def sort_cmp_def key_cmp_def key_class_def class_tags is_null_def
      same_class_cmp_def sql_cmp_collated_def sql_cmp_def ord_cmp_def)+

lemma group_code_cmp:
  assumes "keyable v" "keyable w" "encode_group_value v c = Ok a" "encode_group_value w c = Ok b"
  shows "ord_cmp a b = key_cmp c v w"
proof -
  let ?sp = "for_column AnyT c"
  have ok: "column_ok (AnyT, c) (?sp, v)" "column_ok (AnyT, c) (?sp, w)"
    using assms(1,2) keyable_not_list by (auto simp: column_ok_def fits_def)
  have "spec_code (?sp, v) = a" "spec_code (?sp, w) = b"
    using assms(3,4) by (simp_all add: spec_code_def encode_value_spec_def for_column_def)
  then show ?thesis
    using key_order.code_cmp [OF ok] by (simp add: spec_cmp_def for_column_def)
qed

section \<open>Properties\<close>

text \<open>
  C4: the on-disk key order. Two rows of values that fit their columns always have keys, and the keys
  compare bytewise exactly as the rows do: column by column, NULL first, then by storage class,
  inside a class by SQL's comparison under the column's collation.
\<close>

theorem encode_key_spec_order:
  assumes "list_all2 column_fits tcs vs" and "list_all2 column_fits tcs ws"
  shows "\<exists>a b. encode_key_spec vs (specs_of tcs) = Ok a \<and> encode_key_spec ws (specs_of tcs) = Ok b
    \<and> ord_cmp a b = cmp_columns tcs vs ws"
  using encode_key_spec_code [OF assms(1)] encode_key_spec_code [OF assms(2)]
    key_order.concat_cmp [OF columns_ok [OF assms(1)] columns_ok [OF assms(2)]]
    cmp_columns_list [OF assms]
  by simp

theorem encode_key_spec_order_witness:
  "\<exists>a b. encode_key_spec [VText ''ab'', VInt 7] (specs_of [(TextT, NoCase), (AnyT, Binary)]) = Ok a
    \<and> encode_key_spec [VText ''AB'', VBool True] (specs_of [(TextT, NoCase), (AnyT, Binary)]) = Ok b
    \<and> ord_cmp a b = cmp_columns [(TextT, NoCase), (AnyT, Binary)] [VText ''ab'', VInt 7] [VText ''AB'', VBool True]"
  by (rule encode_key_spec_order) (simp_all add: column_fits_def fits_def keyable_def is_list_def)

text \<open>
  C10: the grouping key's contract. Two values' grouping keys are the same bytes exactly when
  \<open>sort_cmp\<close> calls the values equal or both are NULL, and the keys' byte order is \<open>sort_cmp\<close> wherever
  that decides.
\<close>

theorem group_key_matches_sort_cmp:
  assumes "keyable v" and "keyable w" and "encode_group_value v c = Ok a" and "encode_group_value w c = Ok b"
  shows "(a = b \<longleftrightarrow> sort_cmp v w c = Some Equal \<or> is_null v \<and> is_null w)
    \<and> (\<forall>r. sort_cmp v w c = Some r \<longrightarrow> ord_cmp a b = r)"
proof -
  have k: "ord_cmp a b = key_cmp c v w" by (rule group_code_cmp [OF assms])
  then have "a = b \<longleftrightarrow> key_cmp c v w = Equal" by (simp flip: ord_cmp_iffs(2))
  then show ?thesis
    using sort_cmp_key_cmp [OF assms(1,2)] k by auto
qed

theorem group_key_matches_sort_cmp_witness:
  "keyable (VInt 1) \<and> keyable (VText ''1'')
    \<and> (\<exists>a b. encode_group_value (VInt 1) Binary = Ok a \<and> encode_group_value (VText ''1'') Binary = Ok b
        \<and> ord_cmp a b = Less)"
proof -
  have k: "keyable (VInt 1)" "keyable (VText ''1'')" by (simp_all add: keyable_def)
  have "sort_cmp (VInt 1) (VText ''1'') Binary = Some Less"
    by (simp add: sort_cmp_def sql_cmp_collated_def sql_cmp_def is_null_def ord_cmp_def)
  moreover obtain a b where "encode_group_value (VInt 1) Binary = Ok a" "encode_group_value (VText ''1'') Binary = Ok b"
    by (simp add: encode_group_value_def encode_number_def)
  ultimately show ?thesis
    using k group_key_matches_sort_cmp [OF k] by blast
qed

text \<open>
  C14: a composite key of rigidly typed columns decodes to the values it was made from, for values
  that a key can give back (floats in the form with one zero and one NaN, canonical decimals).
\<close>

theorem decode_key_round_trip:
  assumes "list_all2 typed_valid ts vs"
  shows "rbind (encode_key vs) (\<lambda>k. decode_key k ts) = Ok vs"
proof -
  have "\<not> is_list v" if "v \<in> set vs" for v
    using assms that by (auto simp: list_all2_conv_all_nth in_set_conv_nth typed_valid_def key_exact_def is_list_def
        split: Value.splits)
  then have "encode_key vs = Ok (concat (map typed_code_of vs))"
    unfolding encode_key_def
    by (intro encode_each_concat encode_value_code)
  moreover have "decode_each decode_value ts (concat (map typed_code_of vs)) 0 = Ok (vs, 0 + length (concat (map typed_code_of vs)))"
    using assms by (rule key_codec.decode_each_round [where rest = "[]"]) simp_all
  ultimately show ?thesis
    by (simp add: decode_key_def)
qed

theorem decode_key_round_trip_witness:
  "rbind (encode_key [VInt 5, VText ''a'', VNull]) (\<lambda>k. decode_key k [Int64T, TextT, BlobT]) = Ok [VInt 5, VText ''a'', VNull]"
  by (rule decode_key_round_trip)
    (simp add: typed_valid_def fits_def key_exact_def valid_str_def byte_of_char_def)

text \<open>
  C34: the storage-class decoder does not read every key its encoder writes: the key of a date, a time
  or a decimal, which an \<open>any\<close> column may hold, is refused as corrupt.
\<close>

theorem decode_group_value_refuses:
  "rbind (encode_group_value (VDate x) c) (\<lambda>k. decode_group_value k 0) = Err Corrupt
    \<and> rbind (encode_group_value (VTime x) c) (\<lambda>k. decode_group_value k 0) = Err Corrupt
    \<and> rbind (encode_group_value (VNumeric s) c) (\<lambda>k. decode_group_value k 0) = Err Corrupt"
  by (simp add: encode_group_value_def decode_group_value_def get_at_def class_tags)

text \<open>
  C29: the identity key is not injective: the decimals \<open>1.0\<close> and \<open>1.00\<close>, and the two zeros of a float,
  are different values of one type with the same identity key.
\<close>

theorem encode_key_exact_collides:
  "encode_key_exact [VNumeric ''1.0''] = encode_key_exact [VNumeric ''1.00'']
    \<and> encode_key_exact [VFloat 0] = encode_key_exact [VFloat 0x8000000000000000]"
proof -
  have "plain ''1.0''" "plain ''1.00''"
    by code_simp+
  then have "num_ok ''1.0''" "num_ok ''1.00''"
    by (simp_all add: num_ok_def)
  moreover have "numeric_cmp ''1.0'' ''1.00'' = Equal"
    by code_simp
  ultimately have "encode_numeric ''1.0'' = encode_numeric ''1.00''"
    by (rule encode_numeric_equal)
  moreover have "normalize_float_bits 0x8000000000000000 = normalize_float_bits 0"
    by (simp add: normalize_eq_iff is_nan_def f_mag_def inf_mag_def fix_val_def f_neg_def mag_val_def)
  ultimately show ?thesis
    by (simp add: encode_key_exact_def encode_value_def float_image_def)
qed

end
