(* ===== verification/Footprint.thy ===== *)
theory Footprint
  imports Mpedb_Prelude
begin

unbundle bit_operations_syntax

text \<open>
  Plan footprints (\<open>mpedb-types/src/footprint.rs\<close>): the sparse table set, the footprint record with
  its conflict test and codec, and the change-capture control record built from table sets
  (\<open>mpedb-core/src/cdc.rs\<close>).
\<close>

section \<open>Table sets\<close>

definition MAX_TABLES_CEILING :: nat where
  "MAX_TABLES_CEILING = 2 ^ 20"

definition MAX_COLUMNS :: nat where
  "MAX_COLUMNS = 1024"

text \<open>The ids, in a vector that the operations keep strictly ascending.\<close>

type_synonym TableSet = "u32 list"

text \<open>
  \<open>slice::binary_search\<close> on a sorted slice: the position of the element (\<open>Inr\<close>, Rust's \<open>Ok\<close>) or the
  position to insert it at (\<open>Inl\<close>, Rust's \<open>Err\<close>).
\<close>

definition binary_search :: "'a::linorder list \<Rightarrow> 'a \<Rightarrow> nat + nat" where
  "binary_search xs x = (let p = length (takeWhile (\<lambda>y. y < x) xs)
     in if p < length xs \<and> xs ! p = x then Inr p else Inl p)"

definition ts_new :: TableSet where
  "ts_new = []"

fun ascending_in_range :: "u32 option \<Rightarrow> u32 list \<Rightarrow> bool" where
  "ascending_in_range prev [] \<longleftrightarrow> True"
| "ascending_in_range prev (tid # ids) \<longleftrightarrow>
     unat tid < MAX_TABLES_CEILING \<and> (case prev of None \<Rightarrow> True | Some p \<Rightarrow> p < tid)
     \<and> ascending_in_range (Some tid) ids"

definition from_sorted :: "u32 list \<Rightarrow> TableSet result" where
  "from_sorted ids = (if ascending_in_range None ids then Ok ids else Err Corrupt)"

definition ts_insert :: "TableSet \<Rightarrow> u32 \<Rightarrow> TableSet" where
  "ts_insert s tid = (case binary_search s tid of
     Inl pos \<Rightarrow> take pos s @ tid # drop pos s
   | Inr _ \<Rightarrow> s)"

definition ts_remove :: "TableSet \<Rightarrow> u32 \<Rightarrow> TableSet" where
  "ts_remove s tid = (case binary_search s tid of
     Inl _ \<Rightarrow> s
   | Inr pos \<Rightarrow> take pos s @ drop (Suc pos) s)"

definition ts_contains :: "TableSet \<Rightarrow> u32 \<Rightarrow> bool" where
  "ts_contains s tid \<longleftrightarrow> (case binary_search s tid of Inr _ \<Rightarrow> True | Inl _ \<Rightarrow> False)"

definition union_with :: "TableSet \<Rightarrow> TableSet \<Rightarrow> TableSet" where
  "union_with s t = fold (\<lambda>tid s. ts_insert s tid) t s"

text \<open>The merge loop over the two positions.\<close>

fun intersects :: "TableSet \<Rightarrow> TableSet \<Rightarrow> bool" where
  "intersects (x # xs) (y # ys) =
     (if x < y then intersects xs (y # ys) else if y < x then intersects (x # xs) ys else True)"
| "intersects _ _ = False"

definition ts_first :: "TableSet \<Rightarrow> u32 option" where
  "ts_first s = (case s of [] \<Rightarrow> None | x # _ \<Rightarrow> Some x)"

definition ts_encode_into :: "TableSet \<Rightarrow> bytes" where
  "ts_encode_into s = to_le_bytes (of_nat (length s) :: u16) @ concat (map to_le_bytes s)"

text \<open>Little-endian reads of the decoders: the two bytes or the error, and the position after.\<close>

definition read_u16 :: "bytes \<Rightarrow> nat \<Rightarrow> (u16 \<times> nat) result" where
  "read_u16 buf p = rbind (ok_or Corrupt (get_range buf p (p + 2))) (\<lambda>raw. Ok (from_le_bytes raw, p + 2))"

definition read_u32 :: "bytes \<Rightarrow> nat \<Rightarrow> (u32 \<times> nat) result" where
  "read_u32 buf p = rbind (ok_or Corrupt (get_range buf p (p + 4))) (\<lambda>raw. Ok (from_le_bytes raw, p + 4))"

definition read_u64 :: "bytes \<Rightarrow> nat \<Rightarrow> (u64 \<times> nat) result" where
  "read_u64 buf p = rbind (ok_or Corrupt (get_range buf p (p + 8))) (\<lambda>raw. Ok (from_le_bytes raw, p + 8))"

fun read_each :: "(bytes \<Rightarrow> nat \<Rightarrow> ('v \<times> nat) result) \<Rightarrow> nat \<Rightarrow> bytes \<Rightarrow> nat \<Rightarrow> ('v list \<times> nat) result" where
  "read_each rd 0 buf p = Ok ([], p)"
| "read_each rd (Suc n) buf p =
     rbind (rd buf p) (\<lambda>(v, q). rbind (read_each rd n buf q) (\<lambda>(vs, r). Ok (v # vs, r)))"

definition ts_decode :: "bytes \<Rightarrow> nat \<Rightarrow> (TableSet \<times> nat) result" where
  "ts_decode buf p =
    rbind (read_u16 buf p) (\<lambda>(n, p).
    if length buf - p < 4 * unat n then Err Corrupt
    else rbind (read_each read_u32 (unat n) buf p) (\<lambda>(ids, p).
    rbind (from_sorted ids) (\<lambda>s. Ok (s, p))))"

definition from_iter :: "u32 list \<Rightarrow> TableSet" where
  "from_iter ids = fold (\<lambda>tid s. ts_insert s tid) ids ts_new"

section \<open>Footprints\<close>

datatype KeyPart = Param u16 | Const u16 | OuterCol u16

record KeyBound =
  parts :: "KeyPart list"
  inclusive :: bool

datatype KeyAccess = Point "KeyPart list" | Range "KeyBound option" "KeyBound option" | Full

record Footprint =
  tables_read :: TableSet
  tables_written :: TableSet
  indexes_used :: u64
  key_access :: KeyAccess
  read_only :: bool

definition reads_table :: "Footprint \<Rightarrow> u32 \<Rightarrow> bool" where
  "reads_table f tid = ts_contains (tables_read f) tid"

definition writes_table :: "Footprint \<Rightarrow> u32 \<Rightarrow> bool" where
  "writes_table f tid = ts_contains (tables_written f) tid"

definition conflicts_with :: "Footprint \<Rightarrow> Footprint \<Rightarrow> bool" where
  "conflicts_with f g \<longleftrightarrow> intersects (tables_written f) (tables_read g)
    \<or> intersects (tables_written f) (tables_written g)
    \<or> intersects (tables_written g) (tables_read f)"

fun encode_part :: "KeyPart \<Rightarrow> bytes" where
  "encode_part (Param i) = 0 # to_le_bytes i"
| "encode_part (Const i) = 1 # to_le_bytes i"
| "encode_part (OuterCol i) = 2 # to_le_bytes i"

definition encode_parts :: "KeyPart list \<Rightarrow> bytes" where
  "encode_parts ps = to_le_bytes (of_nat (length ps) :: u16) @ concat (map encode_part ps)"

definition encode_bound :: "KeyBound option \<Rightarrow> bytes" where
  "encode_bound b = (case b of
     None \<Rightarrow> [0]
   | Some b \<Rightarrow> (1 OR push_bit 1 (if inclusive b then 1 else 0)) # encode_parts (parts b))"

definition fp_encode_into :: "Footprint \<Rightarrow> bytes" where
  "fp_encode_into f = ts_encode_into (tables_read f) @ ts_encode_into (tables_written f)
    @ to_le_bytes (indexes_used f) @ [if read_only f then 1 else 0]
    @ (case key_access f of
         Full \<Rightarrow> [0]
       | Point ps \<Rightarrow> 1 # encode_parts ps
       | Range lo hi \<Rightarrow> 2 # encode_bound lo @ encode_bound hi)"

definition decode_part :: "bytes \<Rightarrow> nat \<Rightarrow> (KeyPart \<times> nat) result" where
  "decode_part buf p =
    rbind (ok_or Corrupt (get_at buf p)) (\<lambda>tag.
    rbind (read_u16 buf (p + 1)) (\<lambda>(i, q).
      if tag = 0 then Ok (Param i, q) else if tag = 1 then Ok (Const i, q)
      else if tag = 2 then Ok (OuterCol i, q) else Err Corrupt))"

definition decode_parts :: "bytes \<Rightarrow> nat \<Rightarrow> (KeyPart list \<times> nat) result" where
  "decode_parts buf p =
    rbind (read_u16 buf p) (\<lambda>(n, p).
      if unat n > MAX_COLUMNS then Err Corrupt else read_each decode_part (unat n) buf p)"

definition decode_bound :: "bytes \<Rightarrow> nat \<Rightarrow> (KeyBound option \<times> nat) result" where
  "decode_bound buf p =
    rbind (ok_or Corrupt (get_at buf p)) (\<lambda>tag.
      if tag AND 1 = 0 then Ok (None, p + 1)
      else rbind (decode_parts buf (p + 1)) (\<lambda>(ps, q).
        Ok (Some \<lparr>parts = ps, inclusive = (tag AND 2 \<noteq> 0)\<rparr>, q)))"

definition decode_access :: "bytes \<Rightarrow> nat \<Rightarrow> (KeyAccess \<times> nat) result" where
  "decode_access buf p =
    rbind (ok_or Corrupt (get_at buf p)) (\<lambda>tag.
      if tag = 0 then Ok (Full, p + 1)
      else if tag = 1 then rbind (decode_parts buf (p + 1)) (\<lambda>(ps, q). Ok (Point ps, q))
      else if tag = 2 then
        rbind (decode_bound buf (p + 1)) (\<lambda>(lo, q). rbind (decode_bound buf q) (\<lambda>(hi, r). Ok (Range lo hi, r)))
      else Err Corrupt)"

definition fp_decode :: "bytes \<Rightarrow> nat \<Rightarrow> (Footprint \<times> nat) result" where
  "fp_decode buf p =
    rbind (ts_decode buf p) (\<lambda>(rd, p).
    rbind (ts_decode buf p) (\<lambda>(wr, p).
    rbind (read_u64 buf p) (\<lambda>(ix, p).
    rbind (ok_or Corrupt (get_at buf p)) (\<lambda>flag.
    rbind (if flag = 0 then Ok False else if flag = 1 then Ok True else Err Corrupt) (\<lambda>ro.
    rbind (decode_access buf (p + 1)) (\<lambda>(ka, p).
      if ro \<and> wr \<noteq> [] then Err Corrupt
      else Ok (\<lparr>tables_read = rd, tables_written = wr, indexes_used = ix, key_access = ka, read_only = ro\<rparr>, p)))))))"

section \<open>The change-capture control record\<close>

record CaptureConfig =
  captured :: TableSet
  blocked :: TableSet
  generation :: u64

definition is_captured :: "CaptureConfig \<Rightarrow> u32 \<Rightarrow> bool" where
  "is_captured c tid = ts_contains (captured c) tid"

definition is_blocked :: "CaptureConfig \<Rightarrow> u32 \<Rightarrow> bool" where
  "is_blocked c tid = ts_contains (blocked c) tid"

definition capture_is_empty :: "CaptureConfig \<Rightarrow> bool" where
  "capture_is_empty c \<longleftrightarrow> captured c = [] \<and> blocked c = []"

definition set_captured :: "CaptureConfig \<Rightarrow> u32 \<Rightarrow> bool \<Rightarrow> CaptureConfig" where
  "set_captured c tid on = c\<lparr>captured := (if on then ts_insert (captured c) tid else ts_remove (captured c) tid)\<rparr>"

definition set_blocked :: "CaptureConfig \<Rightarrow> u32 \<Rightarrow> bool \<Rightarrow> CaptureConfig" where
  "set_blocked c tid on = c\<lparr>blocked := (if on then ts_insert (blocked c) tid else ts_remove (blocked c) tid)\<rparr>"

definition capture_encode :: "CaptureConfig \<Rightarrow> bytes" where
  "capture_encode c = to_le_bytes (generation c) @ ts_encode_into (captured c) @ ts_encode_into (blocked c)"

definition capture_decode :: "bytes \<Rightarrow> CaptureConfig result" where
  "capture_decode buf =
    rbind (ok_or Corrupt (get_range buf 0 8)) (\<lambda>raw.
    rbind (ts_decode buf 8) (\<lambda>(cap, p).
    rbind (ts_decode buf p) (\<lambda>(blk, p).
      if p \<noteq> length buf then Err Corrupt
      else Ok \<lparr>captured = cap, blocked = blk, generation = from_le_bytes raw\<rparr>)))"

datatype DirtyOp = Upsert | Delete

fun dirty_op_tag :: "DirtyOp \<Rightarrow> byte" where
  "dirty_op_tag Upsert = 1"
| "dirty_op_tag Delete = 2"

definition dirty_op_from_tag :: "byte \<Rightarrow> DirtyOp result" where
  "dirty_op_from_tag t = (if t = 1 then Ok Upsert else if t = 2 then Ok Delete else Err Corrupt)"

definition CDC_DIRTY_PREFIX :: bytes where
  "CDC_DIRTY_PREFIX = [0x63, 0x64, 0x63, 0, 0x64, 0x2f]"

definition CDC_DIRTY_PREFIX_END :: bytes where
  "CDC_DIRTY_PREFIX_END = [0x63, 0x64, 0x63, 0, 0x64, 0x30]"

text \<open>\<open>xxh3_128\<close> is a hash of another crate: a parameter.\<close>

definition dirty_key :: "(bytes \<Rightarrow> 128 word) \<Rightarrow> u32 \<Rightarrow> bytes \<Rightarrow> bytes" where
  "dirty_key xxh3 tid pk = CDC_DIRTY_PREFIX @ to_be_bytes tid @ to_be_bytes (xxh3 pk)"

record DirtyEntry =
  op :: DirtyOp
  last_txn :: u64
  wall_us :: i64
  pk_keycode :: bytes

definition dirty_encode :: "DirtyEntry \<Rightarrow> bytes" where
  "dirty_encode e = dirty_op_tag (op e) # to_be_bytes (last_txn e) @ to_be_bytes (wall_us e) @ pk_keycode e"

definition dirty_decode :: "bytes \<Rightarrow> DirtyEntry result" where
  "dirty_decode b = (if length b < 17 then Err Corrupt
     else rbind (dirty_op_from_tag (b ! 0)) (\<lambda>o'.
       Ok \<lparr>op = o', last_txn = from_be_bytes (take 8 (drop 1 b)), wall_us = from_be_bytes (take 8 (drop 9 b)),
            pk_keycode = drop 17 b\<rparr>))"

section \<open>Lemmas: table sets are sets\<close>

text \<open>The representation invariant.\<close>

definition ascending :: "TableSet \<Rightarrow> bool" where
  "ascending s \<longleftrightarrow> sorted_wrt (<) s"

lemma search_split:
  fixes xs :: "'a::linorder list"
  assumes "sorted_wrt (<) xs"
  obtains A B where "xs = A @ B" "\<forall>y\<in>set A. y < x" "\<forall>y\<in>set B. x \<le> y"
    "length (takeWhile (\<lambda>y. y < x) xs) = length A"
proof -
  have "takeWhile (\<lambda>y. y < x) xs @ dropWhile (\<lambda>y. y < x) xs = xs" by simp
  moreover have "\<forall>y\<in>set (dropWhile (\<lambda>y. y < x) xs). x \<le> y"
  proof (cases "dropWhile (\<lambda>y. y < x) xs")
    case (Cons b B)
    then have "\<not> b < x" by (metis hd_dropWhile list.distinct(1) list.sel(1))
    moreover have "sorted_wrt (<) (b # B)"
      using assms Cons by (metis sorted_wrt_append takeWhile_dropWhile_id)
    ultimately show ?thesis unfolding Cons by auto
  next
    case Nil
    then show ?thesis by (simp only: list.set) simp
  qed
  ultimately show thesis
    using that [of "takeWhile (\<lambda>y. y < x) xs" "dropWhile (\<lambda>y. y < x) xs"] set_takeWhileD by (metis (full_types))
qed

lemma binary_search_cases:
  assumes "sorted_wrt (<) xs"
  obtains (found) A B where "binary_search xs x = Inr (length A)" "xs = A @ x # B" "\<forall>y\<in>set A. y < x" "\<forall>y\<in>set B. x < y"
  | (absent) A B where "binary_search xs x = Inl (length A)" "xs = A @ B" "\<forall>y\<in>set A. y < x" "\<forall>y\<in>set B. x < y"
proof -
  obtain A B where AB: "xs = A @ B" "\<forall>y\<in>set A. y < x" "\<forall>y\<in>set B. x \<le> y" "length (takeWhile (\<lambda>y. y < x) xs) = length A"
    using search_split [OF assms] by metis
  show thesis
  proof (cases "\<exists>B'. B = x # B'")
    case True
    then obtain B' where B: "B = x # B'" by blast
    then have "binary_search xs x = Inr (length A)"
      using AB by (simp add: binary_search_def Let_def)
    moreover have "\<forall>y\<in>set B'. x < y"
      using assms AB(1) B by (simp add: sorted_wrt_append)
    ultimately show thesis using found AB B by simp
  next
    case False
    have "sorted_wrt (<) B" using assms AB(1) by (simp add: sorted_wrt_append)
    then have "\<forall>y\<in>set B. x < y"
      using False AB(3) by (cases B) (auto simp: less_le intro: less_le_trans)
    moreover have "binary_search xs x = Inl (length A)"
      using AB False by (cases B) (auto simp: binary_search_def Let_def)
    ultimately show thesis using absent AB by blast
  qed
qed

lemma ts_insert_set:
  assumes "ascending s"
  shows "ascending (ts_insert s t) \<and> set (ts_insert s t) = insert t (set s)"
proof -
  have "sorted_wrt (<) s" using assms by (simp add: ascending_def)
  then show ?thesis
  proof (cases rule: binary_search_cases [where x = t])
    case (found A B)
    then show ?thesis using assms by (simp add: ts_insert_def ascending_def)
  next
    case (absent A B)
    have "sorted_wrt (<) (A @ t # B)"
      using assms absent by (auto simp: ascending_def sorted_wrt_append)
    then show ?thesis using absent by (auto simp: ts_insert_def ascending_def)
  qed
qed

lemma ts_remove_set:
  assumes "ascending s"
  shows "ascending (ts_remove s t) \<and> set (ts_remove s t) = set s - {t}"
proof -
  have "sorted_wrt (<) s" using assms by (simp add: ascending_def)
  then show ?thesis
  proof (cases rule: binary_search_cases [where x = t])
    case (found A B)
    have "sorted_wrt (<) (A @ B)"
      using assms found by (auto simp: ascending_def sorted_wrt_append)
    then show ?thesis using found by (auto simp: ts_remove_def ascending_def)
  next
    case (absent A B)
    then show ?thesis using assms by (auto simp: ts_remove_def ascending_def)
  qed
qed

lemma ts_contains_set: "ascending s \<Longrightarrow> ts_contains s t \<longleftrightarrow> t \<in> set s"
  unfolding ascending_def
  by (cases rule: binary_search_cases [where x = t]) (auto simp: ts_contains_def)

lemma union_with_set:
  "ascending s \<Longrightarrow> ascending (union_with s t) \<and> set (union_with s t) = set s \<union> set t"
  unfolding union_with_def
proof (induction t arbitrary: s)
  case (Cons t ts)
  then show ?case
    using ts_insert_set [OF Cons.prems, of t] by auto
qed simp

lemma intersects_set:
  "ascending s \<Longrightarrow> ascending t \<Longrightarrow> intersects s t \<longleftrightarrow> set s \<inter> set t \<noteq> {}"
proof (induction s t rule: intersects.induct)
  case (1 x xs y ys)
  consider "x < y" | "y < x" | "x = y" by force
  then show ?case
  proof cases
    case 1
    then have "x \<notin> set (y # ys)" using "1.prems" by (auto simp: ascending_def)
    then show ?thesis using 1 "1.prems" "1.IH"(1) by (auto simp: ascending_def)
  next
    case 2
    then have "y \<notin> set (x # xs)" using "1.prems" by (auto simp: ascending_def)
    then show ?thesis using 2 "1.prems" "1.IH"(2) by (auto simp: ascending_def)
  qed simp
qed simp_all

lemma from_iter_set: "ascending (from_iter ids) \<and> set (from_iter ids) = set ids"
  using union_with_set [of ts_new ids] by (simp add: from_iter_def union_with_def ts_new_def ascending_def)

text \<open>Strictly ascending vectors are equal when they hold the same ids.\<close>

lemma ascending_unique: "ascending s \<Longrightarrow> ascending t \<Longrightarrow> set s = set t \<Longrightarrow> s = t"
  unfolding ascending_def by (rule strict_sorted_equal)

section \<open>Lemmas: codecs\<close>

lemma ascending_in_range_iff:
  "ascending_in_range prev ids \<longleftrightarrow> ascending ids \<and> (\<forall>i\<in>set ids. unat i < MAX_TABLES_CEILING)
    \<and> (case prev of None \<Rightarrow> True | Some p \<Rightarrow> \<forall>i\<in>set ids. p < i)"
proof (induction ids arbitrary: prev)
  case Nil
  then show ?case by (simp add: ascending_def split: option.split)
next
  case (Cons i ids)
  show ?case
    unfolding ascending_in_range.simps Cons.IH
    by (auto simp: ascending_def split: option.split intro: less_trans)
qed

lemma read_u16_at: "at_pos buf p (to_le_bytes w @ rest) \<Longrightarrow> read_u16 buf p = Ok (w, p + 2)"
  using at_pos_get_range [of buf p "to_le_bytes w" rest 2] by (simp add: read_u16_def)

lemma read_u32_at: "at_pos buf p (to_le_bytes w @ rest) \<Longrightarrow> read_u32 buf p = Ok (w, p + 4)"
  using at_pos_get_range [of buf p "to_le_bytes w" rest 4] by (simp add: read_u32_def)

lemma read_u64_at: "at_pos buf p (to_le_bytes w @ rest) \<Longrightarrow> read_u64 buf p = Ok (w, p + 8)"
  using at_pos_get_range [of buf p "to_le_bytes w" rest 8] by (simp add: read_u64_def)

lemma read_each_at:
  assumes "\<And>v rest p. v \<in> set vs \<Longrightarrow> at_pos buf p (enc v @ rest) \<Longrightarrow> rd buf p = Ok (v, p + length (enc v))"
    and "at_pos buf p (concat (map enc vs) @ rest)"
  shows "read_each rd (length vs) buf p = Ok (vs, p + length (concat (map enc vs)))"
  using assms
proof (induction vs arbitrary: p)
  case (Cons v vs)
  have at: "at_pos buf p (enc v @ concat (map enc vs) @ rest)" using Cons.prems(2) by simp
  have "rd buf p = Ok (v, p + length (enc v))" using Cons.prems(1) at by simp
  moreover have "read_each rd (length vs) buf (p + length (enc v)) = Ok (vs, p + length (enc v) + length (concat (map enc vs)))"
    using Cons.prems(1) at_pos_add [OF at] by (intro Cons.IH) simp_all
  ultimately show ?case by (simp add: add.assoc)
qed simp

lemma unat_of_nat_u16: "n < 2 ^ 16 \<Longrightarrow> unat (of_nat n :: u16) = n"
  by (simp add: unat_of_nat)

definition ts_valid :: "TableSet \<Rightarrow> bool" where
  "ts_valid s \<longleftrightarrow> ascending s \<and> (\<forall>t\<in>set s. unat t < MAX_TABLES_CEILING) \<and> length s < 2 ^ 16"

lemma length_concat_u32: "length (concat (map to_le_bytes (s :: u32 list))) = 4 * length s"
  by (induction s) simp_all

lemma ts_round:
  assumes v: "ts_valid s" and at: "at_pos buf p (ts_encode_into s @ rest)"
  shows "ts_decode buf p = Ok (s, p + length (ts_encode_into s))"
proof -
  have at0: "at_pos buf p (to_le_bytes (of_nat (length s) :: u16) @ concat (map to_le_bytes s) @ rest)"
    using at by (simp add: ts_encode_into_def)
  have at1: "at_pos buf (p + 2) (concat (map to_le_bytes s) @ rest)"
    by (rule at_pos_add [OF at0]) simp
  have n: "unat (of_nat (length s) :: u16) = length s"
    using v by (intro unat_of_nat_u16) (simp add: ts_valid_def)
  have "read_each read_u32 (length s) buf (p + 2) = Ok (s, p + 2 + length (concat (map to_le_bytes s)))"
    by (rule read_each_at [OF _ at1]) (simp add: read_u32_at)
  moreover have "from_sorted s = Ok s"
    using v by (simp add: from_sorted_def ascending_in_range_iff ts_valid_def)
  moreover have "\<not> length buf - (p + 2) < 4 * length s"
    using at_pos_length [OF at1] by (simp add: length_concat_u32)
  ultimately show ?thesis
    by (simp add: ts_decode_def read_u16_at [OF at0] n ts_encode_into_def length_concat_u32)
qed

interpretation table_set_codec: pos_codec ts_encode_into "\<lambda>_ :: unit. ts_decode" "\<lambda>_. ts_valid" "\<lambda>_. True"
  by unfold_locales (auto intro: ts_round)

text \<open>What a decoder accepts is what the encoder would have written there.\<close>

definition reads :: "(bytes \<Rightarrow> nat \<Rightarrow> ('v \<times> nat) result) \<Rightarrow> ('v \<Rightarrow> bytes) \<Rightarrow> bool" where
  "reads rd enc \<longleftrightarrow> (\<forall>buf p v q. rd buf p = Ok (v, q) \<longrightarrow> get_range buf p q = Some (enc v))"

lemma get_range_append:
  assumes "get_range buf p q = Some a" "get_range buf q r = Some b"
  shows "get_range buf p r = Some (a @ b)"
proof -
  have "p \<le> q" "q \<le> r" "r \<le> length buf" and a: "a = take (q - p) (drop p buf)" and b: "b = take (r - q) (drop q buf)"
    using assms by (auto simp: get_range_def split: if_splits)
  then have "take (r - p) (drop p buf) = take (q - p) (drop p buf) @ take (r - q) (drop q buf)"
    using take_add [of "q - p" "r - q" "drop p buf"] by simp
  then show ?thesis
    using \<open>p \<le> q\<close> \<open>q \<le> r\<close> \<open>r \<le> length buf\<close> a b by (simp add: get_range_def)
qed

lemma get_range_empty: "get_range buf p q = Some x \<Longrightarrow> get_range buf q q = Some []"
  by (auto simp: get_range_def split: if_splits)

lemma length_get_range: "get_range buf p q = Some a \<Longrightarrow> length a = q - p"
  by (auto simp: get_range_def split: if_splits)

lemma reads_u16: "reads read_u16 to_le_bytes"
  unfolding reads_def read_u16_def
  by (auto simp: rbind_Ok_iff ok_or_Ok_iff intro!: to_from_le_bytes [symmetric]) (drule length_get_range, simp)

lemma reads_u32: "reads read_u32 to_le_bytes"
  unfolding reads_def read_u32_def
  by (auto simp: rbind_Ok_iff ok_or_Ok_iff intro!: to_from_le_bytes [symmetric]) (drule length_get_range, simp)

lemma reads_each:
  assumes "reads rd enc" and "read_each rd n buf p = Ok (vs, q)" and "get_range buf p p = Some []"
  shows "length vs = n \<and> get_range buf p q = Some (concat (map enc vs))"
  using assms(2,3)
proof (induction n arbitrary: p vs)
  case (Suc n)
  then obtain v q' vs' where v: "rd buf p = Ok (v, q')" "read_each rd n buf q' = Ok (vs', q)" "vs = v # vs'"
    by (auto simp: rbind_Ok_iff)
  have r: "get_range buf p q' = Some (enc v)" using assms(1) v(1) by (simp add: reads_def)
  have "length vs' = n \<and> get_range buf q' q = Some (concat (map enc vs'))"
    using v(2) get_range_empty [OF r] by (rule Suc.IH)
  then show ?case
    using get_range_append [OF r] v(3) by simp
qed auto

lemma ts_decode_canonical:
  assumes "ts_decode buf p = Ok (s, q)"
  shows "ts_valid s \<and> get_range buf p q = Some (ts_encode_into s)"
proof -
  obtain n p' where n: "read_u16 buf p = Ok (n, p')" and i: "read_each read_u32 (unat n) buf p' = Ok (s, q)"
    and f: "from_sorted s = Ok s"
    using assms by (auto simp: ts_decode_def rbind_Ok_iff from_sorted_def split: if_splits)
  have r: "get_range buf p p' = Some (to_le_bytes n)"
    using n reads_u16 by (simp add: reads_def)
  have l: "length s = unat n \<and> get_range buf p' q = Some (concat (map to_le_bytes s))"
    by (rule reads_each [OF reads_u32 i get_range_empty [OF r]])
  have "(of_nat (length s) :: u16) = n" using l by simp
  then have "get_range buf p q = Some (ts_encode_into s)"
    using get_range_append [OF r] l by (simp add: ts_encode_into_def)
  moreover have "length s < 2 ^ 16"
    using l unsigned_less [of n] by simp
  ultimately show ?thesis
    using f by (simp add: ts_valid_def from_sorted_def ascending_in_range_iff split: if_splits)
qed

lemma encode_part_length [simp]: "length (encode_part k) = 3"
  by (cases k) simp_all

lemma decode_part_at:
  assumes "at_pos buf p (encode_part k @ rest)"
  shows "decode_part buf p = Ok (k, p + 3)"
proof -
  obtain t i where k: "encode_part k = t # to_le_bytes i" "k = (if t = 0 then Param i else if t = 1 then Const i else OuterCol i)" "t \<in> {0, 1, 2}"
    by (cases k) auto
  have at: "at_pos buf p (t # to_le_bytes i @ rest)" using assms k(1) by simp
  have "read_u16 buf (p + 1) = Ok (i, p + 1 + 2)"
    using at_pos_Suc [OF at] by (intro read_u16_at) simp
  then show ?thesis
    using k(2,3) at_pos_get_at [OF at] by (auto simp: decode_part_def)
qed

definition parts_valid :: "KeyPart list \<Rightarrow> bool" where
  "parts_valid ps \<longleftrightarrow> length ps \<le> MAX_COLUMNS"

lemma parts_round:
  assumes v: "parts_valid ps" and at: "at_pos buf p (encode_parts ps @ rest)"
  shows "decode_parts buf p = Ok (ps, p + length (encode_parts ps))"
proof -
  have at0: "at_pos buf p (to_le_bytes (of_nat (length ps) :: u16) @ concat (map encode_part ps) @ rest)"
    using at by (simp add: encode_parts_def)
  have at1: "at_pos buf (p + 2) (concat (map encode_part ps) @ rest)"
    by (rule at_pos_add [OF at0]) simp
  have n: "unat (of_nat (length ps) :: u16) = length ps"
    using v by (intro unat_of_nat_u16) (simp add: parts_valid_def MAX_COLUMNS_def)
  have "read_each decode_part (length ps) buf (p + 2) = Ok (ps, p + 2 + length (concat (map encode_part ps)))"
    by (rule read_each_at [OF _ at1]) (simp add: decode_part_at)
  then show ?thesis
    using v by (simp add: decode_parts_def read_u16_at [OF at0] n parts_valid_def encode_parts_def)
qed

definition bound_valid :: "KeyBound option \<Rightarrow> bool" where
  "bound_valid b \<longleftrightarrow> (case b of None \<Rightarrow> True | Some b \<Rightarrow> parts_valid (parts b))"

lemma bound_round:
  assumes v: "bound_valid b" and at: "at_pos buf p (encode_bound b @ rest)"
  shows "decode_bound buf p = Ok (b, p + length (encode_bound b))"
proof (cases b)
  case None
  then show ?thesis
    using at at_pos_get_at [of buf p 0 rest] by (simp add: encode_bound_def decode_bound_def)
next
  case (Some k)
  let ?t = "1 OR push_bit 1 (if inclusive k then 1 else 0) :: byte"
  have at0: "at_pos buf p (?t # encode_parts (parts k) @ rest)"
    using at Some by (simp add: encode_bound_def)
  have "decode_parts buf (p + 1) = Ok (parts k, p + 1 + length (encode_parts (parts k)))"
    using v Some at_pos_Suc [OF at0] by (intro parts_round) (simp_all add: bound_valid_def)
  moreover have "?t AND 1 \<noteq> 0" "(?t AND 2 \<noteq> 0) = inclusive k"
    by (simp_all split: if_split)
  ultimately show ?thesis
    using at_pos_get_at [OF at0] Some by (cases k) (simp add: decode_bound_def encode_bound_def)
qed

definition access_valid :: "KeyAccess \<Rightarrow> bool" where
  "access_valid a \<longleftrightarrow> (case a of Full \<Rightarrow> True | Point ps \<Rightarrow> parts_valid ps | Range lo hi \<Rightarrow> bound_valid lo \<and> bound_valid hi)"

definition fp_valid :: "Footprint \<Rightarrow> bool" where
  "fp_valid f \<longleftrightarrow> ts_valid (tables_read f) \<and> ts_valid (tables_written f) \<and> access_valid (key_access f)
    \<and> (read_only f \<longrightarrow> tables_written f = [])"

lemma access_round:
  assumes v: "access_valid a"
    and at: "at_pos buf p ((case a of Full \<Rightarrow> [0] | Point ps \<Rightarrow> 1 # encode_parts ps
      | Range lo hi \<Rightarrow> 2 # encode_bound lo @ encode_bound hi) @ rest)"
  shows "decode_access buf p = Ok (a, p + length (case a of Full \<Rightarrow> [0 :: byte] | Point ps \<Rightarrow> 1 # encode_parts ps
      | Range lo hi \<Rightarrow> 2 # encode_bound lo @ encode_bound hi))"
proof (cases a)
  case Full
  then show ?thesis
    using at at_pos_get_at [of buf p 0 rest] by (simp add: decode_access_def)
next
  case (Point ps)
  have at0: "at_pos buf p (1 # encode_parts ps @ rest)" using at Point by simp
  have "decode_parts buf (p + 1) = Ok (ps, p + 1 + length (encode_parts ps))"
    using v Point at_pos_Suc [OF at0] by (intro parts_round) (simp_all add: access_valid_def)
  then show ?thesis
    using at_pos_get_at [OF at0] Point by (simp add: decode_access_def)
next
  case (Range lo hi)
  have at0: "at_pos buf p (2 # encode_bound lo @ encode_bound hi @ rest)" using at Range by simp
  have at1: "at_pos buf (p + 1) (encode_bound lo @ encode_bound hi @ rest)" using at_pos_Suc [OF at0] by simp
  have "decode_bound buf (p + 1) = Ok (lo, p + 1 + length (encode_bound lo))"
    using v Range at1 by (intro bound_round) (simp_all add: access_valid_def)
  moreover have "decode_bound buf (p + 1 + length (encode_bound lo)) = Ok (hi, p + 1 + length (encode_bound lo) + length (encode_bound hi))"
    using v Range at_pos_add [OF at1] by (intro bound_round) (simp_all add: access_valid_def)
  ultimately show ?thesis
    using at_pos_get_at [OF at0] Range by (simp add: decode_access_def)
qed

lemma fp_round:
  assumes v: "fp_valid f" and at: "at_pos buf p (fp_encode_into f @ rest)"
  shows "fp_decode buf p = Ok (f, p + length (fp_encode_into f))"
proof -
  let ?acc = "case key_access f of Full \<Rightarrow> [0] | Point ps \<Rightarrow> 1 # encode_parts ps
      | Range lo hi \<Rightarrow> 2 # encode_bound lo @ encode_bound hi"
  let ?R = "ts_encode_into (tables_read f)" and ?W = "ts_encode_into (tables_written f)"
    and ?I = "to_le_bytes (indexes_used f)" and ?o = "if read_only f then 1 else 0 :: byte"
  have at0: "at_pos buf p (?R @ ?W @ ?I @ ?o # ?acc @ rest)" using at by (simp add: fp_encode_into_def)
  have at1: "at_pos buf (p + length ?R) (?W @ ?I @ ?o # ?acc @ rest)" by (rule at_pos_add [OF at0]) simp
  have at2: "at_pos buf (p + length ?R + length ?W) (?I @ ?o # ?acc @ rest)" by (rule at_pos_add [OF at1]) simp
  have at3: "at_pos buf (p + length ?R + length ?W + 8) (?o # ?acc @ rest)" by (rule at_pos_add [OF at2]) simp
  have at4: "at_pos buf (p + length ?R + length ?W + 8 + 1) (?acc @ rest)" using at_pos_Suc [OF at3] by simp
  have "ts_decode buf p = Ok (tables_read f, p + length ?R)"
    using v at0 by (intro ts_round) (simp_all add: fp_valid_def)
  moreover have "ts_decode buf (p + length ?R) = Ok (tables_written f, p + length ?R + length ?W)"
    using v at1 by (intro ts_round) (simp_all add: fp_valid_def)
  moreover have "decode_access buf (p + length ?R + length ?W + 8 + 1) = Ok (key_access f, p + length ?R + length ?W + 8 + 1 + length ?acc)"
    using v at4 by (intro access_round) (simp_all add: fp_valid_def)
  ultimately show ?thesis
    using v read_u64_at [OF at2] at_pos_get_at [OF at3]
    by (cases f) (simp add: fp_decode_def fp_encode_into_def fp_valid_def split: if_splits)
qed

interpretation footprint_codec: pos_codec fp_encode_into "\<lambda>_ :: unit. fp_decode" "\<lambda>_. fp_valid" "\<lambda>_. True"
  by unfold_locales (auto intro: fp_round)

lemma capture_round:
  assumes "ts_valid (captured c)" "ts_valid (blocked c)"
  shows "capture_decode (capture_encode c) = Ok c"
proof -
  let ?buf = "capture_encode c"
  have at0: "at_pos ?buf 0 (to_le_bytes (generation c) @ ts_encode_into (captured c) @ ts_encode_into (blocked c))"
    by (simp add: capture_encode_def)
  have at1: "at_pos ?buf (0 + 8) (ts_encode_into (captured c) @ ts_encode_into (blocked c))"
    by (rule at_pos_add [OF at0]) simp
  have at2: "at_pos ?buf (0 + 8 + length (ts_encode_into (captured c))) (ts_encode_into (blocked c) @ [])"
    using at_pos_add [OF at1] by simp
  have "get_range ?buf 0 (0 + 8) = Some (to_le_bytes (generation c))"
    by (rule at_pos_get_range [OF at0]) simp
  then show ?thesis
    using ts_round [OF assms(1) at1] ts_round [OF assms(2) at2]
    by (cases c) (simp add: capture_decode_def capture_encode_def)
qed

lemma dirty_round: "dirty_decode (dirty_encode e) = Ok e"
proof -
  have "dirty_op_from_tag (dirty_op_tag (op e)) = Ok (op e)"
    by (cases "op e") (simp_all add: dirty_op_from_tag_def)
  then show ?thesis
    by (cases e) (simp add: dirty_decode_def dirty_encode_def)
qed

text \<open>The whole dirty family lies between the prefix and its end.\<close>

lemma dirty_key_range: "CDC_DIRTY_PREFIX \<le> dirty_key h t pk \<and> dirty_key h t pk < CDC_DIRTY_PREFIX_END"
  by (simp add: dirty_key_def CDC_DIRTY_PREFIX_def CDC_DIRTY_PREFIX_END_def)

lemma full_count_reads_empty:
  assumes n: "n = 2 ^ 16"
  shows "ascending (map of_nat [0..<n]) \<and> (\<forall>t\<in>set (map of_nat [0..<n] :: TableSet). unat t < MAX_TABLES_CEILING)
    \<and> length (map of_nat [0..<n] :: TableSet) = 2 ^ 16
    \<and> ts_decode (ts_encode_into (map of_nat [0..<n])) 0 = Ok ([], 2)"
proof (intro conjI)
  let ?s = "map of_nat [0..<n] :: TableSet"
  have u: "i < n \<Longrightarrow> unat (of_nat i :: u32) = i" for i
    using n by (simp add: unat_of_nat)
  show "ascending ?s"
    unfolding ascending_def sorted_wrt_map
    by (rule sorted_wrt_mono_rel [OF _ sorted_wrt_upt]) (simp add: word_less_nat_alt u)
  show "\<forall>t\<in>set ?s. unat t < MAX_TABLES_CEILING"
    using u n by (auto simp: MAX_TABLES_CEILING_def)
  show "length ?s = 2 ^ 16" using n by simp
  have c: "(of_nat (length ?s) :: u16) = 0" using n by simp
  have e: "ts_encode_into ?s = [0, 0] @ concat (map to_le_bytes ?s)"
    unfolding ts_encode_into_def c by (simp add: to_le_bytes_def numeral_2_eq_2)
  show "ts_decode (ts_encode_into ?s) 0 = Ok ([], 2)"
    unfolding e by (simp add: ts_decode_def read_u16_def get_range_def from_sorted_def from_le_bytes_def numeral_2_eq_2)
qed

section \<open>Properties\<close>

text \<open>
  C13: a table set is a set: every operation keeps the vector strictly ascending and does to the set of
  its ids what its name says, and two vectors with the same ids are the same vector.
\<close>

theorem table_set_refines_sets:
  assumes "ascending s" and "ascending t"
  shows "ascending (ts_insert s x) \<and> set (ts_insert s x) = insert x (set s)
    \<and> ascending (ts_remove s x) \<and> set (ts_remove s x) = set s - {x}
    \<and> (ts_contains s x \<longleftrightarrow> x \<in> set s)
    \<and> ascending (union_with s t) \<and> set (union_with s t) = set s \<union> set t
    \<and> (intersects s t \<longleftrightarrow> set s \<inter> set t \<noteq> {})
    \<and> (set s = set t \<longrightarrow> s = t)"
  using ascending_unique [OF assms]
  by (simp add: ts_insert_set [OF assms(1)] ts_remove_set [OF assms(1)] ts_contains_set [OF assms(1)]
    union_with_set [OF assms(1)] intersects_set [OF assms])

theorem table_set_refines_sets_witness:
  "ascending [2, 5] \<and> ascending [3] \<and> set (ts_insert [2, 5] 4) = {2, 4, 5} \<and> \<not> intersects [2, 5] [3]"
proof -
  have a: "ascending [2, 5]" "ascending [3]" by (simp_all add: ascending_def)
  show ?thesis
    using a table_set_refines_sets [OF a, of 4] by (simp add: insert_commute)
qed

text \<open>
  C15: the table-set codec is canonical: what \<open>decode\<close> accepts is a strictly ascending set in range, and
  the bytes it consumed are exactly what \<open>encode_into\<close> writes for that set, so a set has one encoding.
\<close>

theorem table_set_encoding_canonical:
  assumes "ts_decode buf p = Ok (s, q)"
  shows "ascending s \<and> (\<forall>t\<in>set s. unat t < MAX_TABLES_CEILING) \<and> get_range buf p q = Some (ts_encode_into s)"
  using ts_decode_canonical [OF assms] by (simp add: ts_valid_def)

theorem table_set_encoding_canonical_witness:
  "ts_decode (ts_encode_into [7, 9]) 0 = Ok ([7, 9], length (ts_encode_into [7, 9]))
    \<and> get_range (ts_encode_into [7, 9]) 0 (length (ts_encode_into [7, 9])) = Some (ts_encode_into [7, 9])"
proof -
  have "ts_valid [7, 9]" by (simp add: ts_valid_def ascending_def MAX_TABLES_CEILING_def)
  then have d: "ts_decode (ts_encode_into [7, 9]) 0 = Ok ([7, 9], length (ts_encode_into [7, 9]))"
    using ts_round [of "[7, 9]" "ts_encode_into [7, 9]" 0 "[]"] by simp
  show ?thesis
    using table_set_encoding_canonical [OF d] d by simp
qed

text \<open>
  C16: a footprint and a capture record read back as they were written, at any position for the
  footprint, and a dirty entry too; the dirty entries' keys lie inside the scanned range.
\<close>

theorem footprint_round_trip:
  assumes "fp_valid f" and "at_pos buf p (fp_encode_into f @ rest)" and "ts_valid (captured c)" and "ts_valid (blocked c)"
  shows "fp_decode buf p = Ok (f, p + length (fp_encode_into f)) \<and> capture_decode (capture_encode c) = Ok c
    \<and> dirty_decode (dirty_encode e) = Ok e
    \<and> CDC_DIRTY_PREFIX \<le> dirty_key h t pk \<and> dirty_key h t pk < CDC_DIRTY_PREFIX_END"
  using footprint_codec.round [OF assms(1) TrueI assms(2)] capture_round [OF assms(3,4)] dirty_round dirty_key_range by blast

theorem footprint_round_trip_witness:
  "let f = \<lparr>tables_read = [1], tables_written = [2], indexes_used = 1, key_access = Point [Param 0], read_only = False\<rparr>
   in fp_decode (fp_encode_into f) 0 = Ok (f, length (fp_encode_into f))"
proof -
  let ?f = "\<lparr>tables_read = [1], tables_written = [2], indexes_used = 1, key_access = Point [Param 0], read_only = False\<rparr>"
  have "fp_valid ?f"
    by (simp add: fp_valid_def ts_valid_def ascending_def access_valid_def parts_valid_def MAX_TABLES_CEILING_def MAX_COLUMNS_def)
  then show ?thesis
    using footprint_round_trip [of ?f "fp_encode_into ?f" 0 "[]" "\<lparr>captured = [], blocked = [], generation = 0\<rparr>"]
    by (simp add: ts_valid_def ascending_def)
qed

text \<open>
  C17: the conflict test is exact on well-formed footprints: it says yes exactly when some table is
  written by one and read or written by the other, whatever the order of the two.
\<close>

theorem conflicts_with_exact:
  assumes "fp_valid f" and "fp_valid g"
  shows "conflicts_with f g = conflicts_with g f
    \<and> (conflicts_with f g \<longleftrightarrow> (\<exists>t. writes_table f t \<and> (reads_table g t \<or> writes_table g t)
      \<or> writes_table g t \<and> reads_table f t))"
proof -
  have a: "ascending (tables_read f)" "ascending (tables_written f)" "ascending (tables_read g)" "ascending (tables_written g)"
    using assms by (simp_all add: fp_valid_def ts_valid_def)
  show ?thesis
    unfolding conflicts_with_def reads_table_def writes_table_def ts_contains_set [OF a(1)] ts_contains_set [OF a(2)]
      ts_contains_set [OF a(3)] ts_contains_set [OF a(4)] intersects_set [OF a(2,3)] intersects_set [OF a(2,4)]
      intersects_set [OF a(4,1)] intersects_set [OF a(4,2)]
    by blast
qed

theorem conflicts_with_exact_witness:
  "let f = \<lparr>tables_read = [1], tables_written = [2], indexes_used = 0, key_access = Full, read_only = False\<rparr>;
       g = \<lparr>tables_read = [2], tables_written = [], indexes_used = 0, key_access = Full, read_only = True\<rparr>
   in conflicts_with f g \<and> conflicts_with g f"
proof -
  let ?f = "\<lparr>tables_read = [1], tables_written = [2], indexes_used = 0, key_access = Full, read_only = False\<rparr>"
  let ?g = "\<lparr>tables_read = [2], tables_written = [], indexes_used = 0, key_access = Full, read_only = True\<rparr>"
  have "fp_valid ?f" "fp_valid ?g"
    by (simp_all add: fp_valid_def ts_valid_def ascending_def access_valid_def MAX_TABLES_CEILING_def)
  moreover have "conflicts_with ?f ?g" by (simp add: conflicts_with_def)
  ultimately show ?thesis
    using conflicts_with_exact [of ?f ?g] by (simp add: Let_def)
qed

text \<open>
  C27: the count field truncates: a set of \<open>2 ^ 16\<close> tables, all of them below the ceiling on ids, is
  written with count zero, and reads back as the empty set.
\<close>

theorem table_set_count_truncates:
  "\<exists>s. ascending s \<and> list_all (\<lambda>t. unat t < MAX_TABLES_CEILING) s \<and> length s = 2 ^ 16
    \<and> ts_decode (ts_encode_into s) 0 = Ok ([], 2)"
  unfolding list_all_iff
  by (rule exI [where x = "map of_nat [0..<2 ^ 16]"]) (rule full_count_reads_empty, rule refl)

end
