(* ===== verification/Collab_Edit.thy ===== *)
theory Collab_Edit
  imports Mpedb_Prelude
begin

text \<open>
  The two pieces of arithmetic behind concurrent editing: rebasing a byte splice through edits that
  committed first (\<open>mpedb-types/src/subedit.rs\<close>) and fractional order keys
  (\<open>mpedb-types/src/ordkey.rs\<close>).
\<close>

section \<open>Splices\<close>

record Splice =
  sp_at :: u64
  sp_remove :: u64
  sp_insert :: bytes

datatype Clash = RemovedSpansOverlap | InsertedInsideMyRemoval | MyPositionWasRemoved

definition inserted :: "Splice \<Rightarrow> u64" where
  "inserted s = of_nat (length (sp_insert s))"

definition sp_end :: "Splice \<Rightarrow> u64" where
  "sp_end s = sp_at s + sp_remove s"

text \<open>\<open>Err Panic\<close> is the \<open>expect\<close> on the checked subtraction.\<close>

definition rebase :: "Splice \<Rightarrow> Splice \<Rightarrow> (Clash + Splice) result" where
  "rebase self earlier =
    (let a = sp_at self; r = sp_remove self; b = sp_at earlier; s = sp_remove earlier; j = inserted earlier;
         clash = (if r \<noteq> 0 \<or> s \<noteq> 0
           then if r > 0 \<and> s > 0
                then if a < sp_end earlier \<and> b < sp_end self then Some RemovedSpansOverlap else None
                else if r > 0
                then if a < b \<and> b < sp_end self then Some InsertedInsideMyRemoval else None
                else if b < a \<and> a < sp_end earlier then Some MyPositionWasRemoved else None
           else None)
     in case clash of
          Some c \<Rightarrow> Ok (Inl c)
        | None \<Rightarrow>
            if sp_end earlier \<le> a
            then if s \<le> a + j then Ok (Inr (self\<lparr>sp_at := a + j - s\<rparr>)) else Err Panic
            else Ok (Inr self))"

fun rebase_through :: "Splice \<Rightarrow> Splice list \<Rightarrow> (Clash + Splice) result" where
  "rebase_through cur [] = Ok (Inr cur)"
| "rebase_through cur (e # history) = rbind (rebase cur e) (\<lambda>x. case x of
     Inl c \<Rightarrow> Ok (Inl c)
   | Inr cur' \<Rightarrow> rebase_through cur' history)"

text \<open>
  \<open>buf.splice(at..end, ..)\<close> panics on a range whose end is below its start, which the wrapping sum
  \<open>at + remove\<close> can give.
\<close>

definition sp_apply :: "Splice \<Rightarrow> bytes \<Rightarrow> bytes result" where
  "sp_apply s buf =
    (let at = min (unat (sp_at s)) (length buf);
         stop = min (unat (of_nat at + sp_remove s :: u64)) (length buf)
     in if at \<le> stop then Ok (take at buf @ sp_insert s @ drop stop buf) else Err Panic)"

section \<open>Fractional order keys\<close>

text \<open>Digit \<open>i\<close> of a key, zero past its end.\<close>

definition digit :: "bytes \<Rightarrow> nat \<Rightarrow> nat" where
  "digit a i = (if i < length a then unat (a ! i) else 0)"

text \<open>The carry loop, right to left, on the digits as a list: the carry out and the digits.\<close>

fun carry :: "nat list \<Rightarrow> nat \<times> nat list" where
  "carry [] = (0, [])"
| "carry (s # ss) = (let (c, ds) = carry ss; t = s + c
     in if t \<ge> 256 then (1, (t - 256) # ds) else (0, t # ds))"

fun halve :: "nat \<Rightarrow> nat list \<Rightarrow> bytes \<times> nat" where
  "halve rem [] = ([], rem)"
| "halve rem (s # ss) = (let cur = rem * 256 + s; (out, r) = halve (cur mod 2) ss
     in (of_nat (cur div 2) # out, r))"

definition pop_zeros :: "bytes \<Rightarrow> bytes" where
  "pop_zeros out = rev (dropWhile (\<lambda>b. b = 0) (rev out))"

definition between :: "bytes option \<Rightarrow> bytes option \<Rightarrow> bytes option" where
  "between lo hi =
    (let a = (case lo of None \<Rightarrow> [] | Some x \<Rightarrow> x);
         (hi_is_one, b) = (case hi of Some h \<Rightarrow> (False, h) | None \<Rightarrow> (True, []))
     in if \<not> hi_is_one \<and> a \<ge> b then None
        else
          let n = max (length a) (length b) + 1;
              sum = map (\<lambda>i. digit a i + digit b i) [0..<n];
              (c, sum) = carry sum;
              int_part = (if hi_is_one then 1 else 0) + c;
              (out, rem) = halve int_part sum;
              out = (if rem > 0 then out @ [128] else out);
              out = pop_zeros out
          in if out \<le> a \<or> \<not> hi_is_one \<and> out \<ge> b then None else Some out)"

definition initial :: "nat \<Rightarrow> bytes list" where
  "initial n = map (\<lambda>i. let step = 256 div (n + 1) in [of_nat (min 255 (max 1 ((i + 1) * step)))]) [0..<n]"

section \<open>Lemmas: splices\<close>

text \<open>Replacing a range of a byte string, with positions that are not machine words.\<close>

definition replace :: "nat \<Rightarrow> nat \<Rightarrow> bytes \<Rightarrow> bytes \<Rightarrow> bytes" where
  "replace at r ins buf = take at buf @ ins @ drop (at + r) buf"

definition in_range :: "Splice \<Rightarrow> bytes \<Rightarrow> bool" where
  "in_range s buf \<longleftrightarrow> unat (sp_at s) + unat (sp_remove s) \<le> length buf"

text \<open>Buffers and inserted texts whose sizes, added up, are machine words.\<close>

definition sizes_ok :: "Splice \<Rightarrow> Splice \<Rightarrow> bytes \<Rightarrow> bool" where
  "sizes_ok s e buf \<longleftrightarrow> length buf + length (sp_insert s) + length (sp_insert e) < 2 ^ 64"

lemma unat_add_u64: "unat (a :: u64) + unat b < 2 ^ 64 \<Longrightarrow> unat (a + b) = unat a + unat b"
  by (simp add: unat_word_ariths)

lemma apply_in_range:
  assumes "in_range s buf" "length buf < 2 ^ 64"
  shows "sp_apply s buf = Ok (replace (unat (sp_at s)) (unat (sp_remove s)) (sp_insert s) buf)"
proof -
  have at: "min (unat (sp_at s)) (length buf) = unat (sp_at s)"
    using assms(1) by (simp add: in_range_def)
  have "unat (of_nat (unat (sp_at s)) + sp_remove s) = unat (sp_at s) + unat (sp_remove s)"
    using assms unat_add_u64 [of "sp_at s" "sp_remove s"] by (simp add: in_range_def)
  then show ?thesis
    using assms(1) by (simp add: sp_apply_def at Let_def replace_def in_range_def)
qed

text \<open>The two outcomes of a rebase that does not clash.\<close>

lemma rebase_cases:
  assumes re: "rebase s e = Ok (Inr s')" and r: "in_range s buf" "in_range e buf" and sz: "sizes_ok s e buf"
  obtains (before) "unat (sp_at e) + unat (sp_remove e) \<le> unat (sp_at s)"
      "unat (sp_at s') = unat (sp_at s) + length (sp_insert e) - unat (sp_remove e)"
      "sp_remove s' = sp_remove s" "sp_insert s' = sp_insert s"
  | (after) "unat (sp_at s) + unat (sp_remove s) \<le> unat (sp_at e)"
      "\<not> unat (sp_at e) + unat (sp_remove e) \<le> unat (sp_at s)" "s' = s"
proof -
  have small: "unat (sp_at s) + unat (sp_remove s) < 2 ^ 64" "unat (sp_at e) + unat (sp_remove e) < 2 ^ 64"
    "unat (sp_at s) + length (sp_insert e) < 2 ^ 64" "length (sp_insert e) < 2 ^ 64"
    using r sz by (auto simp: in_range_def sizes_ok_def)
  have es: "unat (sp_end s) = unat (sp_at s) + unat (sp_remove s)" "unat (sp_end e) = unat (sp_at e) + unat (sp_remove e)"
    using small by (simp_all add: sp_end_def unat_add_u64)
  have j: "unat (inserted e) = length (sp_insert e)"
    using small(4) by (simp add: inserted_def unat_of_nat)
  have aj: "unat (sp_at s + inserted e) = unat (sp_at s) + length (sp_insert e)"
    using small(3) j by (simp add: unat_add_u64)
  show thesis
  proof (cases "sp_end e \<le> sp_at s")
    case True
    have le: "sp_remove e \<le> sp_at s + inserted e"
      using True es by (simp add: word_le_nat_alt aj)
    have "s' = s\<lparr>sp_at := sp_at s + inserted e - sp_remove e\<rparr>"
      using re True le by (simp add: rebase_def Let_def split: if_splits)
    moreover have "unat (sp_at s + inserted e - sp_remove e) = unat (sp_at s) + length (sp_insert e) - unat (sp_remove e)"
      using le by (simp add: unat_sub aj)
    ultimately show thesis
      using before True es by (simp add: word_le_nat_alt)
  next
    case False
    have s': "s' = s"
      using re False by (auto simp: rebase_def Let_def split: if_splits option.splits)
    have "sp_end s \<le> sp_at e"
    proof (rule ccontr)
      assume n: "\<not> sp_end s \<le> sp_at e"
      have ne: "sp_at s < sp_end e" "sp_at e < sp_end s" using n False by simp_all
      have "sp_remove s = 0 \<longrightarrow> sp_end s = sp_at s" "sp_remove e = 0 \<longrightarrow> sp_end e = sp_at e"
        by (simp_all add: sp_end_def)
      then show False
        using re ne by (auto simp: rebase_def Let_def word_neq_0_conv split: if_splits)
    qed
    then show thesis
      using after s' False es by (simp add: word_le_nat_alt)
  qed
qed

text \<open>Both edits made to the base, the earlier one's text first where they touch.\<close>

definition both_edits :: "Splice \<Rightarrow> Splice \<Rightarrow> bytes \<Rightarrow> bytes" where
  "both_edits s e buf =
    (let a = unat (sp_at s); r = unat (sp_remove s); b = unat (sp_at e); q = unat (sp_remove e)
     in if b + q \<le> a
        then take b buf @ sp_insert e @ take (a - (b + q)) (drop (b + q) buf) @ sp_insert s @ drop (a + r) buf
        else take a buf @ sp_insert s @ take (b - (a + r)) (drop (a + r) buf) @ sp_insert e @ drop (b + q) buf)"

lemma rebase_applies:
  assumes re: "rebase s e = Ok (Inr s')" and r: "in_range s buf" "in_range e buf" and sz: "sizes_ok s e buf"
  shows "rbind (sp_apply e buf) (sp_apply s') = Ok (both_edits s e buf)"
proof -
  let ?a = "unat (sp_at s)" and ?r = "unat (sp_remove s)" and ?b = "unat (sp_at e)" and ?q = "unat (sp_remove e)"
    and ?j = "length (sp_insert e)"
  have len: "length buf < 2 ^ 64" using sz by (simp add: sizes_ok_def)
  have e: "sp_apply e buf = Ok (replace ?b ?q (sp_insert e) buf)" by (rule apply_in_range [OF r(2) len])
  have rng: "?a + ?r \<le> length buf" "?b + ?q \<le> length buf" using r by (simp_all add: in_range_def)
  have bl: "length (replace ?b ?q (sp_insert e) buf) = length buf - ?q + ?j"
    using rng by (simp add: replace_def)
  have sm: "length (replace ?b ?q (sp_insert e) buf) < 2 ^ 64"
    unfolding bl using sz by (simp add: sizes_ok_def)
  show ?thesis
    using re r sz
  proof (cases rule: rebase_cases)
    case before
    have in': "in_range s' (replace ?b ?q (sp_insert e) buf)"
      unfolding in_range_def bl before(2,3) using before(1) rng by simp
    have "take (?a + ?j - ?q) (replace ?b ?q (sp_insert e) buf)
        = take ?b buf @ sp_insert e @ take (?a - (?b + ?q)) (drop (?b + ?q) buf)"
      using before(1) rng by (simp add: replace_def take_append add.commute)
    moreover have "drop (?a + ?j - ?q + ?r) (replace ?b ?q (sp_insert e) buf) = drop (?a + ?r) buf"
      using before(1) rng by (simp add: replace_def drop_append)
    ultimately have "replace (?a + ?j - ?q) ?r (sp_insert s) (replace ?b ?q (sp_insert e) buf) = both_edits s e buf"
      using before(1) by (simp add: replace_def [of "?a + ?j - ?q"] both_edits_def Let_def)
    then show ?thesis
      using e apply_in_range [OF in' sm] before(2,3,4) by simp
  next
    case after
    have in': "in_range s' (replace ?b ?q (sp_insert e) buf)"
      unfolding in_range_def bl after(3) using after(1) rng by simp
    have "take ?a (replace ?b ?q (sp_insert e) buf) = take ?a buf"
      using after(1) rng by (simp add: replace_def take_append)
    moreover have "drop (?a + ?r) (replace ?b ?q (sp_insert e) buf)
        = take (?b - (?a + ?r)) (drop (?a + ?r) buf) @ sp_insert e @ drop (?b + ?q) buf"
      using after(1) rng by (simp add: replace_def drop_append drop_take)
    ultimately have "replace ?a ?r (sp_insert s) (replace ?b ?q (sp_insert e) buf) = both_edits s e buf"
      using after(2) by (simp add: replace_def [of ?a] both_edits_def Let_def)
    then show ?thesis
      using e apply_in_range [OF in' sm] after(3) by simp
  qed
qed

text \<open>The clash test does not depend on who committed first, and without a clash there is a result.\<close>

lemma rebase_total:
  assumes re: "rebase s e = Ok (Inr s')" and r: "in_range s buf" "in_range e buf" and sz: "sizes_ok s e buf"
  shows "\<exists>e'. rebase e s = Ok (Inr e')"
proof -
  have small: "unat (sp_at s) + unat (sp_remove s) < 2 ^ 64" "unat (sp_at e) + length (sp_insert s) < 2 ^ 64" "length (sp_insert s) < 2 ^ 64"
    using r sz by (auto simp: in_range_def sizes_ok_def)
  have j: "unat (inserted s) = length (sp_insert s)"
    using small(3) by (simp add: inserted_def unat_of_nat)
  have le: "sp_end s \<le> sp_at e \<Longrightarrow> sp_remove s \<le> sp_at e + inserted s"
    using small j by (simp add: word_le_nat_alt sp_end_def unat_add_u64)
  show ?thesis
    using re le by (auto simp: rebase_def Let_def word_neq_0_conv split: if_splits)
qed

lemma both_edits_swap:
  assumes "unat (sp_at e) + unat (sp_remove e) \<le> unat (sp_at s) \<or> unat (sp_at s) + unat (sp_remove s) \<le> unat (sp_at e)"
    and "\<not> (sp_at s = sp_at e \<and> sp_remove s = 0 \<and> sp_remove e = 0)"
  shows "both_edits e s buf = both_edits s e buf"
proof -
  have "\<not> (unat (sp_at e) + unat (sp_remove e) \<le> unat (sp_at s) \<and> unat (sp_at s) + unat (sp_remove s) \<le> unat (sp_at e))"
    using assms(2) by (auto simp: word_unat_eq_iff)
  then show ?thesis
    using assms(1) by (auto simp: both_edits_def Let_def)
qed

section \<open>Lemmas: order keys are fractions\<close>

text \<open>A digit list read as a base-256 number, first digit first.\<close>

fun base_val :: "nat list \<Rightarrow> nat" where
  "base_val [] = 0"
| "base_val (d # ds) = d * 256 ^ length ds + base_val ds"

text \<open>The fraction a key denotes, in units of \<open>256 ^ -n\<close>.\<close>

definition frac_val :: "nat \<Rightarrow> bytes \<Rightarrow> nat" where
  "frac_val n a = be_nat a * 256 ^ (n - length a)"

definition trimmed :: "bytes \<Rightarrow> bool" where
  "trimmed a \<longleftrightarrow> a = [] \<or> last a \<noteq> 0"

lemma be_nat_bound: "be_nat bs < 256 ^ length bs"
proof (induction bs)
  case (Cons b bs)
  have "be_nat (b # bs) < (unat b + 1) * 256 ^ length bs"
    using Cons by simp
  also have "\<dots> \<le> 256 * 256 ^ length bs"
    using unat_byte_less [of b] by (intro mult_le_mono1) linarith
  finally show ?case by simp
qed simp

lemma be_nat_pos: "trimmed bs \<Longrightarrow> bs \<noteq> [] \<Longrightarrow> 0 < be_nat bs"
proof (induction bs)
  case (Cons b bs)
  then show ?case
    by (cases "bs = []") (auto simp: trimmed_def unat_gt_0)
qed simp

lemma frac_val_Cons: "Suc (length bs) \<le> n \<Longrightarrow> frac_val n (b # bs) = unat b * 256 ^ (n - 1) + frac_val (n - 1) bs"
proof -
  assume l: "Suc (length bs) \<le> n"
  then have "256 ^ length bs * 256 ^ (n - Suc (length bs)) = (256 :: nat) ^ (n - 1)"
    by (simp flip: power_add)
  then show ?thesis
    using l by (simp add: frac_val_def distrib_right mult.assoc)
qed

lemma frac_val_bound: "length bs \<le> n \<Longrightarrow> frac_val n bs < 256 ^ n"
proof -
  assume "length bs \<le> n"
  then have "(256 :: nat) ^ n = 256 ^ length bs * 256 ^ (n - length bs)"
    by (simp flip: power_add)
  then show ?thesis
    using be_nat_bound [of bs] by (simp add: frac_val_def)
qed

lemma frac_less:
  "trimmed a \<Longrightarrow> trimmed b \<Longrightarrow> length a \<le> n \<Longrightarrow> length b \<le> n \<Longrightarrow> a < b \<longleftrightarrow> frac_val n a < frac_val n b"
proof (induction a arbitrary: b n)
  case Nil
  then show ?case
    using be_nat_pos [of b] by (cases b) (auto simp: frac_val_def)
next
  case (Cons x xs)
  show ?case
  proof (cases b)
    case Nil
    then show ?thesis by (simp add: frac_val_def)
  next
    case (Cons y ys)
    note b = Cons
    have t: "trimmed xs" "trimmed ys"
      using Cons.prems(1,2) by (auto simp: b trimmed_def split: if_splits)
    have l: "Suc (length xs) \<le> n" "Suc (length ys) \<le> n" using Cons.prems(3,4) by (simp_all add: b)
    let ?m = "n - 1" and ?F = "frac_val (n - 1) xs" and ?G = "frac_val (n - 1) ys"
    have IH: "xs < ys \<longleftrightarrow> ?F < ?G"
      using l t by (intro Cons.IH) simp_all
    have F: "?F < 256 ^ ?m" and G: "?G < 256 ^ ?m" using l by (simp_all add: frac_val_bound)
    have less: "unat u * 256 ^ ?m + f < unat v * 256 ^ ?m + g" if "unat u < unat v" "f < 256 ^ ?m" for u v :: byte and f g
    proof -
      have "unat u * 256 ^ ?m + f < (unat u + 1) * 256 ^ ?m" using that(2) by simp
      also have "\<dots> \<le> unat v * 256 ^ ?m" using that(1) by (intro mult_le_mono1) simp
      finally show ?thesis by simp
    qed
    have xy: "frac_val n (x # xs) < frac_val n (y # ys) \<longleftrightarrow> unat x < unat y \<or> unat x = unat y \<and> ?F < ?G"
      unfolding frac_val_Cons [OF l(1)] frac_val_Cons [OF l(2)]
      using less [OF _ F, of x y ?G] less [OF _ G, of y x ?F]
      by (cases "unat x" "unat y" rule: linorder_cases) auto
    show ?thesis
      unfolding b xy by (simp add: IH word_less_nat_alt word_unat_eq_iff)
  qed
qed

lemma base_val_digits:
  "length a \<le> n \<Longrightarrow> base_val (map (digit a) [0..<n]) = frac_val n a"
proof (induction a arbitrary: n)
  case Nil
  have "map (digit []) [0..<n] = replicate n 0"
    by (rule nth_equalityI) (simp_all add: digit_def)
  moreover have "base_val (replicate k 0) = 0" for k
    by (induction k) simp_all
  ultimately show ?case by (simp add: frac_val_def)
next
  case (Cons x xs)
  then obtain m where n: "n = Suc m" "length xs \<le> m" by (cases n) auto
  have "map (digit (x # xs)) [0..<Suc m] = unat x # map (digit xs) [0..<m]"
    by (simp add: digit_def upt_rec [of 0] del: upt_Suc flip: map_Suc_upt)
  then show ?case
    using Cons.IH [OF n(2)] n frac_val_Cons [of xs n x] by simp
qed

lemma base_val_add:
  "base_val (map (\<lambda>i. f i + g i) xs) = base_val (map f xs) + base_val (map g xs)"
  by (induction xs) (simp_all add: distrib_right)

lemma carry_val:
  "list_all (\<lambda>s. s \<le> 510) ss \<Longrightarrow> carry ss = (c, ds)
    \<Longrightarrow> length ds = length ss \<and> list_all (\<lambda>d. d < 256) ds \<and> c \<le> 1 \<and> base_val ss = c * 256 ^ length ss + base_val ds"
proof (induction ss arbitrary: c ds)
  case (Cons s ss)
  obtain c' ds' where r: "carry ss = (c', ds')" by fastforce
  have l: "length ds' = length ss" "list_all (\<lambda>d. d < 256) ds'" "c' \<le> 1" "base_val ss = c' * 256 ^ length ss + base_val ds'"
    using Cons.IH [OF _ r] Cons.prems(1) by simp_all
  show ?case
  proof (cases "256 \<le> s + c'")
    case True
    then have "c = 1" "ds = (s + c' - 256) # ds'" using Cons.prems(2) r by (simp_all add: Let_def)
    moreover have "(s + c') * 256 ^ length ss = 256 * 256 ^ length ss + (s + c' - 256) * 256 ^ length ss"
      using True by (simp flip: distrib_right)
    moreover have "s + c' - 256 < 256" using Cons.prems(1) l(3) by auto
    ultimately show ?thesis using l by (simp add: distrib_right)
  next
    case False
    then have "c = 0" "ds = (s + c') # ds'" using Cons.prems(2) r by (simp_all add: Let_def)
    then show ?thesis using l False by (simp add: distrib_right)
  qed
qed simp

lemma halve_val:
  "list_all (\<lambda>d. d < 256) ss \<Longrightarrow> rem \<le> 1 \<Longrightarrow> halve rem ss = (out, r)
    \<Longrightarrow> length out = length ss \<and> r \<le> 1 \<and> rem * 256 ^ length ss + base_val ss = 2 * be_nat out + r"
proof (induction ss arbitrary: rem out)
  case (Cons s ss)
  define cur where "cur = rem * 256 + s"
  obtain out' where o: "halve (cur mod 2) ss = (out', r)" "out = of_nat (cur div 2) # out'"
    using Cons.prems(3) by (auto simp: cur_def Let_def split: prod.splits)
  have IH: "length out' = length ss" "r \<le> 1" "cur mod 2 * 256 ^ length ss + base_val ss = 2 * be_nat out' + r"
    using Cons.IH [OF _ _ o(1)] Cons.prems(1) by simp_all
  have "rem * 256 \<le> 256" using Cons.prems(2) by simp
  then have "cur < 512" using Cons.prems(1) by (simp add: cur_def)
  then have "cur div 2 < 256" by simp
  then have u: "unat (of_nat (cur div 2) :: byte) = cur div 2" by (simp add: unat_of_nat)
  have "rem * 256 ^ length (s # ss) + base_val (s # ss) = cur * 256 ^ length ss + base_val ss"
    by (simp add: cur_def distrib_right)
  also have "\<dots> = (2 * (cur div 2) + cur mod 2) * 256 ^ length ss + base_val ss"
    by simp
  also have "\<dots> = 2 * (cur div 2 * 256 ^ length ss) + (cur mod 2 * 256 ^ length ss + base_val ss)"
    by (simp only: distrib_right mult.assoc add.assoc)
  also have "\<dots> = 2 * be_nat out + r"
    unfolding IH(3) o(2) by (simp add: u IH(1))
  finally show ?case
    using IH o(2) by simp
qed simp

lemma be_nat_snoc: "be_nat (xs @ [d]) = be_nat xs * 256 + unat d"
  by (induction xs) (simp_all add: distrib_right)

lemma pop_zeros_props:
  "trimmed (pop_zeros out)" "length (pop_zeros out) \<le> length out"
  "length out \<le> n \<Longrightarrow> frac_val n (pop_zeros out) = frac_val n out"
proof -
  show "trimmed (pop_zeros out)"
    using hd_dropWhile [of "\<lambda>b. b = 0" "rev out"] by (auto simp: trimmed_def pop_zeros_def last_rev)
  show "length (pop_zeros out) \<le> length out"
    using length_dropWhile_le [of "\<lambda>b. b = 0" "rev out"] by (simp add: pop_zeros_def)
  show "length out \<le> n \<Longrightarrow> frac_val n (pop_zeros out) = frac_val n out"
  proof (induction out rule: rev_induct)
    case (snoc d out)
    show ?case
    proof (cases "d = 0")
      case True
      have "frac_val n (out @ [d]) = frac_val n out"
        using snoc.prems True power_Suc [of "256 :: nat" "n - Suc (length out)"]
        by (simp add: frac_val_def be_nat_snoc Suc_diff_Suc)
      then show ?thesis
        using snoc True by (simp add: pop_zeros_def)
    qed (simp add: pop_zeros_def)
  qed (simp add: pop_zeros_def)
qed

lemma between_val:
  assumes a: "trimmed a" and b: "trimmed b" and ab: "hi_is_one \<and> b = [] \<or> \<not> hi_is_one \<and> a < b"
    and n: "n = max (length a) (length b) + 1"
    and c: "carry (map (\<lambda>i. digit a i + digit b i) [0..<n]) = (c, ds)"
    and h: "halve ((if hi_is_one then 1 else 0) + c) ds = (out, r)"
    and k: "k = pop_zeros (if r > 0 then out @ [128] else out)"
  shows "trimmed k \<and> a < k \<and> (\<not> hi_is_one \<longrightarrow> k < b)"
proof -
  let ?A = "frac_val n a" and ?B = "if hi_is_one then 256 ^ n else frac_val n b" and ?o = "if hi_is_one then 1 else 0 :: nat"
  have ln: "length a \<le> n" "length b \<le> n" using n by simp_all
  have dg: "digit x i \<le> 255" for x i
  proof -
    have "unat (x ! i) \<le> 255" using unat_byte_less [of "x ! i"] by linarith
    then show ?thesis by (simp add: digit_def)
  qed
  have sm: "list_all (\<lambda>s. s \<le> 510) (map (\<lambda>i. digit a i + digit b i) [0..<n])"
    using dg add_mono [OF dg [of a] dg [of b]] by (auto simp: list_all_iff)
  note cv = carry_val [OF sm c]
  have sum: "?A + frac_val n b = c * 256 ^ n + base_val ds"
    using cv by (simp add: base_val_add base_val_digits ln)
  have tot: "?A + ?B = (?o + c) * 256 ^ n + base_val ds"
    using sum ab by (auto simp: frac_val_def)
  have oc: "?o + c \<le> 1"
  proof (cases hi_is_one)
    case True
    then have "c * 256 ^ n \<le> ?A" using sum ab by (simp add: frac_val_def)
    then have "c = 0" using frac_val_bound [OF ln(1)] by (cases c) auto
    then show ?thesis using True by simp
  qed (use cv in simp)
  have hv: "length out = n" "r \<le> 1" "(?o + c) * 256 ^ n + base_val ds = 2 * be_nat out + r"
    using halve_val [OF _ oc h] cv by simp_all
  have AB: "?A < ?B"
    using ab frac_less [OF a b ln] frac_val_bound [OF ln(1)] by auto
  let ?k = "if r > 0 then out @ [128] else out"
  have kv: "2 * frac_val (Suc n) ?k = (?A + ?B) * 256"
  proof -
    have "frac_val (Suc n) ?k = be_nat out * 256 + (if r > 0 then 128 else 0)"
      using hv(1) by (simp add: frac_val_def be_nat_snoc)
    moreover have "?A + ?B = 2 * be_nat out + r" using tot hv(3) by simp
    ultimately show ?thesis using hv(2) by (cases "r = 0") auto
  qed
  have lk: "length ?k \<le> Suc n" using hv(1) by simp
  have fk: "frac_val (Suc n) k = frac_val (Suc n) ?k" unfolding k by (rule pop_zeros_props(3) [OF lk])
  have tk: "trimmed k" "length k \<le> Suc n" using pop_zeros_props(1,2) [of ?k] lk by (auto simp: k)
  have up: "frac_val (Suc n) x = frac_val n x * 256" if "length x \<le> n" for x
    using that by (simp add: frac_val_def Suc_diff_le)
  define K B where "K = frac_val (Suc n) ?k" and "B = ?B"
  have "?A * 256 < K"
    using kv [folded K_def B_def] AB [folded B_def] by simp
  then have "frac_val (Suc n) a < frac_val (Suc n) k"
    unfolding fk up [OF ln(1)] K_def .
  moreover have "frac_val (Suc n) k < frac_val (Suc n) b" if "\<not> hi_is_one"
    unfolding fk up [OF ln(2)] K_def [symmetric] using kv [folded K_def] AB that by simp
  ultimately show ?thesis
    using frac_less [OF a tk(1) _ tk(2)] frac_less [OF tk(1) b tk(2)] tk(1) ln by simp
qed

lemma between_some:
  assumes "trimmed (case lo of None \<Rightarrow> [] | Some x \<Rightarrow> x)" and "\<forall>h. hi = Some h \<longrightarrow> trimmed h \<and> (case lo of None \<Rightarrow> [] | Some x \<Rightarrow> x) < h"
  obtains k where "between lo hi = Some k" "trimmed k" "(case lo of None \<Rightarrow> [] | Some x \<Rightarrow> x) < k" "\<forall>h. hi = Some h \<longrightarrow> k < h"
proof -
  define a where "a = (case lo of None \<Rightarrow> [] | Some x \<Rightarrow> x)"
  obtain one b where ob: "(case hi of Some h \<Rightarrow> (False, h) | None \<Rightarrow> (True, [])) = (one, b)" by fastforce
  have ab: "one \<and> b = [] \<or> \<not> one \<and> a < b" and hb: "trimmed b" "\<forall>h. hi = Some h \<longleftrightarrow> \<not> one \<and> b = h"
    using assms(2) ob by (auto simp: a_def trimmed_def split: option.splits)
  define n where "n = max (length a) (length b) + 1"
  obtain c ds where c: "carry (map (\<lambda>i. digit a i + digit b i) [0..<n]) = (c, ds)" by fastforce
  obtain out r where h: "halve ((if one then 1 else 0) + c) ds = (out, r)" by fastforce
  define k where "k = pop_zeros (if r > 0 then out @ [128] else out)"
  have kk: "trimmed k" "a < k" "\<not> one \<longrightarrow> k < b"
    using between_val [OF assms(1) [folded a_def] hb(1) ab n_def c h k_def] by auto
  have "between lo hi = (if k \<le> a \<or> \<not> one \<and> k \<ge> b then None else Some k)"
    using ab unfolding between_def Let_def a_def [symmetric] ob prod.case n_def [symmetric] c h k_def [symmetric]
    by auto
  then have "between lo hi = Some k" using kk by auto
  then show thesis using that kk hb(2) by (auto simp: a_def)
qed

lemma initial_ascending:
  assumes "n < 256"
  shows "sorted_wrt (<) (initial n)"
proof -
  define step where "step = 256 div (n + 1)"
  have pos: "1 \<le> step" using assms by (simp add: step_def div_greater_zero_iff Suc_le_eq)
  have b: "1 \<le> (i + 1) * step \<and> (i + 1) * step \<le> 255" if "i < n" for i
  proof
    show "1 \<le> (i + 1) * step" using pos by simp
    have "(i + 1) * step < (n + 1) * step" using that pos by (intro mult_less_mono1) simp_all
    also have "(n + 1) * step \<le> 256"
      unfolding step_def by (metis div_times_less_eq_dividend mult.commute)
    finally show "(i + 1) * step \<le> 255" by simp
  qed
  have u: "unat (of_nat (min 255 (max 1 ((i + 1) * step))) :: byte) = (i + 1) * step" if "i < n" for i
    using b [OF that] by (simp add: unat_of_nat min_def max_def)
  have "[of_nat (min 255 (max 1 ((i + 1) * step)))] < [of_nat (min 255 (max 1 ((j + 1) * step))) :: byte]" if "i < j" "j < n" for i j
  proof -
    have "(i + 1) * step < (j + 1) * step" using that pos by (intro mult_less_mono1) simp_all
    then show ?thesis using that u [of i] u [of j] by (simp add: word_less_nat_alt)
  qed
  then show ?thesis
    unfolding initial_def Let_def step_def [symmetric] sorted_wrt_map
    by (auto simp: sorted_wrt_iff_nth_less)
qed

section \<open>Properties\<close>

text \<open>
  C12: rebasing is faithful. When a splice rebases through an earlier one without a clash, applying the
  earlier and then the rebased splice makes exactly both edits to the base, each replacing the bytes
  it was written against; the opposite commit order rebases too and gives the same bytes, unless both
  are insertions at one offset, where the commit order decides.
\<close>

theorem rebase_converges:
  assumes "rebase s e = Ok (Inr s')" and "in_range s buf" and "in_range e buf" and "sizes_ok s e buf"
  shows "rbind (sp_apply e buf) (sp_apply s') = Ok (both_edits s e buf)
    \<and> (\<exists>e'. rebase e s = Ok (Inr e')
      \<and> (\<not> (sp_at s = sp_at e \<and> sp_remove s = 0 \<and> sp_remove e = 0)
          \<longrightarrow> rbind (sp_apply s buf) (sp_apply e') = Ok (both_edits s e buf)))"
proof -
  obtain e' where e': "rebase e s = Ok (Inr e')" using rebase_total [OF assms] by blast
  have "sizes_ok e s buf" using assms(4) by (simp add: sizes_ok_def)
  then have "rbind (sp_apply s buf) (sp_apply e') = Ok (both_edits e s buf)"
    using e' assms by (intro rebase_applies)
  moreover have "unat (sp_at e) + unat (sp_remove e) \<le> unat (sp_at s) \<or> unat (sp_at s) + unat (sp_remove s) \<le> unat (sp_at e)"
    using assms by (cases rule: rebase_cases) auto
  ultimately show ?thesis
    using e' rebase_applies [OF assms] both_edits_swap [of e s buf] by auto
qed

theorem rebase_converges_witness:
  "let s = \<lparr>sp_at = 4, sp_remove = 1, sp_insert = [9]\<rparr>; e = \<lparr>sp_at = 0, sp_remove = 2, sp_insert = [7, 7, 7]\<rparr>;
       buf = [0, 1, 2, 3, 4, 5]
   in \<exists>s'. rebase s e = Ok (Inr s') \<and> rbind (sp_apply e buf) (sp_apply s') = Ok [7, 7, 7, 2, 3, 9, 5]"
proof -
  let ?s = "\<lparr>sp_at = 4, sp_remove = 1, sp_insert = [9]\<rparr>" and ?e = "\<lparr>sp_at = 0, sp_remove = 2, sp_insert = [7, 7, 7]\<rparr>"
  let ?buf = "[0, 1, 2, 3, 4, 5] :: bytes"
  have r: "rebase ?s ?e = Ok (Inr (?s\<lparr>sp_at := 5\<rparr>))"
    by (simp add: rebase_def sp_end_def inserted_def Let_def)
  have "in_range ?s ?buf" "in_range ?e ?buf" "sizes_ok ?s ?e ?buf"
    by (simp_all add: in_range_def sizes_ok_def)
  from rebase_converges [OF r this] r show ?thesis
    by (simp add: Let_def both_edits_def)
qed

text \<open>
  C35: \<open>between\<close> always finds room: for neighbours in order without trailing zero bytes it returns a key
  strictly between them bytewise, again without a trailing zero byte, so it can be used forever.
\<close>

theorem between_finds_room:
  assumes "trimmed (case lo of None \<Rightarrow> [] | Some x \<Rightarrow> x)"
    and "\<forall>h. hi = Some h \<longrightarrow> trimmed h \<and> (case lo of None \<Rightarrow> [] | Some x \<Rightarrow> x) < h"
  shows "\<exists>k. between lo hi = Some k \<and> trimmed k \<and> (case lo of None \<Rightarrow> [] | Some x \<Rightarrow> x) < k \<and> (\<forall>h. hi = Some h \<longrightarrow> k < h)"
  using assms by (rule between_some) blast

theorem between_finds_room_witness:
  "\<exists>k. between (Some [64]) (Some [64, 1]) = Some k \<and> [64] < k \<and> k < [64, 1]"
proof -
  have "trimmed (case Some [64] of None \<Rightarrow> [] | Some x \<Rightarrow> x)"
    "\<forall>h. Some [64, 1] = Some h \<longrightarrow> trimmed h \<and> (case Some [64] of None \<Rightarrow> [] | Some x \<Rightarrow> x) < h"
    by (simp_all add: trimmed_def)
  from between_finds_room [OF this] show ?thesis by auto
qed

text \<open>
  C36: the initial keys of a document are in order up to 255 blocks; from 256 blocks on the step is
  zero and every key is the same byte.
\<close>

theorem initial_keys:
  "(n < 256 \<longrightarrow> sorted_wrt (<) (initial n)) \<and> (256 \<le> n \<longrightarrow> initial n = replicate n [1])"
  using initial_ascending [of n] by (auto simp: initial_def map_replicate_const)

theorem initial_keys_witness:
  "sorted_wrt (<) (initial 3) \<and> initial 256 = replicate 256 [1]"
  using initial_keys [of 3] initial_keys [of 256] by simp

text \<open>
  Applying a hand-built splice can panic: where position plus removal wraps around, the range ends
  before it starts.
\<close>

theorem apply_can_panic:
  "sp_apply \<lparr>sp_at = 1, sp_remove = - 1, sp_insert = []\<rparr> [0, 0] = Err Panic"
  by (simp add: sp_apply_def)

end
