(* ===== verification/Row_Codec.thy ===== *)
theory Row_Codec
  imports Sql_Value
begin

unbundle bit_operations_syntax

text \<open>
  The row payload (\<open>mpedb-core/src/row.rs\<close>): a null bitmap, a fixed-width slot per column, and the
  variable-length bodies. Rows are encoded in parts or whole, decoded whole, under a column mask, or
  one column at a time.
\<close>

section \<open>Layout\<close>

definition fixed_width :: "ColumnType \<Rightarrow> nat" where
  "fixed_width ty = (case ty of BoolT \<Rightarrow> 1 | AnyT \<Rightarrow> 9 | _ \<Rightarrow> 8)"

definition any_tag :: "Value \<Rightarrow> byte" where
  "any_tag v = (case v of
     VNull \<Rightarrow> 0 | VInt _ \<Rightarrow> type_tag Int64T | VFloat _ \<Rightarrow> type_tag Float64T | VBool _ \<Rightarrow> type_tag BoolT
   | VText _ \<Rightarrow> type_tag TextT | VBlob _ \<Rightarrow> type_tag BlobT | VTimestamp _ \<Rightarrow> type_tag TimestampT
   | VDate _ \<Rightarrow> type_tag DateT | VTime _ \<Rightarrow> type_tag TimeT | VNumeric _ \<Rightarrow> type_tag NumericT | VList _ \<Rightarrow> 0)"

definition bitmap_len :: "nat \<Rightarrow> nat" where
  "bitmap_len n = (n + 7) div 8"

definition fixed_total :: "ColumnType list \<Rightarrow> nat" where
  "fixed_total types = sum_list (map fixed_width types)"

section \<open>Encoding\<close>

text \<open>The byte string a value keeps outside its slot.\<close>

definition body_of :: "Value \<Rightarrow> bytes option" where
  "body_of v = (case v of VText s \<Rightarrow> Some (as_bytes s) | VNumeric s \<Rightarrow> Some (as_bytes s) | VBlob b \<Rightarrow> Some b | _ \<Rightarrow> None)"

definition encoded_len :: "Value list \<Rightarrow> ColumnType list \<Rightarrow> nat" where
  "encoded_len values types = bitmap_len (length types) + fixed_total types
    + sum_list (map (\<lambda>v. case body_of v of Some b \<Rightarrow> length b | None \<Rightarrow> 0) values)"

text \<open>
  One turn of the loop of \<open>encode_row_parts\<close>: column number, cursor, length of the bodies so far and
  the head; the head afterwards.
\<close>

definition put_column :: "nat \<Rightarrow> nat \<Rightarrow> nat \<Rightarrow> bytes \<Rightarrow> Value \<Rightarrow> ColumnType \<Rightarrow> bytes result" where
  "put_column i cursor var_len head v ty =
    (let (head, off) = (if ty = AnyT \<and> \<not> is_null v then (head[cursor := any_tag v], cursor + 1) else (head, cursor))
     in case v of
          VNull \<Rightarrow> Ok (head[i div 8 := head ! (i div 8) OR push_bit (i mod 8) 1])
        | VInt x \<Rightarrow> Ok (put_at head off (to_le_bytes x))
        | VTimestamp x \<Rightarrow> Ok (put_at head off (to_le_bytes x))
        | VDate x \<Rightarrow> Ok (put_at head off (to_le_bytes x))
        | VTime x \<Rightarrow> Ok (put_at head off (to_le_bytes x))
        | VFloat x \<Rightarrow> Ok (put_at head off (to_le_bytes x))
        | VBool x \<Rightarrow> Ok (head[off := if x then 1 else 0])
        | VList _ \<Rightarrow> Err TypeMismatch
        | _ \<Rightarrow>
            let n = (case body_of v of Some b \<Rightarrow> length b | None \<Rightarrow> 0)
            in if n > 2 ^ 32 - 1 then Err Unsupported
               else Ok (put_at (put_at head off (to_le_bytes (of_nat var_len :: u32)))
                          (off + 4) (to_le_bytes (of_nat n :: u32))))"

fun put_columns :: "nat \<Rightarrow> nat \<Rightarrow> nat \<Rightarrow> bytes \<Rightarrow> (Value \<times> ColumnType) list \<Rightarrow> (bytes \<times> bytes list) result" where
  "put_columns i cursor var_len head [] = Ok (head, [])"
| "put_columns i cursor var_len head ((v, ty) # rest) =
     rbind (put_column i cursor var_len head v ty) (\<lambda>head.
     case body_of v of
       None \<Rightarrow> put_columns (i + 1) (cursor + fixed_width ty) var_len head rest
     | Some b \<Rightarrow> rbind (put_columns (i + 1) (cursor + fixed_width ty) (var_len + length b) head rest)
                   (\<lambda>(head, bodies). Ok (head, b # bodies)))"

definition encode_row_parts :: "Value list \<Rightarrow> ColumnType list \<Rightarrow> (bytes \<times> bytes list) result" where
  "encode_row_parts values types =
    (let nbm = bitmap_len (length types)
     in put_columns 0 nbm 0 (replicate (nbm + fixed_total types) 0) (zip values types))"

definition encode_row :: "Value list \<Rightarrow> ColumnType list \<Rightarrow> bytes result" where
  "encode_row values types = rbind (encode_row_parts values types) (\<lambda>(buf, bodies). Ok (buf @ concat bodies))"

definition last_varlen :: "Value list \<Rightarrow> nat option" where
  "last_varlen values =
    (let is = filter (\<lambda>i. case values ! i of VText _ \<Rightarrow> True | VBlob _ \<Rightarrow> True | _ \<Rightarrow> False) [0..<length values]
     in if is = [] then None else Some (last is))"

definition encode_row_head_for_stream :: "Value list \<Rightarrow> ColumnType list \<Rightarrow> nat \<Rightarrow> nat \<Rightarrow> (bytes \<times> nat) result" where
  "encode_row_head_for_stream values types stream_col stream_len =
    (if (case last_varlen values of Some i \<Rightarrow> i > stream_col | None \<Rightarrow> False) then Err Unsupported
     else rbind (encode_row_parts values types) (\<lambda>(head, bodies).
       if stream_col \<ge> length types then Err Panic
       else let off = bitmap_len (length types) + fixed_total (take stream_col types);
           off = (if types ! stream_col = AnyT then off + 1 else off);
           var_off = sum_list (map length bodies)
       in if stream_len > 2 ^ 32 - 1 then Err Unsupported
          else if off + 8 > length head then Err Panic
          else let head = put_at head off (to_le_bytes (of_nat var_off :: u32));
                   head = put_at head (off + 4) (to_le_bytes (of_nat stream_len :: u32));
                   head = head @ concat bodies
               in Ok (head, length head + stream_len)))"

section \<open>Decoding\<close>

definition head_len :: "ColumnType list \<Rightarrow> nat" where
  "head_len types = bitmap_len (length types) + fixed_total types"

definition varlen_window :: "bytes \<Rightarrow> ColumnType list \<Rightarrow> nat \<Rightarrow> (nat \<times> nat) option result" where
  "varlen_window head types col =
    rbind (ok_or Internal (get_at types col)) (\<lambda>ty.
    if ty \<noteq> TextT \<and> ty \<noteq> BlobT then Err Unsupported
    else rbind (ok_or Corrupt (get_at head (col div 8))) (\<lambda>bm.
    if bm AND push_bit (col mod 8) 1 \<noteq> 0 then Ok None
    else let off = bitmap_len (length types) + fixed_total (take col types)
         in rbind (ok_or Corrupt (get_range head off (off + 8))) (\<lambda>raw.
            let var_off = unat (from_le_bytes (take 4 raw) :: u32); len = unat (from_le_bytes (drop 4 raw) :: u32)
            in Ok (Some (head_len types + var_off, len)))))"

text \<open>The value of type \<open>ty\<close> whose slot payload stands at \<open>off\<close>: the match both decoders end in.\<close>

definition decode_cell :: "bytes \<Rightarrow> nat \<Rightarrow> ColumnType \<Rightarrow> nat \<Rightarrow> Value result" where
  "decode_cell buf fixed_end ty off =
    (let scalar = (\<lambda>f. rbind (ok_or Corrupt (get_range buf off (off + 8))) (\<lambda>raw. Ok (f (from_le_bytes raw))));
         varlen = (\<lambda>f. rbind (ok_or Corrupt (get_range buf off (off + 8))) (\<lambda>raw.
           let var_off = unat (from_le_bytes (take 4 raw) :: u32); len = unat (from_le_bytes (drop 4 raw) :: u32);
               start = fixed_end + var_off
           in rbind (ok_or Corrupt (get_range buf start (start + len))) f))
     in case ty of
          AnyT \<Rightarrow> Err Internal
        | BoolT \<Rightarrow> rbind (ok_or Corrupt (get_at buf off)) (\<lambda>b.
            if b = 0 then Ok (VBool False) else if b = 1 then Ok (VBool True) else Err Corrupt)
        | Int64T \<Rightarrow> scalar VInt
        | TimestampT \<Rightarrow> scalar VTimestamp
        | DateT \<Rightarrow> scalar VDate
        | TimeT \<Rightarrow> scalar VTime
        | Float64T \<Rightarrow> scalar VFloat
        | BlobT \<Rightarrow> varlen (\<lambda>bs. Ok (VBlob bs))
        | NumericT \<Rightarrow> varlen (\<lambda>bs. rbind (from_utf8 bs) (\<lambda>s. Ok (VNumeric s)))
        | TextT \<Rightarrow> varlen (\<lambda>bs. rbind (from_utf8 bs) (\<lambda>s. Ok (VText s))))"

text \<open>The type and place of the payload: an \<open>any\<close> column's slot starts with the value's tag.\<close>

definition resolve_any :: "bytes \<Rightarrow> ColumnType \<Rightarrow> nat \<Rightarrow> (ColumnType \<times> nat) result" where
  "resolve_any buf ty off =
    (if ty = AnyT then rbind (ok_or Corrupt (get_at buf off)) (\<lambda>tag.
       case type_from_tag tag of
         Some t \<Rightarrow> if t \<noteq> AnyT then Ok (t, off + 1) else Err Corrupt
       | None \<Rightarrow> Err Corrupt)
     else Ok (ty, off))"

definition decode_column :: "bytes \<Rightarrow> ColumnType list \<Rightarrow> nat \<Rightarrow> Value result" where
  "decode_column buf types col =
    (if col \<ge> length types then Err Internal
     else rbind (ok_or Corrupt (get_at buf (col div 8))) (\<lambda>bm.
       if bm AND push_bit (col mod 8) 1 \<noteq> 0 then Ok VNull
       else let off = bitmap_len (length types) + fixed_total (take col types); fixed_end = head_len types
            in rbind (resolve_any buf (types ! col) off) (\<lambda>(ty, off). decode_cell buf fixed_end ty off)))"

text \<open>The loop of \<open>decode_row_masked\<close>: column number, offset, and the columns still to come.\<close>

fun decode_columns :: "bytes \<Rightarrow> nat \<Rightarrow> bool list option \<Rightarrow> nat \<Rightarrow> nat \<Rightarrow> ColumnType list \<Rightarrow> Value list result" where
  "decode_columns buf fixed_end keep i off [] = Ok []"
| "decode_columns buf fixed_end keep i off (ty # types) =
     rbind (if (case keep of Some k \<Rightarrow> \<not> k ! i | None \<Rightarrow> False) then Ok VNull
            else rbind (ok_or Corrupt (get_at buf (i div 8))) (\<lambda>bm.
              if bm AND push_bit (i mod 8) 1 \<noteq> 0 then Ok VNull
              else rbind (resolve_any buf ty off) (\<lambda>(vty, voff). decode_cell buf fixed_end vty voff)))
       (\<lambda>v. rbind (decode_columns buf fixed_end keep (i + 1) (off + fixed_width ty) types) (\<lambda>vs. Ok (v # vs)))"

definition decode_row_masked :: "bytes \<Rightarrow> ColumnType list \<Rightarrow> bool list option \<Rightarrow> Value list result" where
  "decode_row_masked buf types keep =
    (let n_out = (case keep of None \<Rightarrow> length types | Some k \<Rightarrow> min (length k) (length types));
         nbm = bitmap_len (length types)
     in decode_columns buf (nbm + fixed_total types) keep 0 nbm (take n_out types))"

definition decode_row :: "bytes \<Rightarrow> ColumnType list \<Rightarrow> Value list result" where
  "decode_row buf types = decode_row_masked buf types None"

section \<open>Lemmas: writing the head\<close>

text \<open>The bytes a value that is not NULL leaves in its slot.\<close>

definition cell_bytes :: "Value \<Rightarrow> nat \<Rightarrow> bytes" where
  "cell_bytes v var_len = (case v of
     VInt x \<Rightarrow> to_le_bytes x | VTimestamp x \<Rightarrow> to_le_bytes x | VDate x \<Rightarrow> to_le_bytes x | VTime x \<Rightarrow> to_le_bytes x
   | VFloat x \<Rightarrow> to_le_bytes x | VBool x \<Rightarrow> [if x then 1 else 0]
   | _ \<Rightarrow> to_le_bytes (of_nat var_len :: u32)
       @ to_le_bytes (of_nat (case body_of v of Some b \<Rightarrow> length b | None \<Rightarrow> 0) :: u32))"

definition slot_bytes :: "ColumnType \<Rightarrow> Value \<Rightarrow> nat \<Rightarrow> bytes" where
  "slot_bytes ty v var_len = (if ty = AnyT then [any_tag v] else []) @ cell_bytes v var_len"

definition body_len :: "Value \<Rightarrow> nat" where
  "body_len v = (case body_of v of Some b \<Rightarrow> length b | None \<Rightarrow> 0)"

text \<open>What the engine checks before it stores a value: it fits, its text is UTF-8, its size a \<open>u32\<close>.\<close>

definition cell_ok :: "Value \<Rightarrow> ColumnType \<Rightarrow> bool" where
  "cell_ok v ty \<longleftrightarrow> fits v ty \<and> \<not> is_list v \<and> body_len v < 2 ^ 32
    \<and> (case v of VText s \<Rightarrow> valid_str s | VNumeric s \<Rightarrow> valid_str s | _ \<Rightarrow> True)"

lemma put_at_put_at:
  assumes "a + length xs + length ys \<le> length h"
  shows "put_at (put_at h a xs) (a + length xs) ys = put_at h a (xs @ ys)"
  using assms by (simp add: put_at_def ac_simps)

lemma put_at_single: "a < length h \<Longrightarrow> h[a := x] = put_at h a [x]"
  by (simp add: put_at_def upd_conv_take_nth_drop)

lemma slot_fits: "cell_ok v ty \<Longrightarrow> v \<noteq> VNull \<Longrightarrow> length (slot_bytes ty v n) \<le> fixed_width ty"
  by (cases v) (auto simp: cell_ok_def fits_def slot_bytes_def cell_bytes_def fixed_width_def is_list_def split: if_splits ColumnType.splits)

lemma put_column_slot:
  assumes ok: "cell_ok v ty" "v \<noteq> VNull" and room: "cursor + fixed_width ty \<le> length head"
  shows "put_column i cursor var_len head v ty = Ok (put_at head cursor (slot_bytes ty v var_len))"
proof -
  define tag where "tag = (if ty = AnyT then [any_tag v] else [])"
  have sl: "slot_bytes ty v var_len = tag @ cell_bytes v var_len" by (simp add: slot_bytes_def tag_def)
  have lc: "length tag + length (cell_bytes v var_len) \<le> fixed_width ty"
    using slot_fits [OF ok, of var_len] by (simp add: sl)
  have start: "(if ty = AnyT \<and> \<not> is_null v then (head[cursor := any_tag v], cursor + 1) else (head, cursor))
      = (put_at head cursor tag, cursor + length tag)"
    using ok room lc by (cases v) (auto simp: tag_def is_null_def put_at_single put_at_def fixed_width_def)
  define h off where "h = put_at head cursor tag" and "off = cursor + length tag"
  have hl: "length h = length head" using room lc by (simp add: h_def)
  have cell: "put_at h off (cell_bytes v var_len) = put_at head cursor (slot_bytes ty v var_len)"
    unfolding h_def off_def sl using room lc by (intro put_at_put_at) simp
  have four: "put_at (put_at h off x) (off + 4) y = put_at h off (x @ y)" if "length x = 4" "length y = 4" "off + 8 \<le> length h" for x y
    using put_at_put_at [of off x y h] that by simp
  have big: "off + 8 \<le> length h" if "length (cell_bytes v var_len) = 8"
    using that room lc hl by (simp add: off_def)
  have small: "body_len v \<le> 2 ^ 32 - 1" using ok by (simp add: cell_ok_def)
  show ?thesis
    unfolding put_column_def Let_def start prod.case h_def [symmetric] off_def [symmetric] cell [symmetric]
    using ok small big four room lc hl
    by (cases v) (auto simp: cell_bytes_def body_of_def body_len_def cell_ok_def is_list_def off_def put_at_single)
qed

text \<open>The null bit of a column, and what setting it does.\<close>

definition null_bit :: "bytes \<Rightarrow> nat \<Rightarrow> bool" where
  "null_bit h c = bit (h ! (c div 8)) (c mod 8)"

lemma null_bit_test: "(h ! (c div 8) AND push_bit (c mod 8) 1 \<noteq> 0) \<longleftrightarrow> null_bit h c"
proof -
  have "c mod 8 < 8" by simp
  then show ?thesis
    by (auto simp: null_bit_def and_exp_eq_0_iff_not_bit push_bit_eq_mult)
qed

lemma null_bit_set:
  assumes "c div 8 < length h"
  shows "null_bit (h[i div 8 := h ! (i div 8) OR push_bit (i mod 8) 1]) c \<longleftrightarrow> null_bit h c \<or> c = i"
proof -
  have c: "c = 8 * (c div 8) + c mod 8" "i = 8 * (i div 8) + i mod 8" by simp_all
  have "c mod 8 < 8" by simp
  then show ?thesis
    using assms c by (cases "c div 8 = i div 8") (auto simp: null_bit_def bit_simps)
qed

lemma null_bit_put_at:
  assumes "c div 8 < nbm" "nbm \<le> a" "a + length xs \<le> length h"
  shows "null_bit (put_at h a xs) c = null_bit h c"
  using assms by (simp add: null_bit_def nth_put_at)

text \<open>Start of a column's slot and of its body, counted from where the loop stands.\<close>

definition slot_at :: "(Value \<times> ColumnType) list \<Rightarrow> nat \<Rightarrow> nat" where
  "slot_at cols d = fixed_total (map snd (take d cols))"

definition body_at :: "(Value \<times> ColumnType) list \<Rightarrow> nat \<Rightarrow> nat" where
  "body_at cols d = sum_list (map (\<lambda>c. body_len (fst c)) (take d cols))"

definition bodies_of :: "(Value \<times> ColumnType) list \<Rightarrow> bytes list" where
  "bodies_of cols = map the (filter (\<lambda>b. b \<noteq> None) (map (\<lambda>c. body_of (fst c)) cols))"

lemma get_range_put_at:
  "a + length xs \<le> length h \<Longrightarrow> get_range (put_at h a xs) a (a + length xs) = Some xs"
  by (simp add: get_range_def)

lemma get_range_unchanged:
  assumes "length g = length h" and "\<And>j. a \<le> j \<Longrightarrow> j < b \<Longrightarrow> g ! j = h ! j"
  shows "get_range g a b = get_range h a b"
  using assms by (auto simp: get_range_def intro!: nth_equalityI)

text \<open>What the loop does: every column's bit and slot, and nothing else.\<close>

lemma put_columns_effect:
  assumes "list_all (\<lambda>(v, ty). cell_ok v ty) cols" and "nbm \<le> cursor"
    and "cursor + fixed_total (map snd cols) \<le> length head" and "i + length cols \<le> 8 * nbm"
  obtains h where "put_columns i cursor var_len head cols = Ok (h, bodies_of cols)" "length h = length head"
    "\<And>j. nbm \<le> j \<Longrightarrow> j < cursor \<Longrightarrow> h ! j = head ! j"
    "\<And>c. c < 8 * nbm \<Longrightarrow> null_bit h c \<longleftrightarrow> null_bit head c \<or> (i \<le> c \<and> c < i + length cols \<and> fst (cols ! (c - i)) = VNull)"
    "\<And>d. d < length cols \<Longrightarrow> fst (cols ! d) \<noteq> VNull \<Longrightarrow>
      (let x = slot_bytes (snd (cols ! d)) (fst (cols ! d)) (var_len + body_at cols d); a = cursor + slot_at cols d
       in get_range h a (a + length x) = Some x)"
  using assms
proof (induction cols arbitrary: i cursor var_len head thesis)
  case Nil
  show ?case by (rule Nil.prems(1) [of head]) (auto simp: bodies_of_def)
next
  case (Cons col cols)
  obtain v ty where vt: "col = (v, ty)" by fastforce
  have ok: "cell_ok v ty" "list_all (\<lambda>(v, ty). cell_ok v ty) cols" using Cons.prems(2) vt by simp_all
  have room: "cursor + fixed_width ty + fixed_total (map snd cols) \<le> length head"
    using Cons.prems(4) vt by (simp add: fixed_total_def)
  have nb: "nbm \<le> length head" using Cons.prems(3) room by linarith
  define x where "x = slot_bytes ty v var_len"
  define h1 where "h1 = (if v = VNull then head[i div 8 := head ! (i div 8) OR push_bit (i mod 8) 1] else put_at head cursor x)"
  have xl: "v \<noteq> VNull \<Longrightarrow> length x \<le> fixed_width ty" using slot_fits [OF ok(1)] by (simp add: x_def)
  have pc: "put_column i cursor var_len head v ty = Ok h1"
  proof (cases "v = VNull")
    case True
    then show ?thesis by (simp add: h1_def put_column_def is_null_def)
  next
    case False
    then show ?thesis
      using put_column_slot [OF ok(1) False, of cursor head i var_len] room by (simp add: h1_def x_def)
  qed
  have l1: "length h1 = length head"
    using room xl by (auto simp: h1_def)
  have fr1: "h1 ! j = head ! j" if "nbm \<le> j" "j < cursor" for j
  proof (cases "v = VNull")
    case True
    have "i div 8 < nbm" using Cons.prems(5) by simp
    then show ?thesis using True that by (simp add: h1_def)
  next
    case False
    then show ?thesis using that room xl by (simp add: h1_def nth_put_at)
  qed
  have nb1: "null_bit h1 c \<longleftrightarrow> null_bit head c \<or> c = i \<and> v = VNull" if "c < 8 * nbm" for c
  proof (cases "v = VNull")
    case True
    have "c div 8 < length head" using that nb by linarith
    then show ?thesis using True null_bit_set [of c head i] by (simp add: h1_def)
  next
    case False
    have "c div 8 < nbm" using that by simp
    then show ?thesis
      using False Cons.prems(3) room xl by (simp add: h1_def null_bit_put_at)
  qed
  define var' where "var' = var_len + body_len v"
  have "nbm \<le> cursor + fixed_width ty" "cursor + fixed_width ty + fixed_total (map snd cols) \<le> length h1"
    "i + 1 + length cols \<le> 8 * nbm"
    using Cons.prems(3,5) room l1 by simp_all
  then obtain h where h: "put_columns (i + 1) (cursor + fixed_width ty) var' h1 cols = Ok (h, bodies_of cols)"
    "length h = length h1"
    "\<And>j. nbm \<le> j \<Longrightarrow> j < cursor + fixed_width ty \<Longrightarrow> h ! j = h1 ! j"
    "\<And>c. c < 8 * nbm \<Longrightarrow> null_bit h c \<longleftrightarrow> null_bit h1 c \<or> (i + 1 \<le> c \<and> c < i + 1 + length cols \<and> fst (cols ! (c - (i + 1))) = VNull)"
    "\<And>d. d < length cols \<Longrightarrow> fst (cols ! d) \<noteq> VNull \<Longrightarrow>
      (let x = slot_bytes (snd (cols ! d)) (fst (cols ! d)) (var' + body_at cols d); a = cursor + fixed_width ty + slot_at cols d
       in get_range h a (a + length x) = Some x)"
    using Cons.IH [where i = "i + 1" and cursor = "cursor + fixed_width ty" and head = h1 and var_len = var'] ok(2) by metis
  show ?case
  proof (rule Cons.prems(1) [of h])
    show "put_columns i cursor var_len head (col # cols) = Ok (h, bodies_of (col # cols))"
      using h(1) by (cases "body_of v") (simp_all add: vt pc bodies_of_def var'_def body_len_def)
    show "length h = length head" using h(2) l1 by simp
    show "h ! j = head ! j" if "nbm \<le> j" "j < cursor" for j
      using h(3) fr1 that by simp
    show "null_bit h c \<longleftrightarrow> null_bit head c \<or> (i \<le> c \<and> c < i + length (col # cols) \<and> fst ((col # cols) ! (c - i)) = VNull)"
      if "c < 8 * nbm" for c
    proof (cases "c = i")
      case True
      then show ?thesis using h(4) [OF that] nb1 [OF that] vt by simp
    next
      case False
      have eq: "i + 1 \<le> c \<Longrightarrow> (col # cols) ! (c - i) = cols ! (c - (i + 1))"
        by (simp add: nth_Cons')
      show ?thesis using False h(4) [OF that] nb1 [OF that] eq by auto
    qed
    show "let y = slot_bytes (snd ((col # cols) ! d)) (fst ((col # cols) ! d)) (var_len + body_at (col # cols) d);
        a = cursor + slot_at (col # cols) d in get_range h a (a + length y) = Some y"
      if "d < length (col # cols)" "fst ((col # cols) ! d) \<noteq> VNull" for d
    proof (cases d)
      case 0
      then have nv: "v \<noteq> VNull" using that vt by simp
      have "get_range h cursor (cursor + length x) = get_range h1 cursor (cursor + length x)"
        using h(2,3) Cons.prems(3) xl [OF nv] by (intro get_range_unchanged) auto
      also have "\<dots> = Some x"
        using nv room xl by (simp add: h1_def get_range_put_at)
      finally show ?thesis
        by (simp add: 0 vt x_def body_at_def slot_at_def fixed_total_def)
    next
      case (Suc e)
      then have "e < length cols" "fst (cols ! e) \<noteq> VNull" using that by simp_all
      from h(5) [OF this] show ?thesis
        by (simp add: Suc vt var'_def body_at_def slot_at_def fixed_total_def Let_def add.assoc)
    qed
  qed
qed

section \<open>Lemmas: reading back\<close>

lemma get_range_grow: "get_range h a b = Some x \<Longrightarrow> get_range (h @ z) a b = Some x"
  by (auto simp: get_range_def split: if_splits)

lemma get_range_parts:
  assumes "get_range h a (a + length (x @ y)) = Some (x @ y)"
  shows "get_range h a (a + length x) = Some x" "get_range h (a + length x) (a + length x + length y) = Some y"
proof -
  have l: "a + length (x @ y) \<le> length h" and t: "take (length (x @ y)) (drop a h) = x @ y"
    using assms by (auto simp: get_range_def split: if_splits)
  have "take (length x) (drop a h) = x"
    using arg_cong [OF t, of "take (length x)"] by simp
  moreover have "take (length y) (drop (a + length x) h) = y"
    using arg_cong [OF t, of "drop (length x)"] by (simp add: drop_take add.commute)
  ultimately show "get_range h a (a + length x) = Some x" "get_range h (a + length x) (a + length x + length y) = Some y"
    using l by (simp_all add: get_range_def)
qed

lemma get_range_single: "get_range h a (a + 1) = Some [x] \<Longrightarrow> get_at h a = Some x"
  by (auto simp: get_range_def get_at_def take_Suc_conv_app_nth hd_drop_conv_nth split: if_splits)

lemma unat_of_nat_u32: "n < 2 ^ 32 \<Longrightarrow> unat (of_nat n :: u32) = n"
  by (simp add: unat_of_nat)

lemma decode_cell_round:
  assumes slot: "get_range buf off (off + length (cell_bytes v var_len)) = Some (cell_bytes v var_len)"
    and ty: "column_type v = Some t" and ok: "cell_ok v ty" and var: "var_len < 2 ^ 32"
    and body: "\<And>b. body_of v = Some b \<Longrightarrow> get_range buf (fixed_end + var_len) (fixed_end + var_len + length b) = Some b"
  shows "decode_cell buf fixed_end t off = Ok v"
proof (cases "body_of v")
  case None
  then show ?thesis
    using slot ty by (cases v) (auto simp: decode_cell_def cell_bytes_def body_of_def get_range_single)
next
  case (Some b)
  have lb: "length b < 2 ^ 32" using ok Some by (simp add: cell_ok_def body_len_def)
  have cb: "cell_bytes v var_len = to_le_bytes (of_nat var_len :: u32) @ to_le_bytes (of_nat (length b) :: u32)"
    using Some by (cases v) (simp_all add: cell_bytes_def body_of_def)
  have raw: "get_range buf off (off + 8) = Some (to_le_bytes (of_nat var_len :: u32) @ to_le_bytes (of_nat (length b) :: u32))"
    using slot by (simp add: cb)
  have v: "take 4 (to_le_bytes (of_nat var_len :: u32)) = to_le_bytes (of_nat var_len :: u32)" by simp
  show ?thesis
    using Some ty ok raw body [OF Some] unat_of_nat_u32 [OF var] unat_of_nat_u32 [OF lb]
    by (cases v) (auto simp: decode_cell_def body_of_def cell_ok_def)
qed

lemma type_tag_round: "type_from_tag (type_tag t) = Some t"
  by (cases t) (simp_all add: type_from_tag_def)

lemma any_tag_type: "column_type v = Some t \<Longrightarrow> type_from_tag (any_tag v) = Some t \<and> t \<noteq> AnyT"
  by (cases v) (auto simp: any_tag_def type_from_tag_def)

lemma decode_slot_round:
  assumes slot: "get_range buf off (off + length (slot_bytes ty v var_len)) = Some (slot_bytes ty v var_len)"
    and ok: "cell_ok v ty" and nn: "v \<noteq> VNull" and var: "var_len < 2 ^ 32"
    and body: "\<And>b. body_of v = Some b \<Longrightarrow> get_range buf (fixed_end + var_len) (fixed_end + var_len + length b) = Some b"
  shows "rbind (resolve_any buf ty off) (\<lambda>(t, o'). decode_cell buf fixed_end t o') = Ok v"
proof -
  obtain t where t: "column_type v = Some t" using ok nn by (cases v) (auto simp: cell_ok_def is_list_def)
  show ?thesis
  proof (cases "ty = AnyT")
    case True
    have sp: "slot_bytes ty v var_len = [any_tag v] @ cell_bytes v var_len" using True by (simp add: slot_bytes_def)
    note p = get_range_parts [OF slot [unfolded sp]]
    have "get_at buf off = Some (any_tag v)" using p(1) by (intro get_range_single) simp
    then show ?thesis
      using True any_tag_type [OF t] decode_cell_round [OF _ t ok var body, of "off + 1"] p(2) by (simp add: resolve_any_def)
  next
    case False
    then have "t = ty" using ok t by (simp add: cell_ok_def fits_def)
    then show ?thesis
      using False decode_cell_round [OF _ t ok var body, of off] slot by (simp add: resolve_any_def slot_bytes_def)
  qed
qed

lemma length_bodies: "length (concat (bodies_of cols)) = sum_list (map (\<lambda>c. body_len (fst c)) cols)"
  by (induction cols) (auto simp: bodies_of_def body_len_def split: option.splits)

lemma bodies_at:
  "d < length cols \<Longrightarrow> body_of (fst (cols ! d)) = Some b \<Longrightarrow>
    get_range (h @ concat (bodies_of cols)) (length h + body_at cols d) (length h + body_at cols d + length b) = Some b"
proof (induction cols arbitrary: d h)
  case (Cons c cols)
  show ?case
  proof (cases d)
    case 0
    then show ?thesis
      using Cons.prems by (simp add: bodies_of_def body_at_def get_range_def)
  next
    case (Suc e)
    obtain x where x: "concat (bodies_of (c # cols)) = x @ concat (bodies_of cols)" "length x = body_len (fst c)"
      by (cases "body_of (fst c)") (simp_all add: bodies_of_def body_len_def)
    have "get_range ((h @ x) @ concat (bodies_of cols)) (length (h @ x) + body_at cols e) (length (h @ x) + body_at cols e + length b) = Some b"
      using Cons.prems Suc by (intro Cons.IH) simp_all
    then show ?thesis
      using x by (simp add: Suc body_at_def add.assoc)
  qed
qed simp

section \<open>Lemmas: rows\<close>

definition row_ok :: "Value list \<Rightarrow> ColumnType list \<Rightarrow> bool" where
  "row_ok values types \<longleftrightarrow> list_all2 cell_ok values types \<and> sum_list (map body_len values) < 2 ^ 32"

lemma bitmap_covers: "n \<le> 8 * bitmap_len n"
  by (simp add: bitmap_len_def)

lemma zip_cols:
  assumes "list_all2 cell_ok values types"
  shows "list_all (\<lambda>(v, ty). cell_ok v ty) (zip values types)" "map snd (zip values types) = types"
    "map fst (zip values types) = values" "length (zip values types) = length types" "length values = length types"
  using assms by (auto simp: list_all2_iff list_all_iff)

lemma null_bit_zero: "c < 8 * k \<Longrightarrow> \<not> null_bit (replicate (k + m) 0) c"
proof -
  assume "c < 8 * k"
  then have "c div 8 < k + m" by linarith
  then show ?thesis by (simp add: null_bit_def)
qed

lemma encode_row_layout:
  assumes l2: "list_all2 cell_ok values types"
  obtains h where "encode_row values types = Ok (h @ concat (bodies_of (zip values types)))" "length h = head_len types"
    "\<And>c. c < length types \<Longrightarrow> null_bit h c \<longleftrightarrow> values ! c = VNull"
    "\<And>d. d < length types \<Longrightarrow> values ! d \<noteq> VNull \<Longrightarrow>
      (let x = slot_bytes (types ! d) (values ! d) (body_at (zip values types) d);
           a = bitmap_len (length types) + fixed_total (take d types)
       in get_range h a (a + length x) = Some x)"
proof -
  let ?n = "bitmap_len (length types)" and ?cols = "zip values types"
  let ?h0 = "replicate (?n + fixed_total types) (0 :: byte)"
  note z = zip_cols [OF l2]
  have cov: "0 + length ?cols \<le> 8 * ?n" using bitmap_covers [of "length types"] z(4) by simp
  have room: "?n + fixed_total (map snd ?cols) \<le> length ?h0" by (simp add: z(2))
  obtain h where h: "put_columns 0 ?n 0 ?h0 ?cols = Ok (h, bodies_of ?cols)" "length h = length ?h0"
    "\<And>c. c < 8 * ?n \<Longrightarrow> null_bit h c \<longleftrightarrow> null_bit ?h0 c \<or> (0 \<le> c \<and> c < 0 + length ?cols \<and> fst (?cols ! (c - 0)) = VNull)"
    "\<And>d. d < length ?cols \<Longrightarrow> fst (?cols ! d) \<noteq> VNull \<Longrightarrow>
      (let x = slot_bytes (snd (?cols ! d)) (fst (?cols ! d)) (0 + body_at ?cols d); a = ?n + slot_at ?cols d
       in get_range h a (a + length x) = Some x)"
    using put_columns_effect [OF z(1) order_refl room cov, where var_len = 0] by metis
  show thesis
  proof (rule that [of h])
    show "encode_row values types = Ok (h @ concat (bodies_of ?cols))"
      using h(1) by (simp add: encode_row_def encode_row_parts_def)
    show "length h = head_len types" using h(2) by (simp add: head_len_def)
    show "null_bit h c \<longleftrightarrow> values ! c = VNull" if "c < length types" for c
    proof -
      have "c < 8 * ?n" using that bitmap_covers [of "length types"] by simp
      then show ?thesis
        using h(3) [of c] null_bit_zero [of c ?n "fixed_total types"] that z(4,5) by simp
    qed
    show "let x = slot_bytes (types ! d) (values ! d) (body_at ?cols d); a = ?n + fixed_total (take d types)
        in get_range h a (a + length x) = Some x" if "d < length types" "values ! d \<noteq> VNull" for d
      using h(4) [of d] that z(4,5) by (simp add: slot_at_def take_zip)
  qed
qed

lemma sum_take_le: "sum_list (map f (take d xs)) \<le> (sum_list (map f xs) :: nat)"
  by (metis append_take_drop_id le_add1 map_append sum_list_append)

lemma decode_column_round:
  assumes ok: "row_ok values types" and enc: "encode_row values types = Ok buf" and col: "col < length types"
  shows "decode_column buf types col = Ok (values ! col)"
proof -
  let ?cols = "zip values types"
  have l2: "list_all2 cell_ok values types" using ok by (simp add: row_ok_def)
  note z = zip_cols [OF l2]
  obtain h where h: "encode_row values types = Ok (h @ concat (bodies_of ?cols))" "length h = head_len types"
    "\<And>c. c < length types \<Longrightarrow> null_bit h c \<longleftrightarrow> values ! c = VNull"
    "\<And>d. d < length types \<Longrightarrow> values ! d \<noteq> VNull \<Longrightarrow>
      (let x = slot_bytes (types ! d) (values ! d) (body_at ?cols d); a = bitmap_len (length types) + fixed_total (take d types)
       in get_range h a (a + length x) = Some x)"
    using encode_row_layout [OF l2] by metis
  have buf: "buf = h @ concat (bodies_of ?cols)" using enc h(1) by simp
  have "col div 8 < bitmap_len (length types)" using col bitmap_covers [of "length types"] by linarith
  then have c8: "col div 8 < length h" using h(2) by (simp add: head_len_def)
  then have bm: "get_at buf (col div 8) = Some (h ! (col div 8))"
    by (simp add: buf get_at_def nth_append)
  show ?thesis
  proof (cases "values ! col = VNull")
    case True
    then have "h ! (col div 8) AND push_bit (col mod 8) 1 \<noteq> 0"
      using h(3) [OF col] by (simp only: null_bit_test)
    then show ?thesis
      using True col bm by (simp add: decode_column_def)
  next
    case False
    let ?v = "values ! col" and ?ty = "types ! col" and ?off = "bitmap_len (length types) + fixed_total (take col types)"
      and ?var = "body_at ?cols col"
    have n0: "\<not> h ! (col div 8) AND push_bit (col mod 8) 1 \<noteq> 0"
      using h(3) [OF col] False by (simp only: null_bit_test) simp
    have slot: "get_range buf ?off (?off + length (slot_bytes ?ty ?v ?var)) = Some (slot_bytes ?ty ?v ?var)"
      using h(4) [OF col False] unfolding buf Let_def by (rule get_range_grow)
    have cok: "cell_ok ?v ?ty" using l2 col z(5) by (simp add: list_all2_conv_all_nth)
    have tot: "sum_list (map (\<lambda>c. body_len (fst c)) ?cols) = sum_list (map body_len values)"
      using arg_cong [OF z(3), of "map body_len"] by (simp add: comp_def)
    have "?var \<le> sum_list (map body_len values)"
      unfolding tot [symmetric] body_at_def by (rule sum_take_le)
    then have var: "?var < 2 ^ 32" using ok by (simp add: row_ok_def)
    have "rbind (resolve_any buf ?ty ?off) (\<lambda>(t, o'). decode_cell buf (head_len types) t o') = Ok ?v"
    proof (rule decode_slot_round [OF slot cok False var])
      fix b assume "body_of ?v = Some b"
      then show "get_range buf (head_len types + ?var) (head_len types + ?var + length b) = Some b"
        using bodies_at [of col ?cols b h] col z(4,5) h(2) by (simp add: buf)
    qed
    then show ?thesis
      using col bm n0 by (simp add: decode_column_def)
  qed
qed

text \<open>The one-pass decoder is the per-column decoder.\<close>

fun rmap :: "('a \<Rightarrow> 'b result) \<Rightarrow> 'a list \<Rightarrow> 'b list result" where
  "rmap f [] = Ok []"
| "rmap f (x # xs) = rbind (f x) (\<lambda>y. rbind (rmap f xs) (\<lambda>ys. Ok (y # ys)))"

lemma rmap_Ok: "(\<And>x. x \<in> set xs \<Longrightarrow> f x = Ok (g x)) \<Longrightarrow> rmap f xs = Ok (map g xs)"
  by (induction xs) simp_all

definition masked_column :: "bytes \<Rightarrow> ColumnType list \<Rightarrow> bool list option \<Rightarrow> nat \<Rightarrow> Value result" where
  "masked_column buf types keep i =
    (if (case keep of Some k \<Rightarrow> \<not> k ! i | None \<Rightarrow> False) then Ok VNull else decode_column buf types i)"

lemma decode_columns_each:
  assumes "n \<le> length types" and "i \<le> n"
  shows "decode_columns buf (head_len types) keep i (bitmap_len (length types) + fixed_total (take i types)) (drop i (take n types))
    = rmap (masked_column buf types keep) [i..<n]"
  using assms
proof (induction "n - i" arbitrary: i)
  case (Suc m)
  then have i: "i < n" by simp
  then have d: "drop i (take n types) = types ! i # drop (Suc i) (take n types)"
    using Suc.prems(1) by (simp add: Cons_nth_drop_Suc [symmetric])
  have off: "bitmap_len (length types) + fixed_total (take (Suc i) types)
      = bitmap_len (length types) + fixed_total (take i types) + fixed_width (types ! i)"
    using i Suc.prems(1) by (simp add: fixed_total_def take_Suc_conv_app_nth)
  have IH: "decode_columns buf (head_len types) keep (Suc i) (bitmap_len (length types) + fixed_total (take (Suc i) types)) (drop (Suc i) (take n types))
    = rmap (masked_column buf types keep) [Suc i..<n]"
    using Suc.hyps(2) Suc.prems i by (intro Suc.hyps(1)) simp_all
  have "i < length types" using i Suc.prems(1) by simp
  then have "(if (case keep of Some k \<Rightarrow> \<not> k ! i | None \<Rightarrow> False) then Ok VNull
      else rbind (ok_or Corrupt (get_at buf (i div 8))) (\<lambda>bm.
        if bm AND push_bit (i mod 8) 1 \<noteq> 0 then Ok VNull
        else rbind (resolve_any buf (types ! i) (bitmap_len (length types) + fixed_total (take i types)))
          (\<lambda>(vty, voff). decode_cell buf (head_len types) vty voff))) = masked_column buf types keep i"
    unfolding masked_column_def decode_column_def Let_def by simp
  then show ?case
    unfolding d decode_columns.simps upt_conv_Cons [OF i] rmap.simps by (simp add: IH off [symmetric])
qed simp

lemma decode_row_masked_each:
  "decode_row_masked buf types keep
    = rmap (masked_column buf types keep) [0..<(case keep of None \<Rightarrow> length types | Some k \<Rightarrow> min (length k) (length types))]"
proof -
  let ?n = "case keep of None \<Rightarrow> length types | Some k \<Rightarrow> min (length k) (length types)"
  have "?n \<le> length types" by (simp split: option.split)
  from decode_columns_each [OF this, of 0 buf keep] show ?thesis
    by (simp add: decode_row_masked_def head_len_def fixed_total_def)
qed

text \<open>The offset of a body is written as a \<open>u32\<close>: past 4 GiB of bodies it wraps around.\<close>

lemma offset_wraps:
  assumes n: "n = 2 ^ 31"
  defines "a \<equiv> VBlob (replicate n 1)" and "b \<equiv> VBlob (replicate n 2)" and "c \<equiv> VBlob (replicate n 3)"
  shows "list_all2 cell_ok [a, b, c] [BlobT, BlobT, BlobT] \<and> a \<noteq> c
    \<and> rbind (encode_row [a, b, c] [BlobT, BlobT, BlobT]) (\<lambda>buf. decode_column buf [BlobT, BlobT, BlobT] 2) = Ok a"
proof -
  let ?vs = "[a, b, c]" and ?ts = "[BlobT, BlobT, BlobT]"
  have bl: "body_len a = 2 ^ 31" "body_len b = 2 ^ 31" "body_len c = 2 ^ 31"
    and bo: "body_of a = Some (replicate n 1)" "body_of c = Some (replicate n 3)"
    by (simp_all add: a_def b_def c_def body_len_def body_of_def n)
  have l2: "list_all2 cell_ok ?vs ?ts"
    using bl by (simp add: cell_ok_def a_def b_def c_def fits_def is_list_def)
  have ne: "a \<noteq> c" using n by (simp add: a_def c_def replicate_eq_replicate)
  obtain h where h: "encode_row ?vs ?ts = Ok (h @ concat (bodies_of (zip ?vs ?ts)))" "length h = head_len ?ts"
    "\<And>i. i < length ?ts \<Longrightarrow> null_bit h i \<longleftrightarrow> ?vs ! i = VNull"
    "\<And>d. d < length ?ts \<Longrightarrow> ?vs ! d \<noteq> VNull \<Longrightarrow>
      (let x = slot_bytes (?ts ! d) (?vs ! d) (body_at (zip ?vs ?ts) d); o' = bitmap_len (length ?ts) + fixed_total (take d ?ts)
       in get_range h o' (o' + length x) = Some x)"
    using encode_row_layout [OF l2] by metis
  define buf where "buf = h @ concat (bodies_of (zip ?vs ?ts))"
  define off where "off = bitmap_len (length ?ts) + fixed_total (take 2 ?ts)"
  have cn: "c \<noteq> VNull" by (simp add: c_def)
  have wrap: "(4294967296 :: u32) = 0" by simp
  have cb: "slot_bytes BlobT c (2 ^ 32) = to_le_bytes (0 :: u32) @ to_le_bytes (of_nat n :: u32)"
    by (simp add: slot_bytes_def c_def cell_bytes_def body_of_def wrap)
  have "body_at (zip ?vs ?ts) 2 = 2 ^ 32" by (simp add: body_at_def bl)
  then have "get_range h off (off + 8) = Some (to_le_bytes (0 :: u32) @ to_le_bytes (of_nat n :: u32))"
    using h(4) [of 2] cn cb by (simp add: off_def Let_def)
  then have raw: "get_range buf off (off + 8) = Some (to_le_bytes (0 :: u32) @ to_le_bytes (of_nat n :: u32))"
    unfolding buf_def by (rule get_range_grow)
  have first: "get_range buf (head_len ?ts) (head_len ?ts + n) = Some (replicate n 1)"
    using bodies_at [of 0 "zip ?vs ?ts" "replicate n 1" h] h(2) bo(1) by (simp add: buf_def body_at_def)
  have cell: "decode_cell buf (head_len ?ts) BlobT off = Ok a"
    using raw first n by (simp add: decode_cell_def a_def unat_of_nat)
  have "\<not> null_bit h 2" using h(3) [of 2] cn by simp
  then have nb: "\<not> h ! (2 div 8) AND push_bit (2 mod 8) 1 \<noteq> 0" by (simp only: null_bit_test not_False_eq_True)
  have "get_at buf (2 div 8) = Some (h ! (2 div 8))"
    using h(2) by (simp add: buf_def get_at_def nth_append head_len_def bitmap_len_def)
  then have "decode_column buf ?ts 2 = Ok a"
    using cell nb unfolding decode_column_def Let_def off_def by (simp add: resolve_any_def)
  then show ?thesis
    using l2 ne h(1) by (simp add: buf_def)
qed

section \<open>Properties\<close>

text \<open>
  C6: a row of values that fit their columns encodes, to as many bytes as \<open>encoded_len\<close> says, and both
  decoders give the values back: \<open>decode_row\<close> the whole row, \<open>decode_column\<close> each column alone.
\<close>

theorem row_round_trip:
  assumes "row_ok values types"
  shows "\<exists>buf. encode_row values types = Ok buf \<and> length buf = encoded_len values types
    \<and> decode_row buf types = Ok values \<and> (\<forall>col. col < length types \<longrightarrow> decode_column buf types col = Ok (values ! col))"
proof -
  have l2: "list_all2 cell_ok values types" using assms by (simp add: row_ok_def)
  note z = zip_cols [OF l2]
  obtain h where h: "encode_row values types = Ok (h @ concat (bodies_of (zip values types)))" "length h = head_len types"
    using encode_row_layout [OF l2] by metis
  let ?buf = "h @ concat (bodies_of (zip values types))"
  have col: "decode_column ?buf types c = Ok (values ! c)" if "c < length types" for c
    by (rule decode_column_round [OF assms h(1) that])
  have "rmap (masked_column ?buf types None) [0..<length types] = Ok (map ((!) values) [0..<length types])"
    by (rule rmap_Ok) (simp add: masked_column_def col)
  also have "map ((!) values) [0..<length types] = values"
    using z(5) by (metis map_nth)
  finally have "decode_row ?buf types = Ok values"
    by (simp add: decode_row_def decode_row_masked_each)
  moreover have "sum_list (map (\<lambda>c. body_len (fst c)) (zip values types)) = sum_list (map body_len values)"
    using arg_cong [OF z(3), of "map body_len"] by (simp add: comp_def)
  then have "length ?buf = encoded_len values types"
    unfolding length_append length_bodies h(2) encoded_len_def head_len_def body_len_def [abs_def, symmetric] by simp
  ultimately show ?thesis
    using h(1) col by blast
qed

theorem row_round_trip_witness:
  "\<exists>buf. encode_row [VInt 7, VNull, VText ''ab''] [Int64T, BoolT, AnyT] = Ok buf
    \<and> decode_row buf [Int64T, BoolT, AnyT] = Ok [VInt 7, VNull, VText ''ab'']"
proof -
  have "row_ok [VInt 7, VNull, VText ''ab''] [Int64T, BoolT, AnyT]"
    by (simp add: row_ok_def cell_ok_def fits_def is_list_def body_len_def body_of_def valid_str_def byte_of_char_def)
  from row_round_trip [OF this] show ?thesis by blast
qed

text \<open>
  C11: the one-pass masked decoder is the per-column decoder: on any bytes, column by column, an unkept
  column is NULL and every other column, or the first error, is what \<open>decode_column\<close> gives.
\<close>

theorem decode_row_masked_is_per_column:
  "decode_row_masked buf types keep
    = rmap (\<lambda>i. if (case keep of Some k \<Rightarrow> \<not> k ! i | None \<Rightarrow> False) then Ok VNull else decode_column buf types i)
        [0..<(case keep of None \<Rightarrow> length types | Some k \<Rightarrow> min (length k) (length types))]"
  unfolding decode_row_masked_each masked_column_def [abs_def] by (rule refl)

text \<open>
  C37: the body offset wraps: with three blobs of \<open>2 ^ 31\<close> bytes each, every one of which the encoder
  accepts, the third column decodes to the first blob.
\<close>

theorem row_offset_wraps:
  "\<exists>a b c. a \<noteq> c \<and> list_all2 cell_ok [a, b, c] [BlobT, BlobT, BlobT]
    \<and> rbind (encode_row [a, b, c] [BlobT, BlobT, BlobT]) (\<lambda>buf. decode_column buf [BlobT, BlobT, BlobT] 2) = Ok a"
  using offset_wraps [OF refl] by blast

end
