(* ===== verification/Policy.thy ===== *)
theory Policy
  imports Rust_Str
begin

text \<open>
  Row-level-security policies (\<open>mpedb-types/src/policy.rs\<close>): the command tags, which policy governs
  which command, and the stored record's codec; with the identifier folding rule of
  \<open>mpedb-types/src/ident.rs\<close>.
\<close>

section \<open>Commands\<close>

datatype PolicyCmd = CmdAll | CmdSelect | CmdInsert | CmdUpdate | CmdDelete

fun cmd_tag :: "PolicyCmd \<Rightarrow> byte" where
  "cmd_tag CmdAll = 0"
| "cmd_tag CmdSelect = 1"
| "cmd_tag CmdInsert = 2"
| "cmd_tag CmdUpdate = 3"
| "cmd_tag CmdDelete = 4"

definition cmd_from_tag :: "byte \<Rightarrow> PolicyCmd option" where
  "cmd_from_tag t =
    (if t = 0 then Some CmdAll else if t = 1 then Some CmdSelect else if t = 2 then Some CmdInsert
     else if t = 3 then Some CmdUpdate else if t = 4 then Some CmdDelete else None)"

text \<open>\<open>to_ascii_uppercase\<close>\<close>

definition ascii_upper :: "char \<Rightarrow> char" where
  "ascii_upper c = (let n = of_char c :: nat in if 97 \<le> n \<and> n \<le> 122 then char_of (n - 32) else c)"

definition cmd_parse :: "string \<Rightarrow> PolicyCmd option" where
  "cmd_parse s =
    (let u = map ascii_upper s
     in if u = ''ALL'' then Some CmdAll else if u = ''SELECT'' then Some CmdSelect
        else if u = ''INSERT'' then Some CmdInsert else if u = ''UPDATE'' then Some CmdUpdate
        else if u = ''DELETE'' then Some CmdDelete else None)"

definition governs :: "PolicyCmd \<Rightarrow> PolicyCmd \<Rightarrow> bool" where
  "governs self cmd \<longleftrightarrow> self = CmdAll \<or> self = cmd"

section \<open>The stored record\<close>

record PolicyDef =
  pol_name :: string
  command :: PolicyCmd
  permissive :: bool
  using_src :: "string option"
  check_src :: "string option"

definition put_opt_str :: "string option \<Rightarrow> bytes" where
  "put_opt_str s = (case s of None \<Rightarrow> [0] | Some s \<Rightarrow> 1 # to_le_bytes (of_nat (length s) :: u32) @ as_bytes s)"

definition take1 :: "bytes \<Rightarrow> nat \<Rightarrow> (byte \<times> nat) result" where
  "take1 b pos = rbind (ok_or Corrupt (get_at b pos)) (\<lambda>v. Ok (v, pos + 1))"

definition get_opt_str :: "bytes \<Rightarrow> nat \<Rightarrow> (string option \<times> nat) result" where
  "get_opt_str b pos =
    rbind (take1 b pos) (\<lambda>(present, pos).
    if present = 0 then Ok (None, pos)
    else if pos + 4 > length b then Err Corrupt
    else let len = unat (from_le_bytes (take 4 (drop pos b)) :: u32); pos = pos + 4; stop = pos + len
         in if stop > length b then Err Corrupt
            else rbind (from_utf8 (take len (drop pos b))) (\<lambda>s. Ok (Some s, stop)))"

definition policy_encode_value :: "PolicyDef \<Rightarrow> bytes" where
  "policy_encode_value p = cmd_tag (command p) # (if permissive p then 1 else 0) # put_opt_str (using_src p) @ put_opt_str (check_src p)"

definition policy_decode_value :: "string \<Rightarrow> bytes \<Rightarrow> PolicyDef result" where
  "policy_decode_value name b =
    rbind (take1 b 0) (\<lambda>(t, pos).
    rbind (ok_or Corrupt (cmd_from_tag t)) (\<lambda>cmd.
    rbind (take1 b pos) (\<lambda>(f, pos).
    rbind (get_opt_str b pos) (\<lambda>(us, pos).
    rbind (get_opt_str b pos) (\<lambda>(ch, pos).
    if pos \<noteq> length b then Err Corrupt
    else Ok \<lparr>pol_name = name, command = cmd, permissive = (f \<noteq> 0), using_src = us, check_src = ch\<rparr>)))))"

section \<open>Identifiers\<close>

definition fold_ident :: "string \<Rightarrow> string" where
  "fold_ident name = to_ascii_lowercase name"

definition ident_eq :: "string \<Rightarrow> string \<Rightarrow> bool" where
  "ident_eq a b = eq_ignore_ascii_case a b"

section \<open>Lemmas\<close>

definition src_ok :: "string option \<Rightarrow> bool" where
  "src_ok s \<longleftrightarrow> (case s of None \<Rightarrow> True | Some s \<Rightarrow> valid_str s \<and> length s < 2 ^ 32)"

lemma opt_str_round:
  assumes ok: "src_ok s" and at: "at_pos b pos (put_opt_str s @ rest)"
  shows "get_opt_str b pos = Ok (s, pos + length (put_opt_str s))"
proof (cases s)
  case None
  then show ?thesis
    using at at_pos_get_at [of b pos 0 rest] by (simp add: get_opt_str_def put_opt_str_def take1_def)
next
  case (Some x)
  let ?n = "to_le_bytes (of_nat (length x) :: u32)"
  have n: "unat (of_nat (length x) :: u32) = length x"
    using ok Some by (simp add: src_ok_def unat_of_nat)
  have at0: "at_pos b pos (1 # ?n @ as_bytes x @ rest)" using at Some by (simp add: put_opt_str_def)
  have at1: "at_pos b (Suc pos) (?n @ as_bytes x @ rest)" by (rule at_pos_Suc [OF at0])
  have at2: "at_pos b (Suc pos + 4) (as_bytes x @ rest)" by (rule at_pos_add [OF at1]) simp
  have t: "take 4 (drop (Suc pos) b) = ?n" "take (length x) (drop (Suc pos + 4) b) = as_bytes x"
    using at1 at2 by (simp_all add: at_pos_def)
  have l: "Suc pos + 4 \<le> length b" "Suc pos + 4 + length x \<le> length b"
    using at_pos_length [OF at2] by simp_all
  show ?thesis
    using Some ok t l n at_pos_get_at [OF at0]
    by (simp add: get_opt_str_def take1_def put_opt_str_def src_ok_def Let_def)
qed

interpretation opt_str_codec: pos_codec put_opt_str "\<lambda>_ :: unit. get_opt_str" "\<lambda>_. src_ok" "\<lambda>_. True"
  by unfold_locales (auto intro: opt_str_round)

lemma policy_round:
  assumes "src_ok (using_src p)" "src_ok (check_src p)"
  shows "policy_decode_value (pol_name p) (policy_encode_value p) = Ok p"
proof -
  let ?b = "policy_encode_value p" and ?f = "if permissive p then 1 else 0 :: byte"
  have at2: "at_pos ?b 2 (put_opt_str (using_src p) @ put_opt_str (check_src p))"
    by (simp add: at_pos_def policy_encode_value_def)
  have at3: "at_pos ?b (2 + length (put_opt_str (using_src p))) (put_opt_str (check_src p) @ [])"
    using at_pos_add [OF at2] by simp
  have g: "get_at ?b 0 = Some (cmd_tag (command p))" "get_at ?b (Suc 0) = Some ?f"
    by (simp_all add: get_at_def policy_encode_value_def)
  have c: "cmd_from_tag (cmd_tag (command p)) = Some (command p)"
    by (cases "command p") (simp_all add: cmd_from_tag_def)
  have l: "length ?b = 2 + length (put_opt_str (using_src p)) + length (put_opt_str (check_src p))"
    by (simp add: policy_encode_value_def)
  have f: "(?f \<noteq> 0) = permissive p" by simp
  have "policy_decode_value (pol_name p) ?b
      = Ok \<lparr>pol_name = pol_name p, command = command p, permissive = (?f \<noteq> 0), using_src = using_src p, check_src = check_src p\<rparr>"
    unfolding policy_decode_value_def take1_def
    using opt_str_round [OF assms(1) at2] opt_str_round [OF assms(2) at3]
    by (simp only: g c rbind_simps ok_or_simps prod.case Let_def l add_0 One_nat_def) (simp add: g numeral_2_eq_2)
  then show ?thesis
    unfolding f by simp
qed

text \<open>Two identifiers are the same name exactly when they fold alike.\<close>

lemma ident_eq_fold: "ident_eq a b \<longleftrightarrow> fold_ident a = fold_ident b"
  by (simp add: ident_eq_def fold_ident_def eq_ignore_ascii_case_def)

end
