(* ===== verification/Intent_Ring.thy ===== *)
theory Intent_Ring
  imports Mpedb_Prelude "HOL-Library.Multiset"
begin

text \<open>
  The intent ring (\<open>mpedb-core/src/ring.rs\<close>) and the leader's round (\<open>lead_and_execute\<close> in
  \<open>mpedb/src/ring_exec.rs\<close>): the slot with its packed header word, the operations of the enqueuer and
  of the leader, each as a function on the slot table, and the round that drains the ready intents
  into one transaction, restarting where a failed statement cannot be undone in place.
\<close>

section \<open>The slot\<close>

definition ST_EMPTY :: u64 where "ST_EMPTY = 0"
definition ST_RESERVED :: u64 where "ST_RESERVED = 1"
definition ST_READY :: u64 where "ST_READY = 2"
definition ST_DONE :: u64 where "ST_DONE = 3"

definition RING_SLOTS :: nat where "RING_SLOTS = 256"
definition RING_PARAMS_CAP :: nat where "RING_PARAMS_CAP = 824"
definition RING_ERR_MSG_CAP :: nat where "RING_ERR_MSG_CAP = 126"

lemmas st_defs = ST_EMPTY_def ST_RESERVED_def ST_READY_def ST_DONE_def

definition pack :: "u32 \<Rightarrow> u64 \<Rightarrow> u64 \<Rightarrow> u64" where
  "pack pid gen state = (push_bit 32 (ucast pid) OR push_bit 2 (gen AND 0x3FFFFFFF)) OR state"

definition unpack :: "u64 \<Rightarrow> u32 \<times> u64 \<times> u64" where
  "unpack word = (ucast (drop_bit 32 word), drop_bit 2 word AND 0x3FFFFFFF, word AND 3)"

text \<open>The fields of one slot; the two payload areas have their fixed sizes.\<close>

record Slot =
  header :: u64
  result_state :: u32
  err_code :: u32
  affected :: u64
  committed_in :: u64
  plan_hash :: bytes
  params_len :: u16
  params_area :: bytes
  err_msg_len :: u16
  err_msg_area :: bytes

type_synonym ring = "Slot list"

record RingResult =
  res_affected :: u64
  res_err_code :: u32
  res_err_msg :: bytes

record PendingIntent =
  idx :: nat
  word :: u64
  hash :: bytes
  params :: bytes

text \<open>A compare-and-exchange on the header: the slot afterwards and whether it succeeded.\<close>

definition cas :: "u64 \<Rightarrow> u64 \<Rightarrow> Slot \<Rightarrow> Slot \<times> bool" where
  "cas expected new s = (if header s = expected then (s\<lparr>header := new\<rparr>, True) else (s, False))"

section \<open>The enqueuer\<close>

text \<open>The scan's attempt at one slot: its reservation, with the new generation.\<close>

definition reserve :: "u32 \<Rightarrow> Slot \<Rightarrow> (Slot \<times> u64) option" where
  "reserve pid s =
    (let w = header s; (_, gen, state) = unpack w
     in if state \<noteq> ST_EMPTY then None
        else let (s, ok) = cas w (pack pid (gen + 1) ST_RESERVED) s
             in if ok then Some (s, gen + 1) else None)"

definition init_slot :: "bytes \<Rightarrow> bytes \<Rightarrow> Slot \<Rightarrow> Slot" where
  "init_slot h ps s = s\<lparr>result_state := 0, err_code := 0, affected := 0, committed_in := 0,
     plan_hash := h, params_len := of_nat (length ps), params_area := put_at (params_area s) 0 ps\<rparr>"

definition publish :: "u32 \<Rightarrow> u64 \<Rightarrow> Slot \<Rightarrow> Slot \<times> bool" where
  "publish pid gen s = cas (pack pid gen ST_RESERVED) (pack pid gen ST_READY) s"

text \<open>The scan over the slots in the order given: reserve, initialise, publish.\<close>

fun enqueue_scan :: "u32 \<Rightarrow> bytes \<Rightarrow> bytes \<Rightarrow> nat list \<Rightarrow> ring \<Rightarrow> ring \<times> (nat \<times> u64) option" where
  "enqueue_scan pid h ps [] ring = (ring, None)"
| "enqueue_scan pid h ps (i # is) ring =
    (case reserve pid (ring ! i) of
       None \<Rightarrow> enqueue_scan pid h ps is ring
     | Some (s, gen) \<Rightarrow>
         let (s, ok) = publish pid gen (init_slot h ps s)
         in (ring[i := s], if ok then Some (i, pack pid gen ST_READY) else None))"

definition enqueue :: "u32 \<Rightarrow> bytes \<Rightarrow> bytes \<Rightarrow> ring \<Rightarrow> ring \<times> (nat \<times> u64) option" where
  "enqueue pid h ps ring =
    (if length ps > RING_PARAMS_CAP then (ring, None)
     else let start = unat (pid * 2654435761) mod RING_SLOTS
          in enqueue_scan pid h ps (map (\<lambda>i. (start + i) mod RING_SLOTS) [0..<RING_SLOTS]) ring)"

definition read_result :: "Slot \<Rightarrow> RingResult" where
  "read_result s =
    \<lparr>res_affected = affected s, res_err_code = err_code s,
     res_err_msg = (if err_code s \<noteq> 0 then take (min (unat (err_msg_len s)) RING_ERR_MSG_CAP) (err_msg_area s) else [])\<rparr>"

definition try_take_result :: "Slot \<Rightarrow> RingResult option" where
  "try_take_result s = (if result_state s = 0 then None else Some (read_result s))"

definition release :: "u64 \<Rightarrow> Slot \<Rightarrow> Slot" where
  "release owned s =
    (let (pid, gen, _) = unpack owned;
         empty = pack 0 (gen + 1) ST_EMPTY;
         (s, ok) = cas (pack pid gen ST_DONE) empty s
     in if ok then s else fst (cas (pack pid gen ST_READY) empty s))"

section \<open>The leader\<close>

definition post_done :: "u64 \<Rightarrow> Slot \<Rightarrow> Slot" where
  "post_done ready_word s =
    (let (pid, gen, _) = unpack ready_word
     in fst (cas ready_word (pack pid gen ST_DONE) (s\<lparr>result_state := 1\<rparr>)))"

definition recover_slot :: "u64 \<Rightarrow> Slot \<Rightarrow> Slot" where
  "recover_slot committed_txn s =
    (let w = header s; (_, _, state) = unpack w; stamp = committed_in s
     in if stamp = 0 then s
        else if state \<noteq> ST_READY then s
        else if stamp \<le> committed_txn then post_done w s
        else s\<lparr>committed_in := 0\<rparr>)"

definition recover_orphans :: "u64 \<Rightarrow> ring \<Rightarrow> ring" where
  "recover_orphans committed_txn ring = map (recover_slot committed_txn) ring"

definition collect_slot :: "nat \<Rightarrow> Slot \<Rightarrow> PendingIntent option" where
  "collect_slot i s =
    (let w = header s; (_, _, state) = unpack w
     in if state \<noteq> ST_READY \<or> committed_in s \<noteq> 0 then None
        else let len = unat (params_len s)
             in if len > RING_PARAMS_CAP then None
                else Some \<lparr>idx = i, word = w, hash = plan_hash s, params = take len (params_area s)\<rparr>)"

definition collect_ready :: "ring \<Rightarrow> PendingIntent list" where
  "collect_ready ring = List.map_filter (\<lambda>i. collect_slot i (ring ! i)) [0..<length ring]"

definition stage_result :: "u64 \<Rightarrow> u32 \<Rightarrow> bytes \<Rightarrow> u64 \<Rightarrow> Slot \<Rightarrow> Slot" where
  "stage_result aff code msg next_txn s =
    (let s = s\<lparr>affected := aff, err_code := code\<rparr>;
         s = (if code \<noteq> 0 then
                let len = min (length msg) RING_ERR_MSG_CAP
                in s\<lparr>err_msg_len := of_nat len, err_msg_area := put_at (err_msg_area s) 0 (take len msg)\<rparr>
              else s)
     in s\<lparr>committed_in := next_txn\<rparr>)"

definition unstage :: "Slot \<Rightarrow> Slot" where
  "unstage s = s\<lparr>committed_in := 0\<rparr>"

text \<open>\<open>dead\<close> stands for the operating system's answer that there is definitely no such process.\<close>

definition reclaim_slot :: "(u32 \<Rightarrow> bool) \<Rightarrow> Slot \<Rightarrow> Slot" where
  "reclaim_slot dead s =
    (let w = header s; (pid, gen, state) = unpack w
     in if state \<noteq> ST_RESERVED \<and> state \<noteq> ST_DONE then s
        else if \<not> dead pid then s
        else fst (cas w (pack 0 (gen + 1) ST_EMPTY) s))"

definition reclaim_dead :: "(u32 \<Rightarrow> bool) \<Rightarrow> ring \<Rightarrow> ring" where
  "reclaim_dead dead ring = map (reclaim_slot dead) ring"

section \<open>The leader's round\<close>

text \<open>
  The outcome of a statement: rows affected, or the error as the slot carries it. Executing one
  prepared intent gives the transaction afterwards, the outcome, and whether rolling back to the
  savepoint undoes a failure exactly (\<open>undo_is_exact\<close>); preparing it can fail before the transaction
  is touched. The executor of statements is a parameter of the round.
\<close>

type_synonym outcome = "(u32 \<times> bytes) + u64"

type_synonym 'txn statement = "'txn \<Rightarrow> 'txn \<times> outcome \<times> bool"

record 'txn PreparedIntent =
  intent :: PendingIntent
  prepared :: "(u32 \<times> bytes) + 'txn statement"

definition stage_outcome :: "nat \<Rightarrow> outcome \<Rightarrow> u64 \<Rightarrow> ring \<Rightarrow> ring" where
  "stage_outcome i out next_txn ring =
    ring[i := (case out of Inr n \<Rightarrow> stage_result n 0 [] next_txn (ring ! i)
                         | Inl (code, msg) \<Rightarrow> stage_result 0 code msg next_txn (ring ! i))]"

text \<open>
  One pass over the batch, from member \<open>k\<close> on: the table, and either the member that tore the
  transaction with its error, or the transaction after the last member.
\<close>

fun drain_pass :: "u64 \<Rightarrow> nat \<Rightarrow> 'txn PreparedIntent list \<Rightarrow> (u32 \<times> bytes) option list \<Rightarrow> ring \<Rightarrow> 'txn
    \<Rightarrow> ring \<times> ((nat \<times> u32 \<times> bytes) + 'txn)" where
  "drain_pass next_txn k (p # batch) (d # predecided) ring txn =
    (let i = idx (intent p);
         go = (\<lambda>out txn. drain_pass next_txn (k + 1) batch predecided (stage_outcome i out next_txn ring) txn)
     in case d of
          Some e \<Rightarrow> go (Inl e) txn
        | None \<Rightarrow>
            (case prepared p of
               Inl e \<Rightarrow> go (Inl e) txn
             | Inr stmt \<Rightarrow>
                 (case stmt txn of
                    (txn', Inr n, _) \<Rightarrow> go (Inr n) txn'
                  | (_, Inl e, exact) \<Rightarrow> if exact then go (Inl e) txn else (ring, Inl (k, e)))))"
| "drain_pass next_txn k batch predecided ring txn = (ring, Inr txn)"

text \<open>
  The leader's own statement, last: the outer \<open>None\<close> asks for a restart of the round with the error
  pre-decided.
\<close>

definition own_pass :: "'txn statement option \<Rightarrow> (u32 \<times> bytes) option \<Rightarrow> 'txn
    \<Rightarrow> (u32 \<times> bytes) + 'txn \<times> outcome option" where
  "own_pass own own_predecided txn =
    (case own of
       None \<Rightarrow> Inr (txn, None)
     | Some stmt \<Rightarrow>
         (case own_predecided of
            Some e \<Rightarrow> Inr (txn, Some (Inl e))
          | None \<Rightarrow>
              (case stmt txn of
                 (txn', Inr n, _) \<Rightarrow> Inr (txn', Some (Inr n))
               | (_, Inl e, exact) \<Rightarrow> if exact then Inr (txn, Some (Inl e)) else Inl e)))"

text \<open>A pass only stops at a member that was not pre-decided, so restarting pre-decides one more.\<close>

lemma drain_pass_torn:
  "drain_pass next_txn k batch predecided ring txn = (ring', Inl (j, e))
    \<Longrightarrow> k \<le> j \<and> j - k < length predecided \<and> predecided ! (j - k) = None"
proof (induction next_txn k batch predecided ring txn arbitrary: ring' rule: drain_pass.induct)
  case (1 next_txn k p batch d predecided ring txn)
  have step: "k \<le> j \<and> j - k < length (d # predecided) \<and> (d # predecided) ! (j - k) = None"
    if "k + 1 \<le> j \<and> j - (k + 1) < length predecided \<and> predecided ! (j - (k + 1)) = None"
    using that by (auto simp: nth_Cons' Suc_diff_le)
  have IH: "\<And>out t. drain_pass next_txn (k + 1) batch predecided (stage_outcome (idx (intent p)) out next_txn ring) t
      = (ring', Inl (j, e)) \<Longrightarrow> k \<le> j \<and> j - k < length (d # predecided) \<and> (d # predecided) ! (j - k) = None"
    by (rule step, rule "1.IH" [OF refl])
  from "1.prems" show ?case
    by (auto simp: Let_def split: option.splits sum.splits prod.splits if_splits
        dest!: IH [unfolded Suc_eq_plus1 [symmetric]])
qed simp_all

lemma own_pass_torn: "own_pass own own_predecided txn = Inl e \<Longrightarrow> own_predecided = None"
  by (auto simp: own_pass_def split: option.splits prod.splits sum.splits if_splits)

definition undecided :: "'a option list \<Rightarrow> nat" where
  "undecided ds = length (filter (\<lambda>d. d = None) ds)"

lemma undecided_update:
  "k < length ds \<Longrightarrow> ds ! k = None \<Longrightarrow> undecided (ds[k := Some e]) < undecided ds"
proof (induction ds arbitrary: k)
  case (Cons d ds)
  then show ?case by (cases k) (auto simp: undecided_def)
qed simp

text \<open>The loop \<open>'round\<close>: passes until no member tears the transaction.\<close>

function round_loop :: "u64 \<Rightarrow> 'txn PreparedIntent list \<Rightarrow> 'txn statement option \<Rightarrow> (u32 \<times> bytes) option list
    \<Rightarrow> (u32 \<times> bytes) option \<Rightarrow> ring \<Rightarrow> 'txn \<Rightarrow> ring \<times> 'txn \<times> outcome option" where
  "round_loop next_txn batch own predecided own_predecided ring base =
    (case drain_pass next_txn 0 batch predecided ring base of
       (ring, Inl (k, e)) \<Rightarrow> round_loop next_txn batch own (predecided[k := Some e]) own_predecided ring base
     | (ring, Inr txn) \<Rightarrow>
         (case own_pass own own_predecided txn of
            Inl e \<Rightarrow> round_loop next_txn batch own predecided (Some e) ring base
          | Inr (txn, own_result) \<Rightarrow> (ring, txn, own_result)))"
  by pat_completeness auto
termination
proof (relation "measure (\<lambda>(_, _, _, ds, d, _, _). undecided ds + (if d = None then 1 else 0))", goal_cases)
  case (2 next_txn batch own predecided own_predecided ring base x r ke k e)
  then have "drain_pass next_txn 0 batch predecided ring base = (x, Inl (k, e))" by simp
  from drain_pass_torn [OF this] show ?case by (simp add: undecided_update)
next
  case (3 next_txn batch own predecided own_predecided ring base x r txn e)
  from own_pass_torn [OF 3(3)] show ?case by simp
qed simp

declare round_loop.simps [simp del]

text \<open>
  The whole round under the writer lock. \<open>prepare\<close> loads the plan and decodes the parameters of an
  intent, \<open>locality_key\<close> gives its place in the drain order, \<open>commit_ok\<close> says whether the commit of
  the transaction succeeds; the state is the slot table, the committed transaction id and the
  committed database.
\<close>

definition post_all :: "PendingIntent list \<Rightarrow> ring \<Rightarrow> ring" where
  "post_all staged ring = foldl (\<lambda>ring p. ring[idx p := post_done (word p) (ring ! idx p)]) ring staged"

definition lead_and_execute :: "(u32 \<Rightarrow> bool) \<Rightarrow> (PendingIntent \<Rightarrow> (u32 \<times> bytes) + 'txn statement)
    \<Rightarrow> ('txn PreparedIntent \<Rightarrow> 'k::linorder) \<Rightarrow> ('txn \<Rightarrow> bool) \<Rightarrow> 'txn statement option
    \<Rightarrow> ring \<times> u64 \<times> 'txn \<Rightarrow> (ring \<times> u64 \<times> 'txn) \<times> outcome option option" where
  "lead_and_execute dead prepare locality_key commit_ok own st =
    (let (ring, txn_id, base) = st;
         ring = reclaim_dead dead (recover_orphans txn_id ring);
         next_txn = txn_id + 1;
         batch = map (\<lambda>i. \<lparr>intent = i, prepared = prepare i\<rparr>) (collect_ready ring);
         batch = sort_key locality_key batch;
         (ring, txn, own_result) = round_loop next_txn batch own (replicate (length batch) None) None ring base
     in if batch = [] \<and> (case own_result of Some (Inr _) \<Rightarrow> False | _ \<Rightarrow> True)
        then ((ring, txn_id, base), Some own_result)
        else if commit_ok txn
        then ((post_all (map intent batch) ring, next_txn, txn), Some own_result)
        else ((ring, txn_id, base), None))"

section \<open>The header word\<close>

lemma and_mask_30: "(x :: u64) AND 0x3FFFFFFF = take_bit 30 x"
  by (simp add: take_bit_eq_mask mask_eq_exp_minus_1)

lemma and_mask_2: "(x :: u64) AND 3 = take_bit 2 x"
  by (simp add: take_bit_eq_mask mask_eq_exp_minus_1)

lemma unpack_pack:
  assumes "st < 4"
  shows "unpack (pack pid gen st) = (pid, gen AND 0x3FFFFFFF, st)"
proof -
  have st: "take_bit 2 st = st"
    using assms by (simp add: take_bit_eq_mod unat_mod word_arith_nat_mod word_less_nat_alt)
  have b: "bit st n \<Longrightarrow> n < 2" for n
    using st by (metis bit_take_bit_iff)
  have "ucast (drop_bit 32 (pack pid gen st)) = pid"
    by (rule bit_word_eqI) (auto simp: pack_def and_mask_30 bit_simps dest: b)
  moreover have "drop_bit 2 (pack pid gen st) AND 0x3FFFFFFF = gen AND 0x3FFFFFFF"
    unfolding and_mask_30
    by (rule bit_word_eqI) (auto simp: pack_def and_mask_30 bit_simps dest: b)
  moreover have "pack pid gen st AND 3 = st"
    unfolding and_mask_2
    by (rule bit_word_eqI) (auto simp: pack_def and_mask_30 bit_simps dest: b)
  ultimately show ?thesis by (simp add: unpack_def)
qed

section \<open>The round is a serial execution\<close>

text \<open>
  What a round promises: the members run one after another, and a failed statement leaves no trace.
\<close>

definition run_statement :: "'txn statement \<Rightarrow> 'txn \<Rightarrow> outcome \<times> 'txn" where
  "run_statement stmt txn = (case stmt txn of (txn', Inr n, _) \<Rightarrow> (Inr n, txn') | (_, Inl e, _) \<Rightarrow> (Inl e, txn))"

definition run_member :: "'txn PreparedIntent \<Rightarrow> 'txn \<Rightarrow> outcome \<times> 'txn" where
  "run_member p txn = (case prepared p of Inl e \<Rightarrow> (Inl e, txn) | Inr stmt \<Rightarrow> run_statement stmt txn)"

fun serial :: "'txn PreparedIntent list \<Rightarrow> 'txn \<Rightarrow> outcome list \<times> 'txn" where
  "serial [] txn = ([], txn)"
| "serial (p # batch) txn =
    (let (out, txn) = run_member p txn; (outs, txn) = serial batch txn in (out # outs, txn))"

definition run_own :: "'txn statement option \<Rightarrow> 'txn \<Rightarrow> outcome option \<times> 'txn" where
  "run_own own txn = (case own of None \<Rightarrow> (None, txn) | Some stmt \<Rightarrow> map_prod Some id (run_statement stmt txn))"

text \<open>What the owner of a slot reads of an outcome.\<close>

definition result_of :: "outcome \<Rightarrow> RingResult" where
  "result_of out = (case out of
     Inr n \<Rightarrow> \<lparr>res_affected = n, res_err_code = 0, res_err_msg = []\<rparr>
   | Inl (code, msg) \<Rightarrow> \<lparr>res_affected = 0, res_err_code = code,
       res_err_msg = (if code \<noteq> 0 then take RING_ERR_MSG_CAP msg else [])\<rparr>)"

text \<open>A pre-decided error is the error of the serial execution.\<close>

definition agrees :: "(u32 \<times> bytes) option \<Rightarrow> outcome \<Rightarrow> bool" where
  "agrees d out \<longleftrightarrow> (\<forall>e. d = Some e \<longrightarrow> out = Inl e)"

lemma agrees_None [simp]: "agrees None out"
  and agrees_Some [simp]: "agrees (Some e) out \<longleftrightarrow> out = Inl e"
  by (auto simp: agrees_def)

lemma length_serial [simp]: "length (fst (serial batch txn)) = length batch"
  by (induction batch txn rule: serial.induct) (auto split: prod.splits)

definition stage_all :: "u64 \<Rightarrow> nat list \<Rightarrow> outcome list \<Rightarrow> ring \<Rightarrow> ring" where
  "stage_all next_txn is outs ring = foldl (\<lambda>ring (i, out). stage_outcome i out next_txn ring) ring (zip is outs)"

lemma stage_all_simps [simp]:
  "stage_all n [] outs ring = ring"
  "stage_all n (i # is) (out # outs) ring = stage_all n is outs (stage_outcome i out n ring)"
  by (simp_all add: stage_all_def)

lemma drain_pass_serial:
  assumes "list_all2 agrees ds (fst (serial batch txn))"
  shows "case snd (drain_pass n k batch ds ring txn) of
      Inr t \<Rightarrow> t = snd (serial batch txn)
        \<and> fst (drain_pass n k batch ds ring txn) = stage_all n (map (idx \<circ> intent) batch) (fst (serial batch txn)) ring
    | Inl (j, e) \<Rightarrow> k \<le> j \<and> j - k < length batch \<and> fst (serial batch txn) ! (j - k) = Inl e
        \<and> (\<exists>m. fst (drain_pass n k batch ds ring txn)
              = stage_all n (map (idx \<circ> intent) (take m batch)) (take m (fst (serial batch txn))) ring)"
  using assms
proof (induction batch arbitrary: ds k ring txn)
  case (Cons p batch)
  then obtain d ds' where ds: "ds = d # ds'" by (auto simp: list_all2_Cons2 split: prod.splits)
  obtain out t where m: "run_member p txn = (out, t)" by (metis surj_pair)
  obtain outs t' where sr: "serial batch t = (outs, t')" by (metis surj_pair)
  have serial: "serial (p # batch) txn = (out # outs, t')" by (simp add: m sr)
  have ag: "agrees d out" "list_all2 agrees ds' (fst (serial batch t))"
    using Cons.prems by (simp_all add: ds m sr)
  let ?go = "drain_pass n (k + 1) batch ds' (stage_outcome (idx (intent p)) out n ring) t"
  note IH = Cons.IH [OF ag(2), of "k + 1" "stage_outcome (idx (intent p)) out n ring"]
  have go: ?case if "drain_pass n k (p # batch) ds ring txn = ?go"
  proof (cases "snd ?go")
    case (Inr x)
    then show ?thesis using IH unfolding that serial by (simp add: sr)
  next
    case (Inl je)
    obtain j e where je: "je = (j, e)" by (metis surj_pair)
    obtain q where q: "fst ?go = stage_all n (map (idx \<circ> intent) (take q batch)) (take q outs)
        (stage_outcome (idx (intent p)) out n ring)" and j: "k + 1 \<le> j" "j - (k + 1) < length batch" "outs ! (j - (k + 1)) = Inl e"
      using IH Inl je by (auto simp: sr)
    have "fst ?go = stage_all n (map (idx \<circ> intent) (take (Suc q) (p # batch))) (take (Suc q) (out # outs)) ring"
      using q by simp
    moreover have "j - k = Suc (j - (k + 1))" using j by simp
    ultimately show ?thesis using Inl je j unfolding that serial by (auto simp del: take_Suc_Cons)
  qed
  show ?case
  proof (cases "d = None \<and> (\<exists>stmt x e. prepared p = Inr stmt \<and> stmt txn = (x, Inl e, False))")
    case True
    then obtain stmt x e where st: "prepared p = Inr stmt" "stmt txn = (x, Inl e, False)" by blast
    then have "out = Inl e" using m by (simp add: run_member_def run_statement_def)
    moreover have "drain_pass n k (p # batch) ds ring txn = (ring, Inl (k, e))"
      using True st by (cases e) (simp add: ds)
    ultimately show ?thesis unfolding serial by (cases e) (auto intro!: exI [of _ 0])
  next
    case False
    have "drain_pass n k (p # batch) ds ring txn = ?go"
      using False m ag(1) unfolding ds
      by (auto simp: run_member_def run_statement_def Let_def split: option.splits sum.splits prod.splits)
    then show ?thesis by (rule go)
  qed
qed simp

text \<open>What staging leaves alone, and what it makes the owner read.\<close>

definition slot_wf :: "Slot \<Rightarrow> bool" where
  "slot_wf s \<longleftrightarrow> length (err_msg_area s) = RING_ERR_MSG_CAP"

definition same_core :: "Slot \<Rightarrow> Slot \<Rightarrow> bool" where
  "same_core s s' \<longleftrightarrow> header s' = header s \<and> result_state s' = result_state s \<and> plan_hash s' = plan_hash s
     \<and> params_len s' = params_len s \<and> params_area s' = params_area s \<and> (slot_wf s \<longrightarrow> slot_wf s')"

definition frame :: "nat set \<Rightarrow> ring \<Rightarrow> ring \<Rightarrow> bool" where
  "frame I ring ring' \<longleftrightarrow> length ring' = length ring
     \<and> (\<forall>i<length ring. same_core (ring ! i) (ring' ! i) \<and> (i \<notin> I \<longrightarrow> ring' ! i = ring ! i))"

lemma same_core_refl [simp]: "same_core s s"
  by (simp add: same_core_def)

lemma frame_refl [simp]: "frame I ring ring"
  by (simp add: frame_def)

lemma frame_trans: "frame I r r' \<Longrightarrow> frame I r' r'' \<Longrightarrow> frame I r r''"
  by (auto simp: frame_def same_core_def)

lemma same_core_stage: "same_core s (stage_result a c m n s)"
  by (simp add: same_core_def stage_result_def slot_wf_def put_at_def Let_def)

lemma read_result_stage:
  assumes "slot_wf s"
  shows "read_result (stage_result a c m n s)
    = \<lparr>res_affected = a, res_err_code = c, res_err_msg = (if c \<noteq> 0 then take RING_ERR_MSG_CAP m else [])\<rparr>"
    and "committed_in (stage_result a c m n s) = n"
  using assms
  by (simp_all add: stage_result_def read_result_def put_at_def slot_wf_def RING_ERR_MSG_CAP_def unat_of_nat Let_def min_def)

lemma frame_stage: "i \<in> I \<Longrightarrow> frame I ring (stage_outcome i out n ring)"
  by (cases "i < length ring")
    (auto simp: frame_def stage_outcome_def nth_list_update same_core_stage split: sum.splits prod.splits)

lemma frame_stage_all: "set is \<subseteq> I \<Longrightarrow> length outs = length is \<Longrightarrow> frame I ring (stage_all n is outs ring)"
proof (induction "is" arbitrary: outs ring)
  case (Cons i "is")
  then obtain out outs' where o: "outs = out # outs'" by (cases outs) auto
  have "frame I ring (stage_outcome i out n ring)" using Cons.prems by (intro frame_stage) simp
  moreover have "frame I (stage_outcome i out n ring) (stage_all n is outs' (stage_outcome i out n ring))"
    using Cons o by simp
  ultimately show ?case by (simp add: o frame_trans)
qed simp

lemma stage_outcome_reads:
  assumes "i < length ring" "slot_wf (ring ! i)"
  shows "read_result (stage_outcome i out n ring ! i) = result_of out" "committed_in (stage_outcome i out n ring ! i) = n"
  using assms by (auto simp: stage_outcome_def read_result_stage result_of_def split: sum.splits)

lemma stage_all_reads:
  assumes "distinct is" "set is \<subseteq> {..<length ring}" "length outs = length is" "list_all slot_wf ring" "k < length is"
  shows "read_result (stage_all n is outs ring ! (is ! k)) = result_of (outs ! k)
    \<and> committed_in (stage_all n is outs ring ! (is ! k)) = n"
  using assms
proof (induction "is" arbitrary: outs ring k)
  case (Cons i "is")
  then obtain out outs' where o: "outs = out # outs'" by (cases outs) auto
  let ?r = "stage_outcome i out n ring"
  have fr: "frame {i} ring ?r" by (rule frame_stage) simp
  have wf: "list_all slot_wf ?r" "length ?r = length ring"
    using fr Cons.prems(4) by (auto simp: frame_def same_core_def list_all_length)
  show ?case
  proof (cases k)
    case 0
    have "frame (set is) ?r (stage_all n is outs' ?r)" using Cons.prems o by (intro frame_stage_all) auto
    moreover have "i \<notin> set is" "i < length ring" using Cons.prems by auto
    ultimately have "stage_all n is outs' ?r ! i = ?r ! i" using wf by (simp add: frame_def)
    then show ?thesis
      using stage_outcome_reads [of i ring out n] Cons.prems 0 o by (simp add: list_all_length)
  next
    case (Suc k')
    then show ?thesis using Cons.IH [of ?r outs' k'] Cons.prems wf o by simp
  qed
qed simp

lemma frame_drain_pass:
  assumes "list_all2 agrees ds (fst (serial batch txn))" "idx ` intent ` set batch \<subseteq> I"
  shows "frame I ring (fst (drain_pass n k batch ds ring txn))"
proof -
  have s: "set (map (idx \<circ> intent) (take m batch)) \<subseteq> I" for m
    using assms(2) set_take_subset [of m batch] by auto
  show ?thesis
  proof (cases "snd (drain_pass n k batch ds ring txn)")
    case (Inr t)
    then show ?thesis
      using drain_pass_serial [OF assms(1), where n = n and k = k and ring = ring] s [of "length batch"] by (simp add: frame_stage_all)
  next
    case (Inl je)
    then obtain q where "fst (drain_pass n k batch ds ring txn)
        = stage_all n (map (idx \<circ> intent) (take q batch)) (take q (fst (serial batch txn))) ring"
      using drain_pass_serial [OF assms(1), where n = n and k = k and ring = ring] by (cases je) auto
    then show ?thesis using s [of q] by (simp add: frame_stage_all)
  qed
qed

lemma own_pass_serial:
  assumes "\<And>e. d = Some e \<Longrightarrow> fst (run_own own txn) = Some (Inl e)"
  shows "case own_pass own d txn of
      Inr (t, res) \<Rightarrow> (res, t) = run_own own txn
    | Inl e \<Rightarrow> fst (run_own own txn) = Some (Inl e)"
  using assms
  by (auto simp: own_pass_def run_own_def run_statement_def split: option.splits sum.splits prod.splits)

lemma round_loop_serial:
  assumes "list_all2 agrees ds (fst (serial batch base))"
    and "\<And>e. d = Some e \<Longrightarrow> fst (run_own own (snd (serial batch base))) = Some (Inl e)"
    and "distinct (map (idx \<circ> intent) batch)" "idx ` intent ` set batch \<subseteq> {..<length ring}" "list_all slot_wf ring"
  shows "\<exists>ring'. round_loop n batch own ds d ring base
      = (ring', snd (run_own own (snd (serial batch base))), fst (run_own own (snd (serial batch base))))
    \<and> frame (idx ` intent ` set batch) ring ring'
    \<and> (\<forall>k<length batch. read_result (ring' ! idx (intent (batch ! k))) = result_of (fst (serial batch base) ! k)
        \<and> committed_in (ring' ! idx (intent (batch ! k))) = n)"
  using assms
proof (induction n batch own ds d ring base rule: round_loop.induct)
  case (1 n batch own ds d ring base)
  let ?pass = "drain_pass n 0 batch ds ring base" and ?I = "idx ` intent ` set batch"
  obtain r1 o1 where pass: "?pass = (r1, o1)" by (metis surj_pair)
  note sp = drain_pass_serial [OF "1.prems"(1), where n = n and k = 0 and ring = ring, unfolded pass fst_conv snd_conv]
  have fr: "frame ?I ring r1" using frame_drain_pass [OF "1.prems"(1) subset_refl, where n = n and k = 0 and ring = ring] by (simp add: pass)
  have r1: "length r1 = length ring" "list_all slot_wf r1"
    using fr "1.prems"(5) by (auto simp: frame_def same_core_def list_all_length)
  show ?case
  proof (cases o1)
    case (Inl ke)
    obtain k e where ke: "ke = (k, e)" by (metis surj_pair)
    have k: "fst (serial batch base) ! k = Inl e" "k < length batch" using sp Inl ke by auto
    have ds: "list_all2 agrees (ds[k := Some e]) (fst (serial batch base))"
      using "1.prems"(1) k by (auto simp: list_all2_conv_all_nth nth_list_update)
    have eq: "round_loop n batch own ds d ring base = round_loop n batch own (ds[k := Some e]) d r1 base"
      using pass Inl ke by (subst round_loop.simps) simp
    have "idx ` intent ` set batch \<subseteq> {..<length r1}" using "1.prems"(4) r1 by simp
    from "1.IH"(1) [OF pass [symmetric] Inl ke [symmetric] ds "1.prems"(2,3) this r1(2)] fr show ?thesis
      unfolding eq by (blast intro: frame_trans)
  next
    case (Inr txn)
    have t: "txn = snd (serial batch base)" "r1 = stage_all n (map (idx \<circ> intent) batch) (fst (serial batch base)) ring"
      using sp Inr by auto
    note own = own_pass_serial [of d own txn, OF "1.prems"(2) [folded t(1)]]
    show ?thesis
    proof (cases "own_pass own d txn")
      case (Inl e)
      have d: "\<And>e'. Some e = Some e' \<Longrightarrow> fst (run_own own (snd (serial batch base))) = Some (Inl e')"
        using own Inl t(1) by simp
      have eq: "round_loop n batch own ds d ring base = round_loop n batch own ds (Some e) r1 base"
        using pass Inr Inl by (subst round_loop.simps) simp
      have "idx ` intent ` set batch \<subseteq> {..<length r1}" using "1.prems"(4) r1 by simp
      from "1.IH"(2) [OF pass [symmetric] Inr Inl "1.prems"(1) d "1.prems"(3) this r1(2)] fr show ?thesis
        unfolding eq by (blast intro: frame_trans)
    next
      case (Inr tr)
      obtain t2 res where tr: "tr = (t2, res)" by (metis surj_pair)
      have "round_loop n batch own ds d ring base = (r1, t2, res)"
        using pass \<open>o1 = Inr txn\<close> Inr tr by (subst round_loop.simps) simp
      moreover have "(res, t2) = run_own own (snd (serial batch base))" using own Inr tr t(1) by simp
      moreover have "read_result (r1 ! idx (intent (batch ! k))) = result_of (fst (serial batch base) ! k)
          \<and> committed_in (r1 ! idx (intent (batch ! k))) = n" if "k < length batch" for k
        using stage_all_reads [of "map (idx \<circ> intent) batch" ring "fst (serial batch base)" k n] "1.prems"(3,4,5) that
        by (auto simp: t(2))
      ultimately show ?thesis using fr by (cases "run_own own (snd (serial batch base))") auto
    qed
  qed
qed

section \<open>The whole round\<close>

lemma collect_ready_facts:
  "distinct (map idx (collect_ready ring))"
  "p \<in> set (collect_ready ring) \<Longrightarrow> idx p < length ring \<and> collect_slot (idx p) (ring ! idx p) = Some p
     \<and> word p = header (ring ! idx p)"
proof -
  have "map idx (List.map_filter (\<lambda>i. collect_slot i (ring ! i)) is)
      = filter (\<lambda>i. collect_slot i (ring ! i) \<noteq> None) is" for "is"
    by (induction "is") (auto simp: map_filter_simps collect_slot_def Let_def split: option.splits prod.splits if_splits)
  then show "distinct (map idx (collect_ready ring))" by (simp add: collect_ready_def)
  assume "p \<in> set (collect_ready ring)"
  then obtain i where "i < length ring" "collect_slot i (ring ! i) = Some p"
    by (auto simp: collect_ready_def map_filter_def)
  then show "idx p < length ring \<and> collect_slot (idx p) (ring ! idx p) = Some p \<and> word p = header (ring ! idx p)"
    by (auto simp: collect_slot_def Let_def split: prod.splits if_splits)
qed

text \<open>A slot after its result is posted.\<close>

definition done_word :: "u64 \<Rightarrow> u64" where
  "done_word w = (let (pid, gen, _) = unpack w in pack pid gen ST_DONE)"

lemma post_done_pinned:
  assumes "header s = w"
  shows "post_done w s = s\<lparr>result_state := 1, header := done_word w\<rparr>"
  using assms by (simp add: post_done_def done_word_def cas_def split: prod.splits)

lemma read_result_post [simp]: "read_result (s\<lparr>result_state := x, header := y\<rparr>) = read_result s"
  by (simp add: read_result_def)

lemma post_all_simps [simp]:
  "post_all [] ring = ring"
  "post_all (p # ps) ring = post_all ps (ring[idx p := post_done (word p) (ring ! idx p)])"
  by (simp_all add: post_all_def)

lemma post_all_pinned:
  assumes "distinct (map idx ps)" "\<And>p. p \<in> set ps \<Longrightarrow> idx p < length ring \<and> header (ring ! idx p) = word p"
  shows "length (post_all ps ring) = length ring
    \<and> (\<forall>p\<in>set ps. post_all ps ring ! idx p = (ring ! idx p)\<lparr>result_state := 1, header := done_word (word p)\<rparr>)
    \<and> (\<forall>i. i \<notin> idx ` set ps \<longrightarrow> post_all ps ring ! i = ring ! i)"
  using assms
proof (induction ps arbitrary: ring)
  case (Cons q ps)
  let ?r = "ring[idx q := post_done (word q) (ring ! idx q)]"
  have d: "distinct (map idx ps)" "idx q \<notin> idx ` set ps" using Cons.prems by auto
  have ne: "idx p \<noteq> idx q" if "p \<in> set ps" for p using that d by (metis image_eqI)
  have h: "idx p < length ?r \<and> header (?r ! idx p) = word p" if "p \<in> set ps" for p
    using that ne [OF that] Cons.prems(2) [of p] by simp
  have q: "idx q < length ring" "header (ring ! idx q) = word q" using Cons.prems(2) [of q] by simp_all
  from Cons.IH [OF d(1) h] d(2) q show ?case
    by (auto simp: post_done_pinned nth_list_update dest: ne)
qed simp

lemma slot_wf_prepared:
  assumes "list_all slot_wf ring"
  shows "list_all slot_wf (reclaim_dead dead (recover_orphans txn ring))"
  using assms
  by (auto simp: reclaim_dead_def recover_orphans_def list_all_length reclaim_slot_def recover_slot_def
      post_done_def cas_def slot_wf_def Let_def split: prod.splits)

definition ready_batch :: "(u32 \<Rightarrow> bool) \<Rightarrow> (PendingIntent \<Rightarrow> (u32 \<times> bytes) + 'txn statement)
    \<Rightarrow> ('txn PreparedIntent \<Rightarrow> 'k::linorder) \<Rightarrow> u64 \<Rightarrow> ring \<Rightarrow> 'txn PreparedIntent list" where
  "ready_batch dead prepare key txn_id ring =
    sort_key key (map (\<lambda>i. \<lparr>intent = i, prepared = prepare i\<rparr>)
      (collect_ready (reclaim_dead dead (recover_orphans txn_id ring))))"

lemma ready_batch_intents:
  "mset (map intent (ready_batch dead prepare key txn_id ring))
    = mset (collect_ready (reclaim_dead dead (recover_orphans txn_id ring)))"
  by (simp add: ready_batch_def multiset.map_comp comp_def)

lemma lead_round_serial:
  fixes ring prepare key dead txn_id base own
  assumes wf: "list_all slot_wf ring"
  defines "ready \<equiv> reclaim_dead dead (recover_orphans txn_id ring)"
    and "batch \<equiv> ready_batch dead prepare key txn_id ring"
  defines "outs \<equiv> fst (serial batch base)" and "fin \<equiv> run_own own (snd (serial batch base))"
  obtains ring1 where
    "lead_and_execute dead prepare key commit_ok own (ring, txn_id, base) =
      (if batch = [] \<and> (case fst fin of Some (Inr _) \<Rightarrow> False | _ \<Rightarrow> True) then ((ring1, txn_id, base), Some (fst fin))
       else if commit_ok (snd fin) then ((post_all (map intent batch) ring1, txn_id + 1, snd fin), Some (fst fin))
       else ((ring1, txn_id, base), None))"
    "frame (idx ` set (collect_ready ready)) ready ring1"
    "\<And>k. k < length batch \<Longrightarrow> idx (intent (batch ! k)) < length ready
       \<and> word (intent (batch ! k)) = header (ring1 ! idx (intent (batch ! k)))
       \<and> read_result (ring1 ! idx (intent (batch ! k))) = result_of (outs ! k)"
    "distinct (map idx (map intent batch))" "set (map intent batch) = set (collect_ready ready)" "length ready = length ring"
proof -
  have ms: "mset (map intent batch) = mset (collect_ready ready)"
    unfolding batch_def ready_def by (rule ready_batch_intents)
  have st: "set (map intent batch) = set (collect_ready ready)" using ms by (rule mset_eq_setD)
  have "mset (map idx (map intent batch)) = mset (map idx (collect_ready ready))"
    using ms by (metis mset_map)
  then have di: "distinct (map idx (map intent batch))"
    using collect_ready_facts(1) [of ready] by (metis mset_eq_imp_distinct_iff)
  have sub: "idx ` intent ` set batch \<subseteq> {..<length ready}"
    using st collect_ready_facts(2) [of _ ready] by fastforce
  have I: "idx ` intent ` set batch = idx ` set (collect_ready ready)" using st by simp
  have wf': "list_all slot_wf ready" unfolding ready_def by (rule slot_wf_prepared [OF wf])
  have ag: "list_all2 agrees (replicate (length batch) None) (fst (serial batch base))"
    by (simp add: list_all2_conv_all_nth)
  obtain ring1 where rl: "round_loop (txn_id + 1) batch own (replicate (length batch) None) None ready base
      = (ring1, snd fin, fst fin)" and fr: "frame (idx ` intent ` set batch) ready ring1"
    and rd: "\<And>k. k < length batch \<Longrightarrow> read_result (ring1 ! idx (intent (batch ! k))) = result_of (outs ! k)"
    using round_loop_serial [OF ag, of None own ready "txn_id + 1"] di sub wf' unfolding fin_def outs_def by fastforce
  show thesis
  proof (rule that [of ring1])
    show "lead_and_execute dead prepare key commit_ok own (ring, txn_id, base) =
      (if batch = [] \<and> (case fst fin of Some (Inr _) \<Rightarrow> False | _ \<Rightarrow> True) then ((ring1, txn_id, base), Some (fst fin))
       else if commit_ok (snd fin) then ((post_all (map intent batch) ring1, txn_id + 1, snd fin), Some (fst fin))
       else ((ring1, txn_id, base), None))"
      unfolding lead_and_execute_def Let_def prod.case ready_def [symmetric]
        batch_def [unfolded ready_batch_def, folded ready_def, symmetric] rl by simp
    show "idx (intent (batch ! k)) < length ready \<and> word (intent (batch ! k)) = header (ring1 ! idx (intent (batch ! k)))
       \<and> read_result (ring1 ! idx (intent (batch ! k))) = result_of (outs ! k)" if k: "k < length batch" for k
    proof -
      have "intent (batch ! k) \<in> set (collect_ready ready)" using k st by (metis nth_mem set_map imageI)
      note f = collect_ready_facts(2) [OF this]
      with fr rd [OF k] show ?thesis by (simp add: frame_def same_core_def)
    qed
  qed (use di st fr I in \<open>simp_all add: ready_def reclaim_dead_def recover_orphans_def\<close>)
qed

section \<open>An intent from enqueue to release\<close>

definition ring_wf :: "ring \<Rightarrow> bool" where
  "ring_wf ring \<longleftrightarrow> length ring = RING_SLOTS
     \<and> list_all (\<lambda>s. length (params_area s) = RING_PARAMS_CAP \<and> length (err_msg_area s) = RING_ERR_MSG_CAP) ring"

lemma ring_wf_slots: "ring_wf ring \<Longrightarrow> list_all slot_wf ring"
  by (auto simp: ring_wf_def slot_wf_def list_all_iff)

lemma st_less [simp]: "ST_EMPTY < 4" "ST_RESERVED < 4" "ST_READY < 4" "ST_DONE < 4"
  by (simp_all add: st_defs)

lemma st_distinct [simp]:
  "ST_EMPTY \<noteq> ST_RESERVED" "ST_EMPTY \<noteq> ST_READY" "ST_EMPTY \<noteq> ST_DONE" "ST_RESERVED \<noteq> ST_READY"
  "ST_RESERVED \<noteq> ST_DONE" "ST_READY \<noteq> ST_DONE" "ST_RESERVED \<noteq> ST_EMPTY" "ST_READY \<noteq> ST_EMPTY"
  "ST_DONE \<noteq> ST_EMPTY" "ST_READY \<noteq> ST_RESERVED" "ST_DONE \<noteq> ST_RESERVED" "ST_DONE \<noteq> ST_READY"
  by (simp_all add: st_defs)

lemma pack_mask: "pack pid (gen AND 0x3FFFFFFF) st = pack pid gen st"
  by (simp add: pack_def and.assoc)

text \<open>A published intent that nobody has drained yet.\<close>

definition fresh_intent :: "u32 \<Rightarrow> u64 \<Rightarrow> bytes \<Rightarrow> bytes \<Rightarrow> Slot \<Rightarrow> bool" where
  "fresh_intent pid gen h ps s \<longleftrightarrow> header s = pack pid gen ST_READY \<and> committed_in s = 0 \<and> result_state s = 0
     \<and> plan_hash s = h \<and> unat (params_len s) = length ps \<and> take (length ps) (params_area s) = ps
     \<and> length ps \<le> RING_PARAMS_CAP"

lemma enqueue_scan_fresh:
  assumes "enqueue_scan pid h ps is ring = (ring', Some (i, w))" "length ps \<le> RING_PARAMS_CAP" "set is \<subseteq> {..<length ring}"
  shows "i < length ring \<and> (\<exists>gen s. w = pack pid gen ST_READY \<and> ring' = ring[i := s] \<and> fresh_intent pid gen h ps s
      \<and> err_msg_area s = err_msg_area (ring ! i) \<and> fst (snd (unpack (header (ring ! i)))) + 1 = gen)"
  using assms
proof (induction "is")
  case (Cons j "is")
  show ?case
  proof (cases "reserve pid (ring ! j)")
    case None
    then show ?thesis using Cons by simp
  next
    case (Some sg)
    then obtain gen where sg: "sg = ((ring ! j)\<lparr>header := pack pid (gen + 1) ST_RESERVED\<rparr>, gen + 1)"
      "fst (snd (unpack (header (ring ! j)))) = gen"
      by (auto simp: reserve_def cas_def Let_def split: prod.splits if_splits)
    have "unat (of_nat (length ps) :: u16) = length ps"
      using Cons.prems(2) by (simp add: unat_of_nat RING_PARAMS_CAP_def)
    then show ?thesis
      using Cons.prems Some sg
      by (auto simp: publish_def cas_def init_slot_def fresh_intent_def put_at_def intro!: exI [of _ "gen + 1"])
  qed
qed simp

lemma recover_fresh: "fresh_intent pid gen h ps s \<Longrightarrow> reclaim_slot dead (recover_slot t s) = s"
  by (simp add: fresh_intent_def recover_slot_def reclaim_slot_def unpack_pack Let_def)

lemma collect_fresh:
  "fresh_intent pid gen h ps s \<Longrightarrow>
    collect_slot i s = Some \<lparr>idx = i, word = pack pid gen ST_READY, hash = h, params = ps\<rparr>"
  by (simp add: fresh_intent_def collect_slot_def unpack_pack Let_def)

lemma done_word_pack: "done_word (pack pid gen ST_READY) = pack pid gen ST_DONE"
  by (simp add: done_word_def unpack_pack pack_mask)

lemma release_done:
  assumes "header s = done_word w" "w = pack pid gen ST_READY"
  shows "release w s = s\<lparr>header := pack 0 ((gen AND 0x3FFFFFFF) + 1) ST_EMPTY\<rparr>"
  using assms by (simp add: release_def done_word_pack unpack_pack cas_def pack_mask)

lemma lead_round_spec:
  assumes "list_all slot_wf ring"
  shows "let ready = reclaim_dead dead (recover_orphans txn_id ring);
      batch = ready_batch dead prepare key txn_id ring;
      (outs, t) = serial batch base; (own_out, db) = run_own own t;
      ((ring', txn', base'), reply) = lead_and_execute dead prepare key commit_ok own (ring, txn_id, base)
    in mset (map intent batch) = mset (collect_ready ready) \<and>
      (if batch = [] \<and> (\<forall>n. own_out \<noteq> Some (Inr n)) then (ring', txn', base', reply) = (ready, txn_id, base, Some own_out)
       else if commit_ok db then txn' = txn_id + 1 \<and> base' = db \<and> reply = Some own_out
         \<and> (\<forall>k<length batch. try_take_result (ring' ! idx (intent (batch ! k))) = Some (result_of (outs ! k))
              \<and> header (ring' ! idx (intent (batch ! k))) = done_word (word (intent (batch ! k))))
         \<and> (\<forall>i<length ring. i \<notin> idx ` set (collect_ready ready) \<longrightarrow> ring' ! i = ready ! i)
       else txn' = txn_id \<and> base' = base \<and> reply = None
         \<and> (\<forall>i<length ring. result_state (ring' ! i) = result_state (ready ! i) \<and> header (ring' ! i) = header (ready ! i)))"
proof -
  let ?ready = "reclaim_dead dead (recover_orphans txn_id ring)" and ?batch = "ready_batch dead prepare key txn_id ring"
  obtain outs t own_out db where s: "serial ?batch base = (outs, t)" "run_own own t = (own_out, db)" by (metis surj_pair)
  obtain ring1 where r: "lead_and_execute dead prepare key commit_ok own (ring, txn_id, base) =
      (if ?batch = [] \<and> (case own_out of Some (Inr _) \<Rightarrow> False | _ \<Rightarrow> True) then ((ring1, txn_id, base), Some own_out)
       else if commit_ok db then ((post_all (map intent ?batch) ring1, txn_id + 1, db), Some own_out)
       else ((ring1, txn_id, base), None))"
    and fr: "frame (idx ` set (collect_ready ?ready)) ?ready ring1"
    and m: "\<And>k. k < length ?batch \<Longrightarrow> idx (intent (?batch ! k)) < length ?ready
       \<and> word (intent (?batch ! k)) = header (ring1 ! idx (intent (?batch ! k)))
       \<and> read_result (ring1 ! idx (intent (?batch ! k))) = result_of (outs ! k)"
    and di: "distinct (map idx (map intent ?batch))" and st: "set (map intent ?batch) = set (collect_ready ?ready)"
    and len: "length ?ready = length ring"
    by (rule lead_round_serial [OF assms, where dead = dead and txn_id = txn_id and prepare = prepare and key = key
          and base = base and own = own and commit_ok = commit_ok, unfolded s fst_conv snd_conv], rule that)
  have l1: "length ring1 = length ring" using fr len by (simp add: frame_def)
  have own: "(case own_out of Some (Inr _) \<Rightarrow> False | _ \<Rightarrow> True) \<longleftrightarrow> (\<forall>n. own_out \<noteq> Some (Inr n))"
    by (auto split: option.splits sum.splits)
  have pin: "idx p < length ring1 \<and> header (ring1 ! idx p) = word p" if "p \<in> set (map intent ?batch)" for p
    using that m l1 len by (auto simp: in_set_conv_nth)
  note post = post_all_pinned [OF di pin]
  have empty: "ring1 = ?ready" if "?batch = []"
    using that fr st by (intro nth_equalityI) (auto simp: frame_def)
  have posted: "try_take_result (post_all (map intent ?batch) ring1 ! idx (intent (?batch ! k))) = Some (result_of (outs ! k))
      \<and> header (post_all (map intent ?batch) ring1 ! idx (intent (?batch ! k))) = done_word (word (intent (?batch ! k)))"
    if "k < length ?batch" for k
  proof -
    have "?batch ! k \<in> set ?batch" using that by simp
    with post m [OF that] show ?thesis by (simp add: try_take_result_def)
  qed
  have other: "post_all (map intent ?batch) ring1 ! i = ?ready ! i"
    if "i < length ring" "i \<notin> idx ` set (collect_ready ?ready)" for i
    using that post fr st len by (simp add: frame_def)
  show ?thesis
    unfolding Let_def s r prod.case own
    using ready_batch_intents [of dead prepare key txn_id ring] empty posted other fr len
    by (auto simp: frame_def same_core_def)
qed

section \<open>Properties\<close>

text \<open>
  C3: a leader's round is a serial execution. Whatever statements fail and however often the round
  restarts because a failure cannot be undone in place, the transaction it commits is the one of
  running the drained intents one after another in locality order, then its own statement, a failed
  statement leaving no trace; every drained slot is then done and its owner reads the outcome of its
  own statement, and no other slot changes. If the commit fails, nothing is posted and the database
  and the transaction id stay; if there is nothing to commit, nothing changes.
\<close>

theorem lead_round_refines_serial:
  assumes "list_all slot_wf ring"
  shows "let ready = reclaim_dead dead (recover_orphans txn_id ring);
      batch = ready_batch dead prepare key txn_id ring;
      (outs, t) = serial batch base; (own_out, db) = run_own own t;
      ((ring', txn', base'), reply) = lead_and_execute dead prepare key commit_ok own (ring, txn_id, base)
    in mset (map intent batch) = mset (collect_ready ready) \<and>
      (if batch = [] \<and> (\<forall>n. own_out \<noteq> Some (Inr n)) then (ring', txn', base', reply) = (ready, txn_id, base, Some own_out)
       else if commit_ok db then txn' = txn_id + 1 \<and> base' = db \<and> reply = Some own_out
         \<and> (\<forall>k<length batch. try_take_result (ring' ! idx (intent (batch ! k))) = Some (result_of (outs ! k))
              \<and> header (ring' ! idx (intent (batch ! k))) = done_word (word (intent (batch ! k))))
         \<and> (\<forall>i<length ring. i \<notin> idx ` set (collect_ready ready) \<longrightarrow> ring' ! i = ready ! i)
       else txn' = txn_id \<and> base' = base \<and> reply = None
         \<and> (\<forall>i<length ring. result_state (ring' ! i) = result_state (ready ! i) \<and> header (ring' ! i) = header (ready ! i)))"
  using assms by (rule lead_round_spec)

text \<open>
  The witness: a table of two slots with a ready intent each; the first statement adds one row to the
  database, the second fails after having changed it in a way its savepoint cannot undo.
\<close>

definition blank_slot :: Slot where
  "blank_slot = \<lparr>header = 0, result_state = 0, err_code = 0, affected = 0, committed_in = 0, plan_hash = [],
     params_len = 0, params_area = replicate RING_PARAMS_CAP 0, err_msg_len = 0, err_msg_area = replicate RING_ERR_MSG_CAP 0\<rparr>"

definition two_ready :: ring where
  "two_ready = [blank_slot\<lparr>header := pack 7 1 ST_READY\<rparr>, blank_slot\<lparr>header := pack 8 1 ST_READY\<rparr>]"

definition tearing :: "PendingIntent \<Rightarrow> (u32 \<times> bytes) + nat statement" where
  "tearing p = (if idx p = 0 then Inr (\<lambda>t. (t + 1, Inr 1, True)) else Inr (\<lambda>t. (t + 100, Inl (9, []), False)))"

lemma two_ready_batch:
  "ready_batch (\<lambda>_. False) tearing (\<lambda>p. idx (intent p)) 5 two_ready
    = map (\<lambda>i. \<lparr>intent = i, prepared = tearing i\<rparr>)
        [\<lparr>idx = 0, word = pack 7 1 ST_READY, hash = [], params = []\<rparr>, \<lparr>idx = 1, word = pack 8 1 ST_READY, hash = [], params = []\<rparr>]"
  by (simp add: ready_batch_def two_ready_def blank_slot_def recover_orphans_def recover_slot_def reclaim_dead_def
      reclaim_slot_def collect_ready_def collect_slot_def unpack_pack map_filter_simps upt_rec Let_def RING_PARAMS_CAP_def)

theorem lead_round_refines_serial_witness:
  "let r = lead_and_execute (\<lambda>_. False) tearing (\<lambda>p. idx (intent p)) (\<lambda>_. True) None (two_ready, 5, 40)
   in snd (fst r) = (6, 41) \<and> try_take_result (fst (fst r) ! 0) = Some (result_of (Inr 1))
      \<and> try_take_result (fst (fst r) ! 1) = Some (result_of (Inl (9, [])))"
proof -
  have wf: "list_all slot_wf two_ready" by (simp add: two_ready_def blank_slot_def slot_wf_def)
  show ?thesis
    using lead_round_refines_serial [OF wf, where dead = "\<lambda>_. False" and prepare = tearing and key = "\<lambda>p. idx (intent p)"
        and txn_id = 5 and base = 40 and own = None and commit_ok = "\<lambda>_. True"]
    by (auto simp: two_ready_batch tearing_def run_member_def run_statement_def run_own_def Let_def less_Suc_eq
        split: prod.splits)
qed

text \<open>
  C9: an enqueued intent is answered. Once \<open>enqueue\<close> has returned a slot, the next round that commits
  executes exactly this intent in its batch, with the hash and the parameters handed in, and posts
  its outcome in that slot; releasing the slot then makes it empty, with the next generation.
\<close>

theorem enqueued_intent_is_answered:
  assumes "ring_wf ring" and "enqueue pid h ps ring = (ring', Some (i, w))"
    and "lead_and_execute dead prepare key (\<lambda>_. True) own (ring', txn_id, base) = ((ring'', txn', base'), reply)"
  shows "let batch = ready_batch dead prepare key txn_id ring'
    in txn' = txn_id + 1
      \<and> (\<exists>k<length batch. intent (batch ! k) = \<lparr>idx = i, word = w, hash = h, params = ps\<rparr>
          \<and> try_take_result (ring'' ! i) = Some (result_of (fst (serial batch base) ! k)))
      \<and> (let (_, gen, state) = unpack (header (release w (ring'' ! i)))
          in state = ST_EMPTY \<and> gen = (fst (snd (unpack w)) + 1) AND 0x3FFFFFFF)"
proof -
  let ?ready = "reclaim_dead dead (recover_orphans txn_id ring')" and ?batch = "ready_batch dead prepare key txn_id ring'"
  let ?p = "\<lparr>idx = i, word = w, hash = h, params = ps\<rparr>"
  let ?start = "unat (pid * 2654435761) mod RING_SLOTS"
  have len: "length ps \<le> RING_PARAMS_CAP"
    and scan: "enqueue_scan pid h ps (map (\<lambda>i. (?start + i) mod RING_SLOTS) [0..<RING_SLOTS]) ring = (ring', Some (i, w))"
    using assms(2) by (auto simp: enqueue_def Let_def split: if_splits)
  have "set (map (\<lambda>i. (?start + i) mod RING_SLOTS) [0..<RING_SLOTS]) \<subseteq> {..<length ring}"
    using assms(1) by (auto simp: ring_wf_def RING_SLOTS_def)
  from enqueue_scan_fresh [OF scan len this] obtain gen s where i: "i < length ring"
    and w: "w = pack pid gen ST_READY" and r': "ring' = ring[i := s]" and fresh: "fresh_intent pid gen h ps s"
    and msg: "err_msg_area s = err_msg_area (ring ! i)" by blast
  have wf: "list_all slot_wf ring'"
    using ring_wf_slots [OF assms(1)] msg i by (auto simp: r' list_all_length nth_list_update slot_wf_def)
  have "?ready ! i = s" "i < length ?ready"
    using i recover_fresh [OF fresh, of dead txn_id] by (simp_all add: reclaim_dead_def recover_orphans_def r')
  then have "?p \<in> set (collect_ready ?ready)"
    using collect_fresh [OF fresh, of i] w by (force simp: collect_ready_def map_filter_def)
  then have "?p \<in> set (map intent ?batch)"
    by (metis ready_batch_intents mset_eq_setD)
  then obtain k where k: "k < length ?batch" "intent (?batch ! k) = ?p" by (auto simp: in_set_conv_nth)
  then have ne: "?batch \<noteq> []" by auto
  obtain outs t own_out db where sr: "serial ?batch base = (outs, t)" "run_own own t = (own_out, db)" by (metis surj_pair)
  have out: "txn' = txn_id + 1" "try_take_result (ring'' ! i) = Some (result_of (outs ! k))" "header (ring'' ! i) = done_word w"
    using lead_round_spec [OF wf, of dead txn_id prepare key base own "\<lambda>_. True"] ne k
    unfolding sr assms(3) Let_def prod.case by auto
  have "unpack (header (release w (ring'' ! i))) = (0, ((gen AND 0x3FFFFFFF) + 1) AND 0x3FFFFFFF, ST_EMPTY)"
    using release_done [OF out(3) w] by (simp add: unpack_pack)
  then show ?thesis using k out sr by (auto simp: w unpack_pack Let_def)
qed

theorem enqueued_intent_is_answered_witness:
  "\<exists>ring' w ring'' base' r. enqueue 0 [1] [2, 3] (replicate RING_SLOTS blank_slot) = (ring', Some (0, w))
    \<and> fst (lead_and_execute (\<lambda>_. False) tearing (\<lambda>p. idx (intent p)) (\<lambda>_. True) None (ring', 5, 40)) = (ring'', 6, base')
    \<and> try_take_result (ring'' ! 0) = Some r"
proof -
  have wf: "ring_wf (replicate RING_SLOTS blank_slot)"
    by (simp add: ring_wf_def blank_slot_def list_all_length)
  let ?s = "init_slot [1] [2, 3] (blank_slot\<lparr>header := pack 0 1 ST_RESERVED\<rparr>)\<lparr>header := pack 0 1 ST_READY\<rparr>"
  let ?r = "(replicate RING_SLOTS blank_slot)[0 := ?s]"
  have res: "reserve 0 blank_slot = Some (blank_slot\<lparr>header := pack 0 1 ST_RESERVED\<rparr>, 1)"
    by (simp add: reserve_def blank_slot_def unpack_def cas_def ST_EMPTY_def)
  have pub: "publish 0 1 (init_slot [1] [2, 3] (blank_slot\<lparr>header := pack 0 1 ST_RESERVED\<rparr>)) = (?s, True)"
    by (simp add: publish_def cas_def init_slot_def)
  have up: "[0..<RING_SLOTS] = 0 # [1..<RING_SLOTS]" by (simp add: upt_conv_Cons RING_SLOTS_def)
  have z: "replicate RING_SLOTS blank_slot ! 0 = blank_slot" by (simp add: RING_SLOTS_def)
  have enq: "enqueue 0 [1] [2, 3] (replicate RING_SLOTS blank_slot) = (?r, Some (0, pack 0 1 ST_READY))"
    by (simp add: enqueue_def up z res pub RING_PARAMS_CAP_def)
  obtain ring'' txn' base' reply where lead: "lead_and_execute (\<lambda>_. False) tearing (\<lambda>p. idx (intent p)) (\<lambda>_. True) None (?r, 5, 40)
      = ((ring'', txn', base'), reply)" by (metis prod.exhaust)
  show ?thesis
    using enqueued_intent_is_answered [OF wf enq lead] enq lead by (auto simp: Let_def)
qed

end
