(* ===== verification/Ring_Protocol.thy ===== *)
theory Ring_Protocol
  imports Intent_Ring
begin

text \<open>
  The intent ring under interleaving: enqueuers and leaders of several processes take one atomic step
  at a time (a load, a compare-and-exchange, a store to a field), in any order, and processes die at
  any point. The steps are those of \<open>ring.rs\<close> in the order of its functions, of the waiting loop in
  \<open>run_write_plan\<close> (\<open>database_query.rs\<close>) and of \<open>lead_and_execute\<close> (\<open>ring_exec.rs\<close>).
\<close>

section \<open>State\<close>

text \<open>Where an enqueuing thread stands: the slot and the generation or the ready word it holds.\<close>

datatype opc =
    OIdle
  | OReserved nat u64
  | OInited nat u64
  | OWaiting nat u64
  | OTaken nat u64
  | OReleasing nat u64
  | OGone

text \<open>Where the leader stands in its round.\<close>

datatype lpc =
    LRecover nat
  | LRecHeader nat u64
  | LRecPost nat u64
  | LRecCas nat u64
  | LRecClear nat
  | LReclaim nat
  | LCollect nat "(nat \<times> u64) list"
  | LColHeader nat u64 "(nat \<times> u64) list"
  | LExec "(nat \<times> u64) list" "(nat \<times> u64) list" "(nat \<times> u64 \<times> RingResult) list"
  | LPost "(nat \<times> u64) list"
  | LPostCas nat u64 "(nat \<times> u64) list"

text \<open>
  The shared state, and two ghost components: the incarnations (slot and generation) whose execution
  is part of a committed transaction, with their result, and those acknowledged to their owner.
\<close>

record World =
  slot :: "nat \<Rightarrow> Slot"
  owner :: "nat \<Rightarrow> opc"
  leader :: "(nat \<times> lpc) option"
  txn :: u64
  dead :: "u32 set"
  committed :: "(nat \<times> u64 \<times> RingResult) list"
  acked :: "(nat \<times> u64 \<times> RingResult) list"

definition w_pid :: "u64 \<Rightarrow> u32" where "w_pid w = fst (unpack w)"
definition w_gen :: "u64 \<Rightarrow> u64" where "w_gen w = fst (snd (unpack w))"
definition w_state :: "u64 \<Rightarrow> u64" where "w_state w = snd (snd (unpack w))"

definition gen_of :: "World \<Rightarrow> nat \<Rightarrow> u64" where
  "gen_of W i = w_gen (header (slot W i))"

definition state_of :: "World \<Rightarrow> nat \<Rightarrow> u64" where
  "state_of W i = w_state (header (slot W i))"

definition empty_word :: "u64 \<Rightarrow> u64" where
  "empty_word w = pack 0 (w_gen w + 1) ST_EMPTY"

text \<open>The two attempts of \<open>release\<close>, one compare-and-exchange each.\<close>

definition release_from :: "u64 \<Rightarrow> u64 \<Rightarrow> Slot \<Rightarrow> Slot \<times> bool" where
  "release_from st owned s = cas (pack (w_pid owned) (w_gen owned) st) (empty_word owned) s"

definition mid_post :: "lpc \<Rightarrow> bool" where
  "mid_post pc = (case pc of LRecCas _ _ \<Rightarrow> True | LPostCas _ _ _ \<Rightarrow> True | _ \<Rightarrow> False)"

section \<open>Steps\<close>

text \<open>
  \<open>pid\<close> gives the process of a thread. The steps of an enqueuer are those of \<open>enqueue\<close>, of the waiting
  loop of \<open>run_write_plan\<close> and of \<open>release\<close>; those of a leader are \<open>recover_orphans\<close> (with its
  \<open>post_done\<close>), \<open>reclaim_dead\<close>, \<open>collect_ready\<close>, the executions and the commit of
  \<open>lead_and_execute\<close>, and the posts under the lock. With \<open>torn\<close> a leader may die between the two steps of
  \<open>post_done\<close>. A writer that takes the lock outside a leader's round (an explicit transaction or a schema
  change, \<open>begin_write\<close> and \<open>commit\<close>) may commit; with \<open>direct\<close> it may do so also while results that a
  dead leader staged for a transaction that never committed are still in the ring. Generations and
  transaction ids do not run out.
\<close>

definition stale_stage :: "World \<Rightarrow> bool" where
  "stale_stage W \<longleftrightarrow> (\<exists>i<RING_SLOTS. state_of W i = ST_READY \<and> txn W < committed_in (slot W i))"

inductive step :: "bool \<Rightarrow> bool \<Rightarrow> (nat \<Rightarrow> u32) \<Rightarrow> World \<Rightarrow> World \<Rightarrow> bool" for torn direct pid where
  reserve_slot: "owner W t = OIdle \<Longrightarrow> i < RING_SLOTS \<Longrightarrow> gen_of W i < 0x3FFFFFFD \<Longrightarrow>
     reserve (pid t) (slot W i) = Some (s, g) \<Longrightarrow>
     step torn direct pid W (W\<lparr>slot := (slot W)(i := s), owner := (owner W)(t := OReserved i g)\<rparr>)"
| initialise: "owner W t = OReserved i g \<Longrightarrow> length ps \<le> RING_PARAMS_CAP \<Longrightarrow>
     step torn direct pid W (W\<lparr>slot := (slot W)(i := init_slot h ps (slot W i)), owner := (owner W)(t := OInited i g)\<rparr>)"
| publish_slot: "owner W t = OInited i g \<Longrightarrow> publish (pid t) g (slot W i) = (s, ok) \<Longrightarrow>
     step torn direct pid W (W\<lparr>slot := (slot W)(i := s),
       owner := (owner W)(t := if ok then OWaiting i (pack (pid t) g ST_READY) else OIdle)\<rparr>)"
| take_result: "owner W t = OWaiting i w \<Longrightarrow> try_take_result (slot W i) = Some r \<Longrightarrow>
     step torn direct pid W (W\<lparr>owner := (owner W)(t := OTaken i w), acked := (i, w_gen w, r) # acked W\<rparr>)"
| release_first: "owner W t = OTaken i w \<Longrightarrow> release_from ST_DONE w (slot W i) = (s, ok) \<Longrightarrow>
     step torn direct pid W (W\<lparr>slot := (slot W)(i := s), owner := (owner W)(t := if ok then OIdle else OReleasing i w)\<rparr>)"
| release_second: "owner W t = OReleasing i w \<Longrightarrow> release_from ST_READY w (slot W i) = (s, ok) \<Longrightarrow>
     step torn direct pid W (W\<lparr>slot := (slot W)(i := s), owner := (owner W)(t := OIdle)\<rparr>)"
| lock: "leader W = None \<Longrightarrow> owner W t \<noteq> OGone \<Longrightarrow> txn W \<noteq> -1 \<Longrightarrow>
     step torn direct pid W (W\<lparr>leader := Some (t, LRecover 0)\<rparr>)"
| recover_load: "leader W = Some (t, LRecover k) \<Longrightarrow> k < RING_SLOTS \<Longrightarrow>
     step torn direct pid W (W\<lparr>leader := Some (t, LRecHeader k (header (slot W k)))\<rparr>)"
| recover_stamp: "leader W = Some (t, LRecHeader k w) \<Longrightarrow>
     step torn direct pid W (W\<lparr>leader := Some (t,
       if committed_in (slot W k) = 0 then LRecover (k + 1)
       else if w_state w \<noteq> ST_READY then LRecover (k + 1)
       else if committed_in (slot W k) \<le> txn W then LRecPost k w
       else LRecClear k)\<rparr>)"
| recover_post: "leader W = Some (t, LRecPost k w) \<Longrightarrow>
     step torn direct pid W (W\<lparr>slot := (slot W)(k := (slot W k)\<lparr>result_state := 1\<rparr>), leader := Some (t, LRecCas k w)\<rparr>)"
| recover_cas: "leader W = Some (t, LRecCas k w) \<Longrightarrow>
     step torn direct pid W (W\<lparr>slot := (slot W)(k := fst (cas w (done_word w) (slot W k))), leader := Some (t, LRecover (k + 1))\<rparr>)"
| recover_clear: "leader W = Some (t, LRecClear k) \<Longrightarrow>
     step torn direct pid W (W\<lparr>slot := (slot W)(k := (slot W k)\<lparr>committed_in := 0\<rparr>), leader := Some (t, LRecover (k + 1))\<rparr>)"
| recovered: "leader W = Some (t, LRecover RING_SLOTS) \<Longrightarrow>
     step torn direct pid W (W\<lparr>leader := Some (t, LReclaim 0)\<rparr>)"
| reclaim: "leader W = Some (t, LReclaim k) \<Longrightarrow> k < RING_SLOTS \<Longrightarrow>
     step torn direct pid W (W\<lparr>slot := (slot W)(k := reclaim_slot (\<lambda>p. p \<in> dead W) (slot W k)), leader := Some (t, LReclaim (k + 1))\<rparr>)"
| reclaimed: "leader W = Some (t, LReclaim RING_SLOTS) \<Longrightarrow>
     step torn direct pid W (W\<lparr>leader := Some (t, LCollect 0 [])\<rparr>)"
| collect_load: "leader W = Some (t, LCollect k batch) \<Longrightarrow> k < RING_SLOTS \<Longrightarrow>
     step torn direct pid W (W\<lparr>leader := Some (t, LColHeader k (header (slot W k)) batch)\<rparr>)"
| collect_read: "leader W = Some (t, LColHeader k w batch) \<Longrightarrow>
     step torn direct pid W (W\<lparr>leader := Some (t, LCollect (k + 1)
       (if w_state w \<noteq> ST_READY \<or> committed_in (slot W k) \<noteq> 0 \<or> unat (params_len (slot W k)) > RING_PARAMS_CAP
        then batch else batch @ [(k, w)]))\<rparr>)"
| collected: "leader W = Some (t, LCollect RING_SLOTS batch) \<Longrightarrow>
     step torn direct pid W (W\<lparr>leader := Some (t, LExec batch batch [])\<rparr>)"
| execute: "leader W = Some (t, LExec batch ((i, w) # todo) pending) \<Longrightarrow>
     s = stage_result aff code msg (txn W + 1) (slot W i) \<Longrightarrow>
     step torn direct pid W (W\<lparr>slot := (slot W)(i := s),
       leader := Some (t, LExec batch todo (pending @ [(i, w_gen w, read_result s)]))\<rparr>)"
| restart: "leader W = Some (t, LExec batch todo pending) \<Longrightarrow>
     step torn direct pid W (W\<lparr>leader := Some (t, LExec batch batch [])\<rparr>)"
| abort: "leader W = Some (t, LExec batch todo pending) \<Longrightarrow>
     step torn direct pid W (W\<lparr>leader := None\<rparr>)"
| flip: "leader W = Some (t, LExec batch [] pending) \<Longrightarrow>
     step torn direct pid W (W\<lparr>txn := txn W + 1, committed := pending @ committed W, leader := Some (t, LPost batch)\<rparr>)"
| post_store: "leader W = Some (t, LPost ((i, w) # todo)) \<Longrightarrow>
     step torn direct pid W (W\<lparr>slot := (slot W)(i := (slot W i)\<lparr>result_state := 1\<rparr>), leader := Some (t, LPostCas i w todo)\<rparr>)"
| post_cas: "leader W = Some (t, LPostCas i w todo) \<Longrightarrow>
     step torn direct pid W (W\<lparr>slot := (slot W)(i := fst (cas w (done_word w) (slot W i))), leader := Some (t, LPost todo)\<rparr>)"
| unlock: "leader W = Some (t, LPost []) \<Longrightarrow>
     step torn direct pid W (W\<lparr>leader := None\<rparr>)"
| crash: "(\<And>t pc. leader W = Some (t, pc) \<Longrightarrow> pid t = p \<Longrightarrow> mid_post pc \<Longrightarrow> torn) \<Longrightarrow>
     step torn direct pid W (W\<lparr>owner := (\<lambda>t. if pid t = p then OGone else owner W t), dead := insert p (dead W),
       leader := (case leader W of Some (t, pc) \<Rightarrow> if pid t = p then None else Some (t, pc) | None \<Rightarrow> None)\<rparr>)"
| direct_commit: "(stale_stage W \<Longrightarrow> direct) \<Longrightarrow> leader W = None \<Longrightarrow> txn W \<noteq> -1 \<Longrightarrow>
     step torn direct pid W (W\<lparr>txn := txn W + 1\<rparr>)"

definition start :: "u64 \<Rightarrow> World" where
  "start n = \<lparr>slot = (\<lambda>_. blank_slot), owner = (\<lambda>_. OIdle), leader = None, txn = n, dead = {}, committed = [], acked = []\<rparr>"

inductive reachable :: "bool \<Rightarrow> bool \<Rightarrow> (nat \<Rightarrow> u32) \<Rightarrow> u64 \<Rightarrow> World \<Rightarrow> bool" for torn direct pid n where
  initial: "reachable torn direct pid n (start n)"
| more: "reachable torn direct pid n W \<Longrightarrow> step torn direct pid W W' \<Longrightarrow> reachable torn direct pid n W'"

section \<open>Words\<close>

lemma bit_st: "bit (w AND 3 :: u64) k \<longleftrightarrow> bit w k \<and> k < 2"
  by (auto simp: and_mask_2 bit_simps)

lemma pack_unpack: "pack (w_pid w) (w_gen w) (w_state w) = w"
proof (rule bit_word_eqI)
  fix n assume "n < LENGTH(64)"
  moreover have "\<not> n < 2 \<Longrightarrow> Suc (Suc (n - 2)) = n" by simp
  ultimately show "bit (pack (w_pid w) (w_gen w) (w_state w)) n = bit w n"
    by (cases "n < 2"; cases "n < 32")
      (auto simp: pack_def w_pid_def w_gen_def w_state_def unpack_def and_mask_30 and_mask_2 bit_simps)
qed

lemma w_pack:
  "st < 4 \<Longrightarrow> w_pid (pack p g st) = p"
  "st < 4 \<Longrightarrow> w_gen (pack p g st) = g AND 0x3FFFFFFF"
  "st < 4 \<Longrightarrow> w_state (pack p g st) = st"
  by (simp_all add: w_pid_def w_gen_def w_state_def unpack_pack)

lemma word_eq_parts: "w = w' \<longleftrightarrow> w_pid w = w_pid w' \<and> w_gen w = w_gen w' \<and> w_state w = w_state w'"
  by (metis pack_unpack)

lemma w_gen_small: "w_gen w < 0x40000000"
proof -
  have "drop_bit 2 w AND 0x3FFFFFFF \<le> 0x3FFFFFFF" by (rule word_and_le1)
  also have "\<dots> < (0x40000000 :: u64)" by simp
  finally show ?thesis by (simp add: w_gen_def unpack_def)
qed

lemma gen_mask: "g < 0x40000000 \<Longrightarrow> g AND 0x3FFFFFFF = (g :: u64)"
  by (simp add: and_mask_30 take_bit_eq_mod word_less_nat_alt unat_mod word_arith_nat_mod)




lemma done_word_parts:
  "w_pid (done_word w) = w_pid w" "w_gen (done_word w) = w_gen w" "w_state (done_word w) = ST_DONE"
proof -
  have "done_word w = pack (w_pid w) (w_gen w) ST_DONE"
    by (simp add: done_word_def w_pid_def w_gen_def split: prod.splits)
  then show "w_pid (done_word w) = w_pid w" "w_gen (done_word w) = w_gen w" "w_state (done_word w) = ST_DONE"
    using w_gen_small [of w] by (simp_all add: w_pack gen_mask)
qed


lemma header_is_pack:
  assumes "st < 4" "g < 0x40000000"
  shows "header s = pack p g st \<longleftrightarrow> w_pid (header s) = p \<and> w_gen (header s) = g \<and> w_state (header s) = st"
  using assms by (subst word_eq_parts) (simp add: w_pack gen_mask)


section \<open>The invariant\<close>

definition stamp_of :: "World \<Rightarrow> nat \<Rightarrow> u64" where
  "stamp_of W i = committed_in (slot W i)"

definition result_at :: "World \<Rightarrow> nat \<Rightarrow> RingResult" where
  "result_at W i = read_result (slot W i)"

definition posted :: "World \<Rightarrow> nat \<Rightarrow> bool" where
  "posted W i \<longleftrightarrow> result_state (slot W i) \<noteq> 0"

definition logged :: "World \<Rightarrow> nat \<Rightarrow> bool" where
  "logged W i \<longleftrightarrow> (i, gen_of W i, result_at W i) \<in> set (committed W)"

lemmas views = gen_of_def state_of_def stamp_of_def result_at_def posted_def

text \<open>A ready slot whose result is not posted: nobody but the leader moves it.\<close>

definition pinned :: "World \<Rightarrow> nat \<Rightarrow> u64 \<Rightarrow> bool" where
  "pinned W i w \<longleftrightarrow> i < RING_SLOTS \<and> header (slot W i) = w \<and> w_state w = ST_READY \<and> \<not> posted W i"

definition held :: "World \<Rightarrow> u32 \<Rightarrow> nat \<Rightarrow> u64 \<Rightarrow> bool" where
  "held W p i w \<longleftrightarrow> i < RING_SLOTS \<and> w_pid w = p \<and> w_state w = ST_READY
     \<and> (header (slot W i) = w \<or> header (slot W i) = done_word w)"

definition fresh :: "World \<Rightarrow> u32 \<Rightarrow> nat \<Rightarrow> u64 \<Rightarrow> bool" where
  "fresh W p i g \<longleftrightarrow> i < RING_SLOTS \<and> g < 0x3FFFFFFE \<and> header (slot W i) = pack p g ST_RESERVED"

definition owner_ok :: "(nat \<Rightarrow> u32) \<Rightarrow> World \<Rightarrow> nat \<Rightarrow> bool" where
  "owner_ok pid W t = (case owner W t of
     OReserved i g \<Rightarrow> fresh W (pid t) i g
   | OInited i g \<Rightarrow> fresh W (pid t) i g \<and> \<not> posted W i \<and> stamp_of W i = 0
   | OWaiting i w \<Rightarrow> held W (pid t) i w
   | OTaken i w \<Rightarrow> held W (pid t) i w \<and> posted W i
   | OReleasing i w \<Rightarrow> held W (pid t) i w \<and> posted W i
   | _ \<Rightarrow> True)"

fun claim :: "opc \<Rightarrow> nat option" where
  "claim (OReserved i g) = Some i"
| "claim (OInited i g) = Some i"
| "claim (OWaiting i w) = Some i"
| "claim (OTaken i w) = Some i"
| "claim (OReleasing i w) = Some i"
| "claim _ = None"

definition exclusive :: "World \<Rightarrow> bool" where
  "exclusive W \<longleftrightarrow> (\<forall>t t' i. claim (owner W t) = Some i \<longrightarrow> claim (owner W t') = Some i \<longrightarrow> t = t')"

definition live :: "(nat \<Rightarrow> u32) \<Rightarrow> World \<Rightarrow> bool" where
  "live pid W \<longleftrightarrow> (\<forall>t. owner W t \<noteq> OGone \<longrightarrow> pid t \<notin> dead W)"

text \<open>The leader is between the two steps of posting slot \<open>i\<close>.\<close>

definition posting :: "(nat \<times> lpc) option \<Rightarrow> nat \<Rightarrow> u64 \<Rightarrow> bool" where
  "posting l i w \<longleftrightarrow> (\<exists>t todo. l = Some (t, LRecCas i w) \<or> l = Some (t, LPostCas i w todo))"


definition log_ok :: "World \<Rightarrow> bool" where
  "log_ok W \<longleftrightarrow> distinct (map (\<lambda>(i, g, r). (i, g)) (committed W)) \<and> set (acked W) \<subseteq> set (committed W)"

definition clear_below :: "World \<Rightarrow> nat \<Rightarrow> bool" where
  "clear_below W k \<longleftrightarrow> (\<forall>i<k. state_of W i = ST_READY \<longrightarrow> stamp_of W i = 0)"

definition half_posted :: "World \<Rightarrow> nat \<Rightarrow> u64 \<Rightarrow> bool" where
  "half_posted W i w \<longleftrightarrow> i < RING_SLOTS \<and> w_state w = ST_READY
     \<and> (header (slot W i) = w \<and> posted W i \<and> logged W i
        \<or> w_gen w < gen_of W i \<and> (state_of W i = ST_READY \<longrightarrow> stamp_of W i = 0))"

definition batch_ok :: "World \<Rightarrow> (nat \<times> u64) list \<Rightarrow> bool" where
  "batch_ok W batch \<longleftrightarrow> distinct (map fst batch) \<and> (\<forall>(i, w)\<in>set batch. pinned W i w)"

definition committed_stamp :: "World \<Rightarrow> nat \<Rightarrow> bool" where
  "committed_stamp W i \<longleftrightarrow> stamp_of W i \<noteq> 0 \<and> stamp_of W i \<le> txn W"



section \<open>The invariant is kept\<close>














lemma done_word_is_pack: "done_word w = pack (w_pid w) (w_gen w) ST_DONE"
  by (simp add: done_word_def w_pid_def w_gen_def split: prod.splits)

lemma ready_word_is_pack: "w_state w = ST_READY \<Longrightarrow> pack (w_pid w) (w_gen w) ST_READY = w"
  by (metis pack_unpack)









text \<open>The views do not look at the leader; a slot update is seen at its slot only.\<close>

lemma views_leader [simp]:
  "state_of (W\<lparr>leader := l\<rparr>) = state_of W" "gen_of (W\<lparr>leader := l\<rparr>) = gen_of W" "stamp_of (W\<lparr>leader := l\<rparr>) = stamp_of W"
  "result_at (W\<lparr>leader := l\<rparr>) = result_at W" "posted (W\<lparr>leader := l\<rparr>) = posted W"
  "clear_below (W\<lparr>leader := l\<rparr>) = clear_below W" "pinned (W\<lparr>leader := l\<rparr>) = pinned W"
  "half_posted (W\<lparr>leader := l\<rparr>) = half_posted W" "batch_ok (W\<lparr>leader := l\<rparr>) = batch_ok W"
  "committed_stamp (W\<lparr>leader := l\<rparr>) = committed_stamp W" "logged (W\<lparr>leader := l\<rparr>) = logged W"
  "owner_ok pid (W\<lparr>leader := l\<rparr>) = owner_ok pid W" "exclusive (W\<lparr>leader := l\<rparr>) = exclusive W"
  "live pid (W\<lparr>leader := l\<rparr>) = live pid W" "log_ok (W\<lparr>leader := l\<rparr>) = log_ok W"
  by (simp_all add: fun_eq_iff views clear_below_def pinned_def half_posted_def batch_ok_def committed_stamp_def logged_def
      owner_ok_def exclusive_def live_def log_ok_def fresh_def held_def cong: opc.case_cong)

lemma views_slot [simp]:
  "state_of (W\<lparr>slot := (slot W)(k := s)\<rparr>) j = (if j = k then w_state (header s) else state_of W j)"
  "gen_of (W\<lparr>slot := (slot W)(k := s)\<rparr>) j = (if j = k then w_gen (header s) else gen_of W j)"
  "stamp_of (W\<lparr>slot := (slot W)(k := s)\<rparr>) j = (if j = k then committed_in s else stamp_of W j)"
  "result_at (W\<lparr>slot := (slot W)(k := s)\<rparr>) j = (if j = k then read_result s else result_at W j)"
  "posted (W\<lparr>slot := (slot W)(k := s)\<rparr>) j = (if j = k then result_state s \<noteq> 0 else posted W j)"
  by (simp_all add: views)

lemma slot_at_leader: "slot (W\<lparr>leader := l\<rparr>) = slot W"
  by simp





lemma posting_simps [simp]:
  "\<not> posting None i w" "\<not> posting (Some (t, LRecover k)) i w" "\<not> posting (Some (t, LRecHeader k x)) i w"
  "\<not> posting (Some (t, LRecPost k x)) i w" "\<not> posting (Some (t, LRecClear k)) i w" "\<not> posting (Some (t, LReclaim k)) i w"
  "\<not> posting (Some (t, LCollect k b)) i w" "\<not> posting (Some (t, LColHeader k x b)) i w"
  "\<not> posting (Some (t, LExec b todo p)) i w" "\<not> posting (Some (t, LPost todo)) i w"
  "posting (Some (t, LRecCas k x)) i w \<longleftrightarrow> i = k \<and> w = x" "posting (Some (t, LPostCas k x todo)) i w \<longleftrightarrow> i = k \<and> w = x"
  by (auto simp: posting_def)

















lemma stage_result_simps [simp]:
  "header (stage_result a c m n s) = header s" "result_state (stage_result a c m n s) = result_state s"
  "committed_in (stage_result a c m n s) = n"
  by (simp_all add: stage_result_def Let_def)












section \<open>Runs\<close>

abbreviation run :: "bool \<Rightarrow> bool \<Rightarrow> (nat \<Rightarrow> u32) \<Rightarrow> World \<Rightarrow> World \<Rightarrow> bool" where
  "run torn direct pid \<equiv> (step torn direct pid)\<^sup>*\<^sup>*"

lemma reachable_run:
  assumes "run torn direct pid W W'" "reachable torn direct pid n W"
  shows "reachable torn direct pid n W'"
  using assms by (induction rule: rtranclp_induct) (auto intro: reachable.more)

lemma run_step: "run torn direct pid W W' \<Longrightarrow> step torn direct pid W' W'' \<Longrightarrow> run torn direct pid W W''"
  by (rule rtranclp.rtrancl_into_rtrancl)

text \<open>An undisturbed scan of the leader over slots that need nothing.\<close>

lemma run_recover:
  assumes "leader W = Some (t, LRecover k)" "k \<le> RING_SLOTS"
    "\<And>i. k \<le> i \<Longrightarrow> i < RING_SLOTS \<Longrightarrow> committed_in (slot W i) = 0 \<or> w_state (header (slot W i)) \<noteq> ST_READY"
  shows "run torn direct pid W (W\<lparr>leader := Some (t, LReclaim 0)\<rparr>)"
  using assms
proof (induction "RING_SLOTS - k" arbitrary: k W)
  case 0
  then have "leader W = Some (t, LRecover RING_SLOTS)" by simp
  from step.recovered [OF this] show ?case by blast
next
  case (Suc m)
  then have k: "k < RING_SLOTS" by simp
  let ?W1 = "W\<lparr>leader := Some (t, LRecHeader k (header (slot W k)))\<rparr>"
  let ?W2 = "W\<lparr>leader := Some (t, LRecover (k + 1))\<rparr>"
  have "step torn direct pid W ?W1" by (rule step.recover_load [OF Suc.prems(1) k])
  moreover have "step torn direct pid ?W1 ?W2"
    using step.recover_stamp [of ?W1 t k "header (slot W k)" torn direct pid] Suc.prems(3) [of k] k by (auto split: if_splits)
  moreover have "run torn direct pid ?W2 (?W2\<lparr>leader := Some (t, LReclaim 0)\<rparr>)"
    using Suc.hyps(2) Suc.prems k by (intro Suc.hyps(1) [of "k + 1"]) auto
  ultimately show ?case by (auto intro: converse_rtranclp_into_rtranclp)
qed

lemma run_reclaim:
  assumes "leader W = Some (t, LReclaim k)" "k \<le> RING_SLOTS"
    "\<And>i. reclaim_slot (\<lambda>p. p \<in> dead W) (slot W i) = slot W i"
  shows "run torn direct pid W (W\<lparr>leader := Some (t, LCollect 0 [])\<rparr>)"
  using assms
proof (induction "RING_SLOTS - k" arbitrary: k W)
  case 0
  then have "leader W = Some (t, LReclaim RING_SLOTS)" by simp
  from step.reclaimed [OF this] show ?case by blast
next
  case (Suc m)
  then have k: "k < RING_SLOTS" by simp
  let ?W2 = "W\<lparr>leader := Some (t, LReclaim (k + 1))\<rparr>"
  have "W\<lparr>slot := (slot W)(k := slot W k), leader := l\<rparr> = W\<lparr>leader := l\<rparr>" for l by simp
  then have "step torn direct pid W ?W2"
    using step.reclaim [OF Suc.prems(1) k, of torn direct pid] Suc.prems(3) [of k] by simp
  moreover have "run torn direct pid ?W2 (?W2\<lparr>leader := Some (t, LCollect 0 [])\<rparr>)"
    using Suc.hyps(2) Suc.prems k by (intro Suc.hyps(1) [of "k + 1"]) auto
  ultimately show ?case by (auto intro: converse_rtranclp_into_rtranclp)
qed

definition drainable :: "Slot \<Rightarrow> bool" where
  "drainable s \<longleftrightarrow> w_state (header s) = ST_READY \<and> committed_in s = 0 \<and> unat (params_len s) \<le> RING_PARAMS_CAP"

lemma run_collect:
  assumes "leader W = Some (t, LCollect k b)" "k \<le> RING_SLOTS"
  shows "run torn direct pid W (let batch = b @ map (\<lambda>i. (i, header (slot W i))) (filter (\<lambda>i. drainable (slot W i)) [k..<RING_SLOTS])
    in W\<lparr>leader := Some (t, LExec batch batch [])\<rparr>)"
  using assms
proof (induction "RING_SLOTS - k" arbitrary: k b W)
  case 0
  then have "leader W = Some (t, LCollect RING_SLOTS b)" by simp
  from step.collected [OF this] 0 show ?case by auto
next
  case (Suc m)
  then have k: "k < RING_SLOTS" by simp
  let ?W1 = "W\<lparr>leader := Some (t, LColHeader k (header (slot W k)) b)\<rparr>"
  let ?b = "if drainable (slot W k) then b @ [(k, header (slot W k))] else b"
  let ?W2 = "W\<lparr>leader := Some (t, LCollect (k + 1) ?b)\<rparr>"
  have "step torn direct pid W ?W1" by (rule step.collect_load [OF Suc.prems(1) k])
  moreover have "step torn direct pid ?W1 ?W2"
    using step.collect_read [of ?W1 t k "header (slot W k)" b torn direct pid]
    by (auto simp: drainable_def not_less split: if_splits)
  moreover have "run torn direct pid ?W2 (let batch = ?b @ map (\<lambda>i. (i, header (slot ?W2 i))) (filter (\<lambda>i. drainable (slot ?W2 i)) [k + 1..<RING_SLOTS])
      in ?W2\<lparr>leader := Some (t, LExec batch batch [])\<rparr>)"
    using Suc.hyps(2) k by (intro Suc.hyps(1)) auto
  ultimately have "run torn direct pid W (let batch = ?b @ map (\<lambda>i. (i, header (slot W i))) (filter (\<lambda>i. drainable (slot W i)) [k + 1..<RING_SLOTS])
      in W\<lparr>leader := Some (t, LExec batch batch [])\<rparr>)"
    by (auto simp: Let_def intro: converse_rtranclp_into_rtranclp)
  then show ?case using k by (cases "drainable (slot W k)") (simp_all add: upt_conv_Cons Let_def)
qed

lemma run_enqueue:
  assumes "owner W t = OIdle" "i < RING_SLOTS" "gen_of W i < 0x3FFFFFFD" "w_state (header (slot W i)) = ST_EMPTY"
  defines "g \<equiv> gen_of W i + 1"
  shows "run torn direct pid W (W\<lparr>slot := (slot W)(i := (init_slot [] [] (slot W i))\<lparr>header := pack (pid t) g ST_READY\<rparr>),
    owner := (owner W)(t := OWaiting i (pack (pid t) g ST_READY))\<rparr>)"
proof -
  let ?s1 = "(slot W i)\<lparr>header := pack (pid t) g ST_RESERVED\<rparr>"
  let ?W1 = "W\<lparr>slot := (slot W)(i := ?s1), owner := (owner W)(t := OReserved i g)\<rparr>"
  let ?W2 = "?W1\<lparr>slot := (slot ?W1)(i := init_slot [] [] (slot ?W1 i)), owner := (owner ?W1)(t := OInited i g)\<rparr>"
  have res: "reserve (pid t) (slot W i) = Some (?s1, g)"
    using assms(4) by (auto simp: reserve_def cas_def w_state_def g_def gen_of_def w_gen_def Let_def split: prod.splits)
  have "step torn direct pid W ?W1" by (rule step.reserve_slot [where pid = pid, OF assms(1-3) res])
  moreover have "step torn direct pid ?W1 ?W2" by (rule step.initialise) (simp_all add: RING_PARAMS_CAP_def)
  moreover have "step torn direct pid ?W2 (?W2\<lparr>slot := (slot ?W2)(i := (slot ?W2 i)\<lparr>header := pack (pid t) g ST_READY\<rparr>),
       owner := (owner ?W2)(t := if True then OWaiting i (pack (pid t) g ST_READY) else OIdle)\<rparr>)"
    by (rule step.publish_slot [where i = i and g = g]) (simp_all add: publish_def cas_def init_slot_def)
  ultimately show ?thesis by (auto simp: init_slot_def intro: converse_rtranclp_into_rtranclp)
qed

lemma run_lead:
  assumes "leader W = None" "owner W t \<noteq> OGone" "txn W \<noteq> -1"
    "\<And>i. committed_in (slot W i) = 0 \<or> w_state (header (slot W i)) \<noteq> ST_READY"
    "\<And>i. reclaim_slot (\<lambda>p. p \<in> dead W) (slot W i) = slot W i"
    "batch = map (\<lambda>i. (i, header (slot W i))) (filter (\<lambda>i. drainable (slot W i)) [0..<RING_SLOTS])"
  shows "run torn direct pid W (W\<lparr>leader := Some (t, LExec batch batch [])\<rparr>)"
proof -
  let ?at = "\<lambda>pc. W\<lparr>leader := Some (t, pc)\<rparr>"
  have "step torn direct pid W (?at (LRecover 0))" by (rule step.lock [OF assms(1-3)])
  moreover have "run torn direct pid (?at (LRecover 0)) ((?at (LRecover 0))\<lparr>leader := Some (t, LReclaim 0)\<rparr>)"
    using assms(4) by (intro run_recover) auto
  moreover have "run torn direct pid (?at (LReclaim 0)) ((?at (LReclaim 0))\<lparr>leader := Some (t, LCollect 0 [])\<rparr>)"
    using assms(5) by (intro run_reclaim) auto
  moreover have "run torn direct pid (?at (LCollect 0 [])) (?at (LExec batch batch []))"
    using run_collect [of "?at (LCollect 0 [])" t 0 "[]" torn direct pid] by (simp add: Let_def assms(6))
  ultimately show ?thesis by (auto intro: converse_rtranclp_into_rtranclp rtranclp_trans)
qed

text \<open>
  The start of the runs below: thread 0 publishes an intent in slot 0; a leader, thread 1 of another
  process, has drained it and is about to execute it.
\<close>

definition pids :: "nat \<Rightarrow> u32" where
  "pids t = of_nat t + 1"

definition first_word :: u64 where
  "first_word = pack 1 1 ST_READY"

definition first_slot :: Slot where
  "first_slot = (init_slot [] [] blank_slot)\<lparr>header := first_word\<rparr>"

definition enqueued :: World where
  "enqueued = (start 7)\<lparr>slot := (\<lambda>_. blank_slot)(0 := first_slot), owner := (\<lambda>_. OIdle)(0 := OWaiting 0 first_word)\<rparr>"

lemma blank_word: "w_state (header blank_slot) = ST_EMPTY" "w_gen (header blank_slot) = 0"
  by (simp_all add: blank_slot_def w_state_def w_gen_def unpack_def ST_EMPTY_def)

lemma first_word_parts: "w_state first_word = ST_READY" "w_gen first_word = 1" "w_pid first_word = 1"
  by (simp_all add: first_word_def w_pack)

lemma first_slot_fields: "header first_slot = first_word" "committed_in first_slot = 0" "result_state first_slot = 0" "params_len first_slot = 0"
  by (simp_all add: first_slot_def init_slot_def)

lemma run_enqueued: "run torn direct pids (start 7) enqueued"
proof -
  have "run torn direct pids (start 7) ((start 7)\<lparr>slot := (slot (start 7))(0 := (init_slot [] [] (slot (start 7) 0))
      \<lparr>header := pack (pids 0) (gen_of (start 7) 0 + 1) ST_READY\<rparr>),
    owner := (owner (start 7))(0 := OWaiting 0 (pack (pids 0) (gen_of (start 7) 0 + 1) ST_READY))\<rparr>)"
    by (rule run_enqueue) (simp_all add: start_def RING_SLOTS_def gen_of_def blank_word)
  then show ?thesis
    by (simp add: start_def enqueued_def first_slot_def first_word_def gen_of_def blank_word pids_def fun_upd_def)
qed

lemma only_first:
  assumes "\<And>i. i \<noteq> 0 \<Longrightarrow> \<not> drainable (f i)" "drainable (f 0)"
  shows "filter (\<lambda>i. drainable (f i)) [0..<RING_SLOTS] = [0]"
proof -
  have "[0..<RING_SLOTS] = 0 # [1..<RING_SLOTS]" by (simp add: upt_conv_Cons RING_SLOTS_def)
  moreover have "filter (\<lambda>i. drainable (f i)) [1..<RING_SLOTS] = []" using assms(1) by (auto simp: filter_empty_conv)
  ultimately show ?thesis using assms(2) by simp
qed

lemma drainable_slots: "drainable first_slot" "\<not> drainable blank_slot"
  by (simp_all add: drainable_def first_slot_fields first_word_parts blank_word)

lemma run_drained: "run torn direct pids (start 7) (enqueued\<lparr>leader := Some (1, LExec [(0, first_word)] [(0, first_word)] [])\<rparr>)"
proof -
  have "run torn direct pids enqueued (enqueued\<lparr>leader := Some (1, LExec [(0, first_word)] [(0, first_word)] [])\<rparr>)"
  proof (rule run_lead)
    show "[(0, first_word)] = map (\<lambda>i. (i, header (slot enqueued i))) (filter (\<lambda>i. drainable (slot enqueued i)) [0..<RING_SLOTS])"
      by (subst only_first) (simp_all add: enqueued_def drainable_slots first_slot_fields)
    show "committed_in (slot enqueued i) = 0 \<or> w_state (header (slot enqueued i)) \<noteq> ST_READY" for i
      by (simp add: enqueued_def first_slot_fields blank_word)
    show "reclaim_slot (\<lambda>p. p \<in> dead enqueued) (slot enqueued i) = slot enqueued i" for i
      by (simp add: enqueued_def start_def reclaim_slot_def Let_def split: prod.splits)
  qed (simp_all add: enqueued_def start_def)
  with run_enqueued show ?thesis by (rule rtranclp_trans)
qed

text \<open>A world in which only slot 0 is in use.\<close>

definition world :: "Slot \<Rightarrow> (nat \<Rightarrow> opc) \<Rightarrow> (nat \<times> lpc) option \<Rightarrow> u64 \<Rightarrow> u32 set
    \<Rightarrow> (nat \<times> u64 \<times> RingResult) list \<Rightarrow> (nat \<times> u64 \<times> RingResult) list \<Rightarrow> World" where
  "world s ow l n d c a = \<lparr>slot = (\<lambda>_. blank_slot)(0 := s), owner = ow, leader = l, txn = n, dead = d, committed = c, acked = a\<rparr>"

lemma world_fields [simp]:
  "slot (world s ow l n d c a) 0 = s" "owner (world s ow l n d c a) = ow" "leader (world s ow l n d c a) = l"
  "txn (world s ow l n d c a) = n" "dead (world s ow l n d c a) = d" "committed (world s ow l n d c a) = c" "acked (world s ow l n d c a) = a"
  "i \<noteq> 0 \<Longrightarrow> slot (world s ow l n d c a) i = blank_slot"
  by (simp_all add: world_def)

lemma world_upd [simp]:
  "(world s ow l n d c a)\<lparr>slot := (slot (world s ow l n d c a))(0 := s')\<rparr> = world s' ow l n d c a"
  "(world s ow l n d c a)\<lparr>owner := ow'\<rparr> = world s ow' l n d c a"
  "(world s ow l n d c a)\<lparr>leader := l'\<rparr> = world s ow l' n d c a"
  "(world s ow l n d c a)\<lparr>txn := n'\<rparr> = world s ow l n' d c a"
  "(world s ow l n d c a)\<lparr>dead := d'\<rparr> = world s ow l n d' c a"
  "(world s ow l n d c a)\<lparr>committed := c'\<rparr> = world s ow l n d c' a"
  "(world s ow l n d c a)\<lparr>acked := a'\<rparr> = world s ow l n d c a'"
  by (simp_all add: world_def)

definition waiting :: "nat \<Rightarrow> opc" where
  "waiting = (\<lambda>_. OIdle)(0 := OWaiting 0 first_word)"

lemma waiting_idle: "waiting(0 := OIdle) = (\<lambda>_. OIdle)"
  by (simp add: waiting_def fun_eq_iff)

definition staged_slot :: Slot where
  "staged_slot = stage_result 1 0 [] 8 first_slot"

definition one_row :: RingResult where
  "one_row = \<lparr>res_affected = 1, res_err_code = 0, res_err_msg = []\<rparr>"

lemma staged_fields: "header staged_slot = first_word" "committed_in staged_slot = 8" "result_state staged_slot = 0"
  "read_result staged_slot = one_row" "read_result (staged_slot\<lparr>result_state := x\<rparr>) = one_row"
  by (simp_all add: staged_slot_def first_slot_fields one_row_def read_result_def stage_result_def)

lemma run_staged:
  "run torn direct pids (start 7) (world staged_slot waiting (Some (1, LExec [(0, first_word)] [] [(0, 1, one_row)])) 7 {} [] [])"
proof -
  let ?W = "world first_slot waiting (Some (1, LExec [(0, first_word)] [(0, first_word)] [])) 7 {} [] []"
  have "enqueued\<lparr>leader := Some (1, LExec [(0, first_word)] [(0, first_word)] [])\<rparr> = ?W"
    by (simp add: enqueued_def start_def world_def waiting_def)
  then have "run torn direct pids (start 7) ?W" using run_drained by metis
  moreover have "step torn direct pids ?W (?W\<lparr>slot := (slot ?W)(0 := staged_slot),
      leader := Some (1, LExec [(0, first_word)] [] ([] @ [(0, w_gen first_word, read_result staged_slot)]))\<rparr>)"
    by (rule step.execute [where aff = 1 and code = 0 and msg = "[]"]) (simp_all add: staged_slot_def)
  ultimately show ?thesis by (auto simp: first_word_parts staged_fields intro: run_step)
qed

lemma run_half_posted:
  "run torn direct pids (start 7)
    (world (staged_slot\<lparr>result_state := 1\<rparr>) waiting (Some (1, LPostCas 0 first_word [])) 8 {} [(0, 1, one_row)] [])"
proof -
  let ?W1 = "world staged_slot waiting (Some (1, LExec [(0, first_word)] [] [(0, 1, one_row)])) 7 {} [] []"
  let ?W2 = "world staged_slot waiting (Some (1, LPost [(0, first_word)])) 8 {} [(0, 1, one_row)] []"
  have "step torn direct pids ?W1 ?W2"
    using step.flip [of ?W1 1 "[(0, first_word)]" "[(0, 1, one_row)]" torn direct pids] by simp
  moreover have "step torn direct pids ?W2 (world (staged_slot\<lparr>result_state := 1\<rparr>) waiting (Some (1, LPostCas 0 first_word [])) 8 {} [(0, 1, one_row)] [])"
    using step.post_store [of ?W2 1 0 first_word "[]" torn direct pids] by simp
  ultimately show ?thesis using run_staged [of torn direct] by (blast intro: run_step)
qed

section \<open>Properties\<close>


definition taken :: "nat \<Rightarrow> opc" where
  "taken = waiting(0 := OTaken 0 first_word)"

lemma run_taken:
  "run torn direct pids (start 7)
    (world (staged_slot\<lparr>result_state := 1\<rparr>) taken (Some (1, LPostCas 0 first_word [])) 8 {} [(0, 1, one_row)] [(0, 1, one_row)])"
proof -
  let ?W = "world (staged_slot\<lparr>result_state := 1\<rparr>) waiting (Some (1, LPostCas 0 first_word [])) 8 {} [(0, 1, one_row)] []"
  have "step torn direct pids ?W (?W\<lparr>owner := (owner ?W)(0 := OTaken 0 first_word), acked := (0, w_gen first_word, one_row) # acked ?W\<rparr>)"
    by (rule step.take_result) (simp_all add: waiting_def try_take_result_def staged_fields)
  with run_half_posted [of torn direct] show ?thesis by (auto simp: taken_def first_word_parts intro: run_step)
qed


text \<open>
  A released slot can leak. The owner of an intent may pick up its result between the two steps of
  the post; it then tries to release the slot from done while it is still ready, the leader moves it
  to done, and the owner's second attempt, from ready, fails as well: the slot stays done, nobody
  holds it, and its process is alive, so that it is never reclaimed.
\<close>

theorem release_can_leak_slot:
  "\<exists>W. reachable False False pids 7 W \<and> state_of W 0 = ST_DONE \<and> w_pid (header (slot W 0)) = pids 0 \<and> pids 0 \<notin> dead W
    \<and> leader W = None \<and> (\<forall>t. owner W t = OIdle)"
proof -
  let ?c = "[(0, 1, one_row)]"
  let ?s = "staged_slot\<lparr>result_state := 1\<rparr>" and ?d = "staged_slot\<lparr>result_state := 1, header := done_word first_word\<rparr>"
  let ?W1 = "world ?s taken (Some (1, LPostCas 0 first_word [])) 8 {} ?c ?c"
  let ?rel = "waiting(0 := OReleasing 0 first_word)"
  let ?W2 = "world ?s ?rel (Some (1, LPostCas 0 first_word [])) 8 {} ?c ?c"
  let ?W3 = "world ?d ?rel (Some (1, LPost [])) 8 {} ?c ?c"
  let ?W4 = "world ?d (\<lambda>_. OIdle) (Some (1, LPost [])) 8 {} ?c ?c"
  let ?W5 = "world ?d (\<lambda>_. OIdle) None 8 {} ?c ?c"
  have ne: "pack (w_pid first_word) (w_gen first_word) ST_DONE \<noteq> first_word" "done_word first_word \<noteq> pack (w_pid first_word) (w_gen first_word) ST_READY"
    by (simp_all add: word_eq_parts [of _ first_word] word_eq_parts [of "done_word first_word"] w_pack first_word_parts done_word_parts)
  have s1: "step False False pids ?W1 ?W2"
    using step.release_first [of ?W1 0 0 first_word ?s False False False pids] ne
    by (simp add: taken_def release_from_def cas_def staged_fields)
  have s2: "step False False pids ?W2 ?W3"
    using step.post_cas [of ?W2 1 0 first_word "[]" False False pids] by (simp add: cas_def staged_fields)
  have s3: "step False False pids ?W3 ?W4"
    using step.release_second [of ?W3 0 0 first_word ?d False False False pids] ne
    by (simp add: release_from_def cas_def waiting_idle)
  have s4: "step False False pids ?W4 ?W5"
    using step.unlock [of ?W4 1 False False pids] by simp
  note r = run_step [OF run_step [OF run_step [OF run_step [OF run_taken s1] s2] s3] s4]
  have "reachable False False pids 7 ?W5" by (rule reachable_run [OF r reachable.initial])
  then show ?thesis by (intro exI [of _ ?W5]) (simp add: state_of_def done_word_parts first_word_parts pids_def)
qed

text \<open>After the death of the first leader's process: the next leader, thread 2, has decided to post slot 0.\<close>

definition survivors :: "nat \<Rightarrow> opc" where
  "survivors = (\<lambda>t. if pids t = 2 then OGone else waiting t)"

lemma survivors_0: "survivors 0 = OWaiting 0 first_word" "survivors 2 = OIdle" "survivors 3 = OIdle"
  by (simp_all add: survivors_def pids_def waiting_def)

lemma run_recover_first:
  assumes "committed_in s = 8" "header s = first_word"
  shows "run torn direct pids (world s survivors None 8 {2} c []) (world s survivors (Some (2, LRecPost 0 first_word)) 8 {2} c [])"
proof -
  let ?W = "\<lambda>l. world s survivors l 8 {2} c []"
  have "step torn direct pids (?W None) (?W (Some (2, LRecover 0)))"
    using step.lock [of "?W None" 2 torn direct pids] by (simp add: survivors_0)
  moreover have "step torn direct pids (?W (Some (2, LRecover 0))) (?W (Some (2, LRecHeader 0 first_word)))"
    using step.recover_load [of "?W (Some (2, LRecover 0))" 2 0 torn direct pids] assms by (simp add: RING_SLOTS_def)
  moreover have "step torn direct pids (?W (Some (2, LRecHeader 0 first_word))) (?W (Some (2, LRecPost 0 first_word)))"
    using step.recover_stamp [of "?W (Some (2, LRecHeader 0 first_word))" 2 0 first_word torn direct pids] assms
    by (simp add: first_word_parts)
  ultimately show ?thesis by (auto intro: converse_rtranclp_into_rtranclp)
qed

lemma crash_leader:
  assumes "mid_post pc \<Longrightarrow> torn"
  shows "step torn direct pids (world s waiting (Some (1, pc)) n {} c a) (world s survivors None n {2} c a)"
proof -
  let ?W = "world s waiting (Some (1, pc)) n {} c a"
  have "step torn direct pids ?W (?W\<lparr>owner := (\<lambda>t. if pids t = 2 then OGone else owner ?W t), dead := insert 2 (dead ?W),
       leader := (case leader ?W of Some (t, pc) \<Rightarrow> if pids t = 2 then None else Some (t, pc) | None \<Rightarrow> None)\<rparr>)"
    by (rule step.crash) (use assms in auto)
  then show ?thesis by (simp add: survivors_def pids_def cong: if_cong)
qed

text \<open>
  C38: a commit outside the leader's round acknowledges an intent that was never executed. A leader
  stages an intent for transaction 8 and dies before the flip; another writer takes the lock and
  commits transaction 8 without looking at the ring; the next leader takes the stamp for a committed
  one and posts the staged success, though the database holds no execution of the intent.
\<close>

theorem direct_commit_acknowledges_unexecuted:
  "\<exists>W. reachable False True pids 7 W \<and> acked W = [(0, 1, one_row)] \<and> committed W = []"
proof -
  let ?pc = "LExec [(0, first_word)] [] [(0, 1, one_row)]"
  let ?W = "\<lambda>s ow l n a. world s ow l n {2} [] a" and ?p = "staged_slot\<lparr>result_state := 1\<rparr>"
  have s1: "step False True pids (world staged_slot waiting (Some (1, ?pc)) 7 {} [] []) (?W staged_slot survivors None 7 [])"
    by (rule crash_leader) (simp add: mid_post_def)
  have s2: "step False True pids (?W staged_slot survivors None 7 []) (?W staged_slot survivors None 8 [])"
    using step.direct_commit [of "?W staged_slot survivors None 7 []" True False pids] by simp
  have s3: "run False True pids (?W staged_slot survivors None 8 []) (?W staged_slot survivors (Some (2, LRecPost 0 first_word)) 8 [])"
    by (rule run_recover_first) (simp_all add: staged_fields)
  have s4: "step False True pids (?W staged_slot survivors (Some (2, LRecPost 0 first_word)) 8 []) (?W ?p survivors (Some (2, LRecCas 0 first_word)) 8 [])"
    using step.recover_post [of "?W staged_slot survivors (Some (2, LRecPost 0 first_word)) 8 []" 2 0 first_word False True pids] by simp
  have s5: "step False True pids (?W ?p survivors (Some (2, LRecCas 0 first_word)) 8 [])
      (?W ?p (survivors(0 := OTaken 0 first_word)) (Some (2, LRecCas 0 first_word)) 8 [(0, 1, one_row)])"
    using step.take_result [of "?W ?p survivors (Some (2, LRecCas 0 first_word)) 8 []" 0 0 first_word one_row False True pids]
    by (simp add: survivors_0 try_take_result_def staged_fields first_word_parts)
  note r = run_step [OF run_step [OF rtranclp_trans [OF run_step [OF run_step [OF run_staged s1] s2] s3] s4] s5]
  show ?thesis
    using reachable_run [OF r reachable.initial]
    by (intro exI [of _ "?W ?p (survivors(0 := OTaken 0 first_word)) (Some (2, LRecCas 0 first_word)) 8 [(0, 1, one_row)]"]) simp
qed

text \<open>
  C39: a leader that dies in the middle of a post poisons a later intent. The next leader decides to
  post the slot again; before it does, the owner, who already has the result, releases the slot, and
  another thread enqueues there; the late post then tells that thread that its statement succeeded
  with no rows, though it was never executed.
\<close>

theorem torn_post_poisons_next_intent:
  "\<exists>W r. reachable True False pids 7 W \<and> (0, 3, r) \<in> set (acked W) \<and> res_err_code r = 0 \<and> (\<forall>r'. (0, 3, r') \<notin> set (committed W))"
proof -
  let ?c = "[(0, 1, one_row)]" and ?p = "staged_slot\<lparr>result_state := 1\<rparr>" and ?l = "Some (2, LRecPost 0 first_word)"
  let ?e = "staged_slot\<lparr>result_state := 1, header := empty_word first_word\<rparr>"
  let ?w3 = "pack 4 3 ST_READY"
  let ?n = "(init_slot [] [] ?e)\<lparr>header := ?w3\<rparr>"
  let ?W = "\<lambda>s ow l a. world s ow l 8 {2} ?c a"
  have ew: "w_state (empty_word first_word) = ST_EMPTY" "w_gen (empty_word first_word) = 2"
    by (simp_all add: empty_word_def w_pack first_word_parts)
  have ne: "pack (w_pid first_word) (w_gen first_word) ST_DONE \<noteq> first_word" "pack (w_pid first_word) (w_gen first_word) ST_READY = first_word"
    by (simp_all add: word_eq_parts [of _ first_word] w_pack first_word_parts)
  have s1: "step True False pids (world ?p waiting (Some (1, LPostCas 0 first_word [])) 8 {} ?c []) (?W ?p survivors None [])"
    by (rule crash_leader) simp
  have s2: "run True False pids (?W ?p survivors None []) (?W ?p survivors ?l [])"
    by (rule run_recover_first) (simp_all add: staged_fields)
  have s3: "step True False pids (?W ?p survivors ?l []) (?W ?p (survivors(0 := OTaken 0 first_word)) ?l ?c)"
    using step.take_result [of "?W ?p survivors ?l []" 0 0 first_word one_row True False pids]
    by (simp add: survivors_0 try_take_result_def staged_fields first_word_parts)
  have s4: "step True False pids (?W ?p (survivors(0 := OTaken 0 first_word)) ?l ?c) (?W ?p (survivors(0 := OReleasing 0 first_word)) ?l ?c)"
    using step.release_first [of "?W ?p (survivors(0 := OTaken 0 first_word)) ?l ?c" 0 0 first_word ?p False True False pids] ne
    by (simp add: release_from_def cas_def staged_fields)
  have s5: "step True False pids (?W ?p (survivors(0 := OReleasing 0 first_word)) ?l ?c) (?W ?e (survivors(0 := OIdle)) ?l ?c)"
    using step.release_second [of "?W ?p (survivors(0 := OReleasing 0 first_word)) ?l ?c" 0 0 first_word ?e True True False pids] ne
    by (simp add: release_from_def cas_def staged_fields)
  have s6: "run True False pids (?W ?e (survivors(0 := OIdle)) ?l ?c) (?W ?n (survivors(0 := OIdle, 3 := OWaiting 0 ?w3)) ?l ?c)"
    using run_enqueue [of "?W ?e (survivors(0 := OIdle)) ?l ?c" 3 0 True False pids]
    by (simp add: survivors_0 ew gen_of_def RING_SLOTS_def pids_def)
  have s7: "step True False pids (?W ?n (survivors(0 := OIdle, 3 := OWaiting 0 ?w3)) ?l ?c)
      (?W (?n\<lparr>result_state := 1\<rparr>) (survivors(0 := OIdle, 3 := OWaiting 0 ?w3)) (Some (2, LRecCas 0 first_word)) ?c)"
    using step.recover_post [of "?W ?n (survivors(0 := OIdle, 3 := OWaiting 0 ?w3)) ?l ?c" 2 0 first_word True False pids] by simp
  have s8: "step True False pids
      (?W (?n\<lparr>result_state := 1\<rparr>) (survivors(0 := OIdle, 3 := OWaiting 0 ?w3)) (Some (2, LRecCas 0 first_word)) ?c)
      (?W (?n\<lparr>result_state := 1\<rparr>) (survivors(0 := OIdle, 3 := OTaken 0 ?w3)) (Some (2, LRecCas 0 first_word))
        ((0, 3, read_result (?n\<lparr>result_state := 1\<rparr>)) # ?c))"
    using step.take_result [of "?W (?n\<lparr>result_state := 1\<rparr>) (survivors(0 := OIdle, 3 := OWaiting 0 ?w3)) (Some (2, LRecCas 0 first_word)) ?c"
        3 0 ?w3 "read_result (?n\<lparr>result_state := 1\<rparr>)" True False pids]
    by (simp add: try_take_result_def w_pack)
  let ?F = "?W (?n\<lparr>result_state := 1\<rparr>) (survivors(0 := OIdle, 3 := OTaken 0 ?w3)) (Some (2, LRecCas 0 first_word))
        ((0, 3, read_result (?n\<lparr>result_state := 1\<rparr>)) # ?c)"
  note r = run_step [OF run_step [OF rtranclp_trans [OF run_step [OF run_step [OF run_step [OF rtranclp_trans [OF run_step [OF run_half_posted s1] s2] s3] s4] s5] s6] s7] s8]
  have "reachable True False pids 7 ?F" by (rule reachable_run [OF r reachable.initial])
  moreover have "(0, 3, read_result (?n\<lparr>result_state := 1\<rparr>)) \<in> set (acked ?F)" "res_err_code (read_result (?n\<lparr>result_state := 1\<rparr>)) = 0"
    "(0, 3, r') \<notin> set (committed ?F)" for r'
    by (simp_all add: read_result_def init_slot_def)
  ultimately show ?thesis by blast
qed

end
