(* ===== verification/Node_Page.thy ===== *)
theory Node_Page
  imports Mpedb_Prelude
begin

text \<open>
  The pages of the B+tree (\<open>mpedb-core/src/btree.rs\<close>, first part): header fields, the slot array, leaf
  and branch cells, free space, compaction, insertion and removal of cells, binary search, and the
  span of a page that nothing reads. A page is its list of 4096 bytes; a node is a page that holds a
  list of cells, and the operations are shown to work on that list.
\<close>

section \<open>Header\<close>

definition PAGE_SIZE :: nat where "PAGE_SIZE = 4096"
definition HDR :: nat where "HDR = 16"
definition KIND_BRANCH :: byte where "KIND_BRANCH = 1"
definition KIND_LEAF :: byte where "KIND_LEAF = 2"
definition KIND_OVERFLOW :: byte where "KIND_OVERFLOW = 3"
definition MAX_KEY :: nat where "MAX_KEY = 976"
definition MAX_INLINE_VAL :: nat where "MAX_INLINE_VAL = 1024"
definition OVERFLOW_CAP :: nat where "OVERFLOW_CAP = PAGE_SIZE - HDR"
definition EXTENT_REF_LEN :: nat where "EXTENT_REF_LEN = 8 + 8 + 4"
definition EXTERNAL_REF_LEN :: nat where "EXTERNAL_REF_LEN = 16 + 8"

text \<open>Two little-endian bytes at an offset, read and written.\<close>

definition u16_at :: "bytes \<Rightarrow> nat \<Rightarrow> nat" where
  "u16_at p off = unat (from_le_bytes (take 2 (drop off p)) :: u16)"

definition set_u16 :: "bytes \<Rightarrow> nat \<Rightarrow> nat \<Rightarrow> bytes" where
  "set_u16 p off v = put_at p off (to_le_bytes (of_nat v :: u16))"

definition kind :: "bytes \<Rightarrow> byte" where
  "kind p = p ! 0"

definition nkeys :: "bytes \<Rightarrow> nat" where
  "nkeys p = u16_at p 2"

definition set_nkeys :: "bytes \<Rightarrow> nat \<Rightarrow> bytes" where
  "set_nkeys p n = set_u16 p 2 n"

definition cell_start :: "bytes \<Rightarrow> nat" where
  "cell_start p = u16_at p 4"

definition set_cell_start :: "bytes \<Rightarrow> nat \<Rightarrow> bytes" where
  "set_cell_start p v = set_u16 p 4 v"

definition extra :: "bytes \<Rightarrow> u64" where
  "extra p = from_le_bytes (take 8 (drop 8 p))"

definition set_extra :: "bytes \<Rightarrow> u64 \<Rightarrow> bytes" where
  "set_extra p v = put_at p 8 (to_le_bytes v)"

definition slot :: "bytes \<Rightarrow> nat \<Rightarrow> nat" where
  "slot p i = u16_at p (HDR + i * 2)"

definition set_slot :: "bytes \<Rightarrow> nat \<Rightarrow> nat \<Rightarrow> bytes" where
  "set_slot p i v = set_u16 p (HDR + i * 2) v"

definition init_node :: "bytes \<Rightarrow> byte \<Rightarrow> bytes" where
  "init_node p k = set_cell_start ((put_at p 0 (replicate HDR 0))[0 := k]) PAGE_SIZE"

definition check_node :: "bytes \<Rightarrow> unit result" where
  "check_node p =
    (if kind p = KIND_LEAF \<or> kind p = KIND_BRANCH then
       let n = nkeys p; cs = cell_start p
       in if n > (PAGE_SIZE - HDR) div 2 \<or> \<not> (HDR \<le> cs \<and> cs \<le> PAGE_SIZE) \<or> HDR + n * 2 > cs then Err Corrupt else Ok ()
     else if kind p = KIND_OVERFLOW then Ok ()
     else Err Corrupt)"

section \<open>Cells\<close>

datatype LeafVal =
    Inline bytes
  | Overflow u32 u64
  | Extent u64 u64 u32
  | External "128 word" u64

definition cell_bytes :: "bytes \<Rightarrow> nat \<Rightarrow> bytes result" where
  "cell_bytes p i = (let off = slot p i in if HDR \<le> off \<and> off < PAGE_SIZE then Ok (drop off p) else Err Corrupt)"

text \<open>The value part of a leaf cell, by its kind byte.\<close>

definition leaf_val :: "byte \<Rightarrow> bytes \<Rightarrow> LeafVal result" where
  "leaf_val vkind rest =
    (if vkind = 0 then
       if length rest < 2 then Err Corrupt
       else let vlen = u16_at rest 0 in rbind (ok_or Corrupt (get_range rest 2 (2 + vlen))) (\<lambda>v. Ok (Inline v))
     else if vkind = 1 then
       if length rest < 12 then Err Corrupt
       else Ok (Overflow (from_le_bytes (take 4 rest)) (from_le_bytes (take 8 (drop 4 rest))))
     else if vkind = 4 then
       if length rest < EXTERNAL_REF_LEN then Err Corrupt
       else let h = from_le_bytes (take 16 rest); total_len = from_le_bytes (take 8 (drop 16 rest))
            in if total_len = 0 then Err Corrupt else Ok (External h total_len)
     else if vkind = 2 then
       if length rest < EXTENT_REF_LEN then Err Corrupt
       else let start_page = from_le_bytes (take 8 rest); total_len = from_le_bytes (take 8 (drop 8 rest));
                npages = from_le_bytes (take 4 (drop 16 rest))
            in if unat total_len + (PAGE_SIZE - 1) \<ge> 2 ^ 64 then Err Corrupt
               else if unat (npages :: u32) \<noteq> (unat total_len + (PAGE_SIZE - 1)) div PAGE_SIZE \<or> npages = 0 then Err Corrupt
               else if unat start_page + unat npages \<ge> 2 ^ 64 then Err Corrupt
               else Ok (Extent start_page total_len npages)
     else Err Corrupt)"

definition leaf_cell_at :: "bytes \<Rightarrow> (bytes \<times> LeafVal) result" where
  "leaf_cell_at c =
    (if length c < 3 then Err Corrupt
     else let klen = u16_at c 0; vkind = c ! 2
          in rbind (ok_or Corrupt (get_range c 3 (3 + klen))) (\<lambda>key.
             rbind (leaf_val vkind (drop (3 + klen) c)) (\<lambda>v. Ok (key, v))))"

definition leaf_cell :: "bytes \<Rightarrow> nat \<Rightarrow> (bytes \<times> LeafVal) result" where
  "leaf_cell p i = rbind (cell_bytes p i) leaf_cell_at"

definition val_len :: "LeafVal \<Rightarrow> nat" where
  "val_len v = (case v of Inline b \<Rightarrow> 2 + length b | Overflow _ _ \<Rightarrow> 12 | Extent _ _ _ \<Rightarrow> EXTENT_REF_LEN | External _ _ \<Rightarrow> EXTERNAL_REF_LEN)"

definition leaf_cell_len :: "bytes \<Rightarrow> nat \<Rightarrow> nat result" where
  "leaf_cell_len p i = rbind (leaf_cell p i) (\<lambda>(key, v). Ok (3 + length key + val_len v))"

definition branch_cell_at :: "bytes \<Rightarrow> (bytes \<times> u64) result" where
  "branch_cell_at c =
    (if length c < 2 then Err Corrupt
     else let klen = u16_at c 0
          in rbind (ok_or Corrupt (get_range c 2 (2 + klen))) (\<lambda>key.
             rbind (ok_or Corrupt (get_range c (2 + klen) (2 + klen + 8))) (\<lambda>raw. Ok (key, from_le_bytes raw))))"

definition branch_cell :: "bytes \<Rightarrow> nat \<Rightarrow> (bytes \<times> u64) result" where
  "branch_cell p i = rbind (cell_bytes p i) branch_cell_at"

definition branch_cell_len :: "bytes \<Rightarrow> nat \<Rightarrow> nat result" where
  "branch_cell_len p i = rbind (branch_cell p i) (\<lambda>(key, _). Ok (2 + length key + 8))"

definition branch_child :: "bytes \<Rightarrow> nat \<Rightarrow> u64 result" where
  "branch_child p i = (if i = 0 then Ok (extra p) else rbind (branch_cell p (i - 1)) (\<lambda>(_, c). Ok c))"

definition set_branch_child :: "bytes \<Rightarrow> nat \<Rightarrow> u64 \<Rightarrow> bytes result" where
  "set_branch_child p i child =
    (if i = 0 then Ok (set_extra p child)
     else let off = slot p (i - 1)
          in if off + 1 \<ge> length p then Err Panic
             else let klen = u16_at p off; coff = off + 2 + klen
                  in if coff + 8 > PAGE_SIZE then Err Corrupt else Ok (put_at p coff (to_le_bytes child)))"

section \<open>Free space\<close>

definition free_space :: "bytes \<Rightarrow> nat" where
  "free_space p = cell_start p - (HDR + nkeys p * 2)"

definition cell_len :: "bytes \<Rightarrow> nat \<Rightarrow> nat result" where
  "cell_len p i = (if kind p = KIND_LEAF then leaf_cell_len p i else branch_cell_len p i)"

fun sum_cells :: "bytes \<Rightarrow> nat list \<Rightarrow> nat result" where
  "sum_cells p [] = Ok 0"
| "sum_cells p (i # is) = rbind (cell_len p i) (\<lambda>n. rbind (sum_cells p is) (\<lambda>m. Ok (n + m)))"

definition used_cell_bytes :: "bytes \<Rightarrow> nat result" where
  "used_cell_bytes p = sum_cells p [0..<nkeys p]"

fun copy_cells :: "bytes \<Rightarrow> nat list \<Rightarrow> bytes list result" where
  "copy_cells p [] = Ok []"
| "copy_cells p (i # is) =
    rbind (cell_len p i) (\<lambda>n. rbind (copy_cells p is) (\<lambda>cs. Ok (take n (drop (slot p i) p) # cs)))"

definition all_cells :: "bytes \<Rightarrow> bytes list result" where
  "all_cells p = copy_cells p [0..<nkeys p]"

text \<open>The second loop of \<open>compact\<close>: the cells from the page end downwards.\<close>

fun repack :: "bytes \<Rightarrow> nat \<Rightarrow> nat \<Rightarrow> bytes list \<Rightarrow> (bytes \<times> nat) result" where
  "repack p pos i [] = Ok (p, pos)"
| "repack p pos i (c # cs) =
    (if length c > pos then Err Panic
     else let pos = pos - length c in repack (set_slot (put_at p pos c) i pos) pos (i + 1) cs)"

definition compact :: "bytes \<Rightarrow> bytes result" where
  "compact p = rbind (all_cells p) (\<lambda>cells.
     rbind (repack p PAGE_SIZE 0 cells) (\<lambda>(p, pos). Ok (set_cell_start p pos)))"

definition insert_cell :: "bytes \<Rightarrow> nat \<Rightarrow> bytes \<Rightarrow> bytes result" where
  "insert_cell p i cell =
    rbind (if free_space p < length cell + 2 then
             rbind (compact p) (\<lambda>p. if free_space p < length cell + 2 then Err Internal else Ok p)
           else Ok p)
      (\<lambda>p. let n = nkeys p; pos = cell_start p - length cell;
               p = set_cell_start (put_at p pos cell) pos;
               p = foldl (\<lambda>p j. set_slot p (j + 1) (slot p j)) p (rev [i..<n])
           in Ok (set_nkeys (set_slot p i pos) (n + 1)))"

definition remove_cell :: "bytes \<Rightarrow> nat \<Rightarrow> bytes" where
  "remove_cell p i =
    (let n = nkeys p in set_nkeys (foldl (\<lambda>p j. set_slot p (j - 1) (slot p j)) p [i + 1..<n]) (n - 1))"

definition fits :: "bytes \<Rightarrow> nat \<Rightarrow> bool result" where
  "fits p n =
    (if free_space p \<ge> n + 2 then Ok True
     else rbind (used_cell_bytes p) (\<lambda>used. Ok (PAGE_SIZE - (HDR + (nkeys p + 1) * 2 + used) \<ge> n)))"

definition used_span :: "bytes \<Rightarrow> nat \<times> nat" where
  "used_span p =
    (if length p \<noteq> PAGE_SIZE then (PAGE_SIZE, PAGE_SIZE)
     else if (kind p = KIND_LEAF \<or> kind p = KIND_BRANCH) \<and> check_node p = Ok () then (HDR + nkeys p * 2, cell_start p)
     else if kind p = KIND_OVERFLOW then (min (HDR + u16_at p 6) PAGE_SIZE, PAGE_SIZE)
     else (PAGE_SIZE, PAGE_SIZE))"

section \<open>Search\<close>

definition key_at :: "bytes \<Rightarrow> nat \<Rightarrow> bytes result" where
  "key_at p i = (if kind p = KIND_LEAF then rbind (leaf_cell p i) (\<lambda>(k, _). Ok k) else rbind (branch_cell p i) (\<lambda>(k, _). Ok k))"

text \<open>The inner result of the source's search: an exact match, or the first slot past the key.\<close>

datatype found = At nat | Before nat

function search_loop :: "bytes \<Rightarrow> bytes \<Rightarrow> nat \<Rightarrow> nat \<Rightarrow> found result" where
  "search_loop p key lo hi =
    (if lo < hi then
       let mid = (lo + hi) div 2
       in rbind (key_at p mid) (\<lambda>k.
            if k < key then search_loop p key (mid + 1) hi
            else if k > key then search_loop p key lo mid
            else Ok (At mid))
     else Ok (Before lo))"
  by pat_completeness auto
termination by (relation "measure (\<lambda>(p, key, lo, hi). hi - lo)") auto

declare search_loop.simps [simp del]

definition search :: "bytes \<Rightarrow> bytes \<Rightarrow> found result" where
  "search p key = search_loop p key 0 (nkeys p)"

definition descent_index :: "bytes \<Rightarrow> bytes \<Rightarrow> nat result" where
  "descent_index p key = rbind (search p key) (\<lambda>r. Ok (case r of At i \<Rightarrow> i + 1 | Before i \<Rightarrow> i))"

section \<open>Payloads and new cells\<close>

text \<open>
  A streamed payload is its head and the bytes its source delivers.
\<close>

datatype Payload =
    Flat bytes
  | Parts "bytes list"
  | Stream bytes bytes
  | ExtentRef u64 u64 u32
  | ExternalRef "128 word" u64

definition payload_len :: "Payload \<Rightarrow> nat" where
  "payload_len v = (case v of
     Flat b \<Rightarrow> length b
   | Parts ps \<Rightarrow> sum_list (map length ps)
   | Stream head src \<Rightarrow> length head + length src
   | ExtentRef _ _ _ \<Rightarrow> EXTENT_REF_LEN
   | ExternalRef _ _ \<Rightarrow> EXTERNAL_REF_LEN)"

definition pieces :: "Payload \<Rightarrow> bytes list" where
  "pieces v = (case v of Flat b \<Rightarrow> [b] | Parts ps \<Rightarrow> ps | _ \<Rightarrow> [])"

definition make_leaf_cell :: "bytes \<Rightarrow> Payload \<Rightarrow> u64 \<Rightarrow> bytes" where
  "make_leaf_cell key v overflow_page =
    to_le_bytes (of_nat (length key) :: u16) @
    (case v of
       ExtentRef start_page total_len npages \<Rightarrow>
         [2] @ key @ to_le_bytes start_page @ to_le_bytes total_len @ to_le_bytes npages
     | ExternalRef h total_len \<Rightarrow> [4] @ key @ to_le_bytes h @ to_le_bytes total_len
     | _ \<Rightarrow>
         if overflow_page = 0 then [0] @ key @ to_le_bytes (of_nat (payload_len v) :: u16) @ concat (pieces v)
         else [1] @ key @ to_le_bytes (of_nat (payload_len v) :: u32) @ to_le_bytes overflow_page)"

definition make_branch_cell :: "bytes \<Rightarrow> u64 \<Rightarrow> bytes" where
  "make_branch_cell key child = to_le_bytes (of_nat (length key) :: u16) @ key @ to_le_bytes child"

section \<open>Lemmas: fields\<close>

lemmas sizes = PAGE_SIZE_def HDR_def

lemma sub_put_other:
  assumes "off + n \<le> a \<or> a + length xs \<le> off" "a + length xs \<le> length p"
  shows "take n (drop off (put_at p a xs)) = take n (drop off p)"
  using assms by (intro nth_equalityI) (auto simp: nth_put_at)

lemma sub_put_inside:
  assumes "a + length xs \<le> length p" "off + n \<le> length xs"
  shows "take n (drop (a + off) (put_at p a xs)) = take n (drop off xs)"
  using assms by (intro nth_equalityI) (auto simp: nth_put_at)

lemma length_set_u16 [simp]: "off + 2 \<le> length p \<Longrightarrow> length (set_u16 p off v) = length p"
  by (simp add: set_u16_def)

lemma u16_at_set [simp]:
  assumes "off + 2 \<le> length p" "v < 65536"
  shows "u16_at (set_u16 p off v) off = v"
proof -
  have "take 2 (drop off (set_u16 p off v)) = to_le_bytes (of_nat v :: u16)"
    using assms(1) take_drop_put_at [of off "to_le_bytes (of_nat v :: u16)" p] by (simp add: set_u16_def)
  then show ?thesis using assms(2) by (simp add: u16_at_def unat_of_nat)
qed

lemma u16_at_put_other:
  assumes "off + 2 \<le> a \<or> a + length xs \<le> off" "a + length xs \<le> length p"
  shows "u16_at (put_at p a xs) off = u16_at p off"
  using sub_put_other [OF assms] by (simp add: u16_at_def)

lemma u16_at_set_other:
  assumes "off + 2 \<le> a \<or> a + 2 \<le> off" "a + 2 \<le> length p"
  shows "u16_at (set_u16 p a v) off = u16_at p off"
  using assms by (simp add: set_u16_def u16_at_put_other)

lemma sub_set_u16_other:
  assumes "off + n \<le> a \<or> a + 2 \<le> off" "a + 2 \<le> length p"
  shows "take n (drop off (set_u16 p a v)) = take n (drop off p)"
  using assms by (simp add: set_u16_def sub_put_other)

lemma kind_set_u16: "0 < a \<Longrightarrow> a + 2 \<le> length p \<Longrightarrow> set_u16 p a v ! 0 = p ! 0"
  by (simp add: set_u16_def put_at_def nth_append)

text \<open>What a page keeps under the writes to its fields.\<close>

lemma set_field_simps [simp]:
  assumes "length p = PAGE_SIZE"
  shows "length (set_nkeys p n) = PAGE_SIZE" "length (set_cell_start p v) = PAGE_SIZE" "length (set_extra p x) = PAGE_SIZE"
    "n < 65536 \<Longrightarrow> nkeys (set_nkeys p n) = n" "v < 65536 \<Longrightarrow> cell_start (set_cell_start p v) = v" "extra (set_extra p x) = x"
    "nkeys (set_cell_start p v) = nkeys p" "nkeys (set_extra p x) = nkeys p" "cell_start (set_nkeys p n) = cell_start p"
    "cell_start (set_extra p x) = cell_start p" "extra (set_nkeys p n) = extra p" "extra (set_cell_start p v) = extra p"
    "kind (set_nkeys p n) = kind p" "kind (set_cell_start p v) = kind p" "kind (set_extra p x) = kind p"
    "slot (set_nkeys p n) i = slot p i" "slot (set_cell_start p v) i = slot p i" "slot (set_extra p x) i = slot p i"
proof -
  have "take 8 (drop 8 (set_extra p x)) = to_le_bytes x"
    using assms take_drop_put_at [of 8 "to_le_bytes x" p] by (simp add: set_extra_def sizes)
  then show "extra (set_extra p x) = x" by (simp add: extra_def)
qed (use assms in \<open>simp_all add: set_nkeys_def set_cell_start_def set_extra_def nkeys_def cell_start_def extra_def kind_def
      slot_def sizes u16_at_set_other u16_at_put_other sub_set_u16_other kind_set_u16 nth_put_at\<close>)

lemma set_slot_simps [simp]:
  assumes "length p = PAGE_SIZE" "HDR + i * 2 + 2 \<le> PAGE_SIZE"
  shows "length (set_slot p i v) = PAGE_SIZE" "nkeys (set_slot p i v) = nkeys p" "cell_start (set_slot p i v) = cell_start p"
    "extra (set_slot p i v) = extra p" "kind (set_slot p i v) = kind p"
    "v < 65536 \<Longrightarrow> slot (set_slot p i v) j = (if j = i then v else slot p j)"
proof -
  have "slot (set_slot p i v) j = slot p j" if "j \<noteq> i"
  proof -
    have "HDR + j * 2 + 2 \<le> HDR + i * 2 \<or> HDR + i * 2 + 2 \<le> HDR + j * 2" using that by linarith
    then show ?thesis using assms by (simp add: slot_def set_slot_def u16_at_set_other)
  qed
  moreover have "v < 65536 \<Longrightarrow> slot (set_slot p i v) i = v"
    using assms by (simp add: slot_def set_slot_def)
  ultimately show "v < 65536 \<Longrightarrow> slot (set_slot p i v) j = (if j = i then v else slot p j)" by simp
qed (use assms in \<open>simp_all add: set_slot_def nkeys_def cell_start_def extra_def kind_def sizes
      u16_at_set_other sub_set_u16_other kind_set_u16\<close>)

lemma put_cell_simps [simp]:
  assumes "length p = PAGE_SIZE" "HDR \<le> a" "a + length c \<le> PAGE_SIZE"
  shows "length (put_at p a c) = PAGE_SIZE" "nkeys (put_at p a c) = nkeys p" "cell_start (put_at p a c) = cell_start p"
    "extra (put_at p a c) = extra p" "kind (put_at p a c) = kind p" "HDR + j * 2 + 2 \<le> a \<Longrightarrow> slot (put_at p a c) j = slot p j"
  using assms by (simp_all add: nkeys_def cell_start_def extra_def kind_def slot_def sizes u16_at_put_other sub_put_other nth_put_at)

section \<open>Lemmas: cells\<close>

text \<open>The images of the cells.\<close>

fun enc_val :: "LeafVal \<Rightarrow> bytes" where
  "enc_val (Inline b) = to_le_bytes (of_nat (length b) :: u16) @ b"
| "enc_val (Overflow len pg) = to_le_bytes len @ to_le_bytes pg"
| "enc_val (Extent sp len npages) = to_le_bytes sp @ to_le_bytes len @ to_le_bytes npages"
| "enc_val (External h len) = to_le_bytes h @ to_le_bytes len"

fun val_kind :: "LeafVal \<Rightarrow> byte" where
  "val_kind (Inline b) = 0"
| "val_kind (Overflow len pg) = 1"
| "val_kind (Extent sp len npages) = 2"
| "val_kind (External h len) = 4"

definition enc_leaf :: "bytes \<times> LeafVal \<Rightarrow> bytes" where
  "enc_leaf kv = (case kv of (k, v) \<Rightarrow> to_le_bytes (of_nat (length k) :: u16) @ val_kind v # k @ enc_val v)"

definition enc_branch :: "bytes \<times> u64 \<Rightarrow> bytes" where
  "enc_branch kc = (case kc of (k, c) \<Rightarrow> make_branch_cell k c)"

fun val_ok :: "LeafVal \<Rightarrow> bool" where
  "val_ok (Inline b) \<longleftrightarrow> length b \<le> MAX_INLINE_VAL"
| "val_ok (Overflow len pg) \<longleftrightarrow> pg \<noteq> 0"
| "val_ok (Extent sp len npages) \<longleftrightarrow> npages \<noteq> 0 \<and> unat len + (PAGE_SIZE - 1) < 2 ^ 64
     \<and> unat npages = (unat len + (PAGE_SIZE - 1)) div PAGE_SIZE \<and> unat sp + unat npages < 2 ^ 64"
| "val_ok (External h len) \<longleftrightarrow> len \<noteq> 0"

definition leaf_ok :: "bytes \<times> LeafVal \<Rightarrow> bool" where
  "leaf_ok kv \<longleftrightarrow> length (fst kv) \<le> MAX_KEY \<and> val_ok (snd kv)"

definition branch_ok :: "bytes \<times> u64 \<Rightarrow> bool" where
  "branch_ok kc \<longleftrightarrow> length (fst kc) \<le> MAX_KEY"

lemma length_enc_val: "length (enc_val v) = val_len v"
  by (cases v) (simp_all add: val_len_def EXTENT_REF_LEN_def EXTERNAL_REF_LEN_def)

lemma length_enc_leaf: "length (enc_leaf (k, v)) = 3 + length k + val_len v"
  by (simp add: enc_leaf_def length_enc_val)

lemma length_enc_branch: "length (enc_branch (k, c)) = 2 + length k + 8"
  by (simp add: enc_branch_def make_branch_cell_def)

lemma enc_leaf_bound: "leaf_ok kv \<Longrightarrow> length (enc_leaf kv) \<le> 2005"
  by (cases kv; cases "snd kv")
    (auto simp: length_enc_leaf leaf_ok_def val_len_def MAX_KEY_def MAX_INLINE_VAL_def EXTENT_REF_LEN_def EXTERNAL_REF_LEN_def)

lemma enc_branch_bound: "branch_ok kc \<Longrightarrow> length (enc_branch kc) \<le> 986"
  by (cases kc) (auto simp: length_enc_branch branch_ok_def MAX_KEY_def)

lemma u16_at_head: "n < 65536 \<Longrightarrow> u16_at (to_le_bytes (of_nat n :: u16) @ rest) 0 = n"
  by (simp add: u16_at_def unat_of_nat)

lemma leaf_val_enc:
  assumes "val_ok v"
  shows "leaf_val (val_kind v) (enc_val v @ rest) = Ok v"
proof (cases v)
  case (Inline b)
  then show ?thesis using assms by (simp add: leaf_val_def u16_at_head MAX_INLINE_VAL_def get_range_def)
next
  case (Overflow t f)
  then show ?thesis by (simp add: leaf_val_def)
next
  case (Extent s t n)
  then show ?thesis using assms by (simp add: leaf_val_def EXTENT_REF_LEN_def Let_def)
next
  case (External h t)
  then show ?thesis using assms by (simp add: leaf_val_def EXTERNAL_REF_LEN_def Let_def)
qed

lemma leaf_cell_enc:
  assumes "leaf_ok kv"
  shows "leaf_cell_at (enc_leaf kv @ rest) = Ok kv"
proof -
  obtain k v where kv: "kv = (k, v)" by (metis surj_pair)
  have k: "length k < 65536" "val_ok v" using assms by (auto simp: kv leaf_ok_def MAX_KEY_def)
  have n: "(to_le_bytes (of_nat (length k) :: u16) @ xs) ! 2 = xs ! 0" for xs by (simp add: nth_append)
  show ?thesis
    using k by (simp add: kv leaf_cell_at_def enc_leaf_def u16_at_head n get_range_def leaf_val_enc)
qed

lemma branch_cell_enc:
  assumes "branch_ok kc"
  shows "branch_cell_at (enc_branch kc @ rest) = Ok kc"
proof -
  obtain k c where kc: "kc = (k, c)" by (metis surj_pair)
  have "length k < 65536" using assms by (auto simp: kc branch_ok_def MAX_KEY_def)
  then show ?thesis
    by (simp add: kc branch_cell_at_def enc_branch_def make_branch_cell_def u16_at_head get_range_def)
qed

section \<open>Lemmas: slots\<close>

lemma slot_less [simp]: "slot p i < 65536"
  using unsigned_less [of "from_le_bytes (take 2 (drop (HDR + i * 2) p)) :: u16"] by (simp add: slot_def u16_at_def)

lemma drop_put_after: "a + length xs \<le> off \<Longrightarrow> a + length xs \<le> length p \<Longrightarrow> drop off (put_at p a xs) = drop off p"
  by (simp add: put_at_def)

lemma drop_set_slot: "HDR + i * 2 + 2 \<le> off \<Longrightarrow> off \<le> PAGE_SIZE \<Longrightarrow> length p = PAGE_SIZE
    \<Longrightarrow> drop off (set_slot p i v) = drop off p"
  by (simp add: set_slot_def set_u16_def drop_put_after)

lemma drop_from: "drop a q = drop a p \<Longrightarrow> a \<le> off \<Longrightarrow> drop off q = drop off p"
  by (metis drop_drop le_add_diff_inverse2)

text \<open>Two pages that agree on everything but the slot array, which ends at \<open>lo\<close>.\<close>

definition same_but_slots :: "nat \<Rightarrow> bytes \<Rightarrow> bytes \<Rightarrow> bool" where
  "same_but_slots lo p q \<longleftrightarrow> length q = PAGE_SIZE \<and> kind q = kind p \<and> nkeys q = nkeys p \<and> cell_start q = cell_start p
     \<and> extra q = extra p \<and> drop lo q = drop lo p"

lemma same_but_slots_refl: "length p = PAGE_SIZE \<Longrightarrow> same_but_slots lo p p"
  by (simp add: same_but_slots_def)

lemma same_but_slots_set: "same_but_slots lo p q \<Longrightarrow> HDR + i * 2 + 2 \<le> lo \<Longrightarrow> lo \<le> PAGE_SIZE \<Longrightarrow> same_but_slots lo p (set_slot q i v)"
  by (simp add: same_but_slots_def drop_set_slot)

lemma same_but_slots_trans: "same_but_slots lo p q \<Longrightarrow> same_but_slots lo q r \<Longrightarrow> same_but_slots lo p r"
  by (simp add: same_but_slots_def)

lemma shift_right:
  assumes "length p = PAGE_SIZE" "i \<le> n" "HDR + (n + 1) * 2 \<le> lo" "lo \<le> PAGE_SIZE"
  shows "same_but_slots lo p (foldl (\<lambda>p j. set_slot p (j + 1) (slot p j)) p (rev [i..<n]))
    \<and> slot (foldl (\<lambda>p j. set_slot p (j + 1) (slot p j)) p (rev [i..<n])) j = (if i < j \<and> j \<le> n then slot p (j - 1) else slot p j)"
  using assms
proof (induction n arbitrary: p)
  case 0
  then show ?case by (simp add: same_but_slots_refl)
next
  case (Suc n)
  show ?case
  proof (cases "i = Suc n")
    case True
    then show ?thesis using Suc.prems by (auto simp: same_but_slots_refl)
  next
    case False
    define q where "q = set_slot p (n + 1) (slot p n)"
    have b: "HDR + (n + 1) * 2 + 2 \<le> lo" "HDR + (n + 1) * 2 + 2 \<le> PAGE_SIZE" "i \<le> n" "HDR + (n + 1) * 2 \<le> lo"
      using Suc.prems False by simp_all
    have l: "length q = PAGE_SIZE" unfolding q_def using Suc.prems(1) b(2) by (rule set_slot_simps)
    have s: "slot q k = (if k = n + 1 then slot p n else slot p k)" for k
      unfolding q_def using Suc.prems(1) b(2) by (rule set_slot_simps) simp
    have e: "foldl (\<lambda>p j. set_slot p (j + 1) (slot p j)) p (rev [i..<Suc n]) = foldl (\<lambda>p j. set_slot p (j + 1) (slot p j)) q (rev [i..<n])"
      using b(3) by (simp add: q_def)
    have sp: "same_but_slots lo p q"
      unfolding q_def using same_but_slots_set [OF same_but_slots_refl [OF Suc.prems(1)] b(1) Suc.prems(4)] .
    note IH = Suc.IH [OF l b(3,4) Suc.prems(4)]
    show ?thesis
      unfolding e using IH same_but_slots_trans [OF sp] b(3) by (auto simp: s simp del: One_nat_def)
  qed
qed

lemma shift_left:
  assumes "length p = PAGE_SIZE" "i < n" "HDR + n * 2 \<le> lo" "lo \<le> PAGE_SIZE"
  shows "same_but_slots lo p (foldl (\<lambda>p j. set_slot p (j - 1) (slot p j)) p [i + 1..<n])
    \<and> slot (foldl (\<lambda>p j. set_slot p (j - 1) (slot p j)) p [i + 1..<n]) j = (if i \<le> j \<and> j < n - 1 then slot p (j + 1) else slot p j)"
  using assms
proof (induction n arbitrary: j)
  case 0
  then show ?case by simp
next
  case (Suc n)
  show ?case
  proof (cases "i = n")
    case True
    then show ?thesis using Suc.prems by (auto simp: same_but_slots_refl)
  next
    case False
    let ?q = "foldl (\<lambda>p j. set_slot p (j - 1) (slot p j)) p [i + 1..<n]"
    have b: "i < n" "HDR + n * 2 \<le> lo" "HDR + (n - 1) * 2 + 2 \<le> lo" "HDR + (n - 1) * 2 + 2 \<le> PAGE_SIZE" using Suc.prems False by auto
    have IH: "same_but_slots lo p ?q" "slot ?q k = (if i \<le> k \<and> k < n - 1 then slot p (k + 1) else slot p k)" for k
      using Suc.IH [OF Suc.prems(1) b(1,2) Suc.prems(4)] by blast+
    have "length ?q = PAGE_SIZE" using IH(1) by (simp add: same_but_slots_def)
    then have s: "slot (set_slot ?q (n - 1) (slot p n)) k = (if k = n - 1 then slot p n else slot ?q k)" for k
      using b(4) by (rule set_slot_simps) simp
    have e: "[i + 1..<Suc n] = [i + 1..<n] @ [n]" using b by simp
    show ?thesis
      unfolding e foldl_append using same_but_slots_set [OF IH(1) b(3) Suc.prems(4), of "slot ?q n"] b(1)
      by (auto simp: s IH(2) simp del: One_nat_def)
  qed
qed

section \<open>Lemmas: the cells of a page\<close>

text \<open>
  A page holds a list of cell images: the header counts them, the slots point into the cell area,
  and no two cells overlap.
\<close>

definition cell_at :: "bytes \<Rightarrow> nat \<Rightarrow> nat \<Rightarrow> bytes \<Rightarrow> bool" where
  "cell_at p lo off c \<longleftrightarrow> lo \<le> off \<and> off + length c \<le> PAGE_SIZE \<and> take (length c) (drop off p) = c"

definition disjoint_cells :: "(nat \<Rightarrow> nat) \<Rightarrow> bytes list \<Rightarrow> bool" where
  "disjoint_cells s bs \<longleftrightarrow> (\<forall>i<length bs. \<forall>j<length bs. i \<noteq> j \<longrightarrow> s i + length (bs ! i) \<le> s j \<or> s j + length (bs ! j) \<le> s i)"

definition bytes_of :: "bytes list \<Rightarrow> nat" where
  "bytes_of bs = sum_list (map length bs)"

definition page_cells :: "bytes \<Rightarrow> bytes list \<Rightarrow> bool" where
  "page_cells p bs \<longleftrightarrow> length p = PAGE_SIZE \<and> nkeys p = length bs \<and> HDR + length bs * 2 \<le> cell_start p
     \<and> cell_start p + bytes_of bs \<le> PAGE_SIZE
     \<and> (\<forall>i<length bs. cell_at p (cell_start p) (slot p i) (bs ! i)) \<and> disjoint_cells (slot p) bs"

lemma bytes_of_simps [simp]:
  "bytes_of [] = 0" "bytes_of (c # bs) = length c + bytes_of bs" "bytes_of (bs @ cs) = bytes_of bs + bytes_of cs"
  by (simp_all add: bytes_of_def)

lemma bytes_of_take_drop: "bytes_of (take i bs) + bytes_of (drop i bs) = bytes_of bs"
  by (metis append_take_drop_id bytes_of_simps(3))

lemma bytes_of_take_Suc: "j < length bs \<Longrightarrow> bytes_of (take (Suc j) bs) = bytes_of (take j bs) + length (bs ! j)"
  by (simp add: take_Suc_conv_app_nth)

lemma bytes_of_take_mono: "i \<le> j \<Longrightarrow> bytes_of (take i bs) \<le> bytes_of (take j bs)"
  using bytes_of_take_drop [of i "take j bs"] by (simp add: min_absorb1)

lemma bytes_of_take_le: "bytes_of (take i bs) \<le> bytes_of bs"
  using bytes_of_take_drop [of i bs] by simp

lemma page_cellsI:
  assumes "length p = PAGE_SIZE" "nkeys p = length bs" "HDR + length bs * 2 \<le> cell_start p" "cell_start p + bytes_of bs \<le> PAGE_SIZE"
    "\<And>i. i < length bs \<Longrightarrow> cell_at p (cell_start p) (slot p i) (bs ! i)"
    "\<And>i j. i < length bs \<Longrightarrow> j < length bs \<Longrightarrow> i \<noteq> j \<Longrightarrow> slot p i + length (bs ! i) \<le> slot p j \<or> slot p j + length (bs ! j) \<le> slot p i"
  shows "page_cells p bs"
  using assms by (simp add: page_cells_def disjoint_cells_def)

lemma page_cellsD:
  assumes "page_cells p bs"
  shows "length p = PAGE_SIZE" "nkeys p = length bs" "HDR + length bs * 2 \<le> cell_start p" "cell_start p + bytes_of bs \<le> PAGE_SIZE"
    "cell_start p \<le> PAGE_SIZE"
    "\<And>i. i < length bs \<Longrightarrow> cell_at p (cell_start p) (slot p i) (bs ! i)"
    "\<And>i j. i < length bs \<Longrightarrow> j < length bs \<Longrightarrow> i \<noteq> j \<Longrightarrow> slot p i + length (bs ! i) \<le> slot p j \<or> slot p j + length (bs ! j) \<le> slot p i"
  using assms by (simp_all add: page_cells_def disjoint_cells_def)

text \<open>Cells that stay where they are survive a change of the page before them.\<close>

lemma cell_at_drop: "drop lo q = drop lo p \<Longrightarrow> cell_at p lo off c \<Longrightarrow> cell_at q lo off c"
  using drop_from [of lo q p off] by (simp add: cell_at_def)

lemma cell_at_mono: "cell_at p lo off c \<Longrightarrow> lo' \<le> lo \<Longrightarrow> cell_at p lo' off c"
  by (simp add: cell_at_def)

lemma free_space_page: "page_cells p bs \<Longrightarrow> free_space p = cell_start p - (HDR + length bs * 2)"
  by (simp add: free_space_def page_cellsD)

text \<open>Insertion in the list of cells.\<close>

definition insert_at :: "nat \<Rightarrow> 'a \<Rightarrow> 'a list \<Rightarrow> 'a list" where
  "insert_at i x xs = take i xs @ x # drop i xs"

definition remove_at :: "nat \<Rightarrow> 'a list \<Rightarrow> 'a list" where
  "remove_at i xs = take i xs @ drop (Suc i) xs"

lemma length_insert_at [simp]: "i \<le> length xs \<Longrightarrow> length (insert_at i x xs) = Suc (length xs)"
  by (simp add: insert_at_def)

lemma length_remove_at [simp]: "i < length xs \<Longrightarrow> length (remove_at i xs) = length xs - 1"
  by (simp add: remove_at_def)

lemma nth_insert_at: "i \<le> length xs \<Longrightarrow> j \<le> length xs
    \<Longrightarrow> insert_at i x xs ! j = (if j < i then xs ! j else if j = i then x else xs ! (j - 1))"
  by (auto simp: insert_at_def nth_append nth_Cons split: nat.split intro!: arg_cong [where f = "nth xs"])

lemma nth_remove_at: "i < length xs \<Longrightarrow> j < length xs - 1 \<Longrightarrow> remove_at i xs ! j = (if j < i then xs ! j else xs ! Suc j)"
  by (auto simp: remove_at_def nth_append)

lemma bytes_of_insert_at: "bytes_of (insert_at i c bs) = length c + bytes_of bs"
  using bytes_of_take_drop [of i bs] by (simp add: insert_at_def)

lemma bytes_of_remove_at: "i < length bs \<Longrightarrow> bytes_of (remove_at i bs) + length (bs ! i) = bytes_of bs"
  using bytes_of_take_drop [of i bs] bytes_of_simps(2) [of "bs ! i" "drop (Suc i) bs"] Cons_nth_drop_Suc [of i bs]
  by (simp add: remove_at_def)

lemma map_insert_at: "map f (insert_at i x xs) = insert_at i (f x) (map f xs)"
  by (simp add: insert_at_def take_map drop_map)

lemma map_remove_at: "map f (remove_at i xs) = remove_at i (map f xs)"
  by (simp add: remove_at_def take_map drop_map)

lemma list_all_insert_at: "list_all P xs \<Longrightarrow> P x \<Longrightarrow> list_all P (insert_at i x xs)"
  by (auto simp: insert_at_def list_all_iff dest: in_set_takeD in_set_dropD)

lemma list_all_remove_at: "list_all P xs \<Longrightarrow> list_all P (remove_at i xs)"
  by (auto simp: remove_at_def list_all_iff dest: in_set_takeD in_set_dropD)

text \<open>The header, kind and leftmost child of a page, which moving cells leaves alone.\<close>

definition same_head :: "bytes \<Rightarrow> bytes \<Rightarrow> bool" where
  "same_head p q \<longleftrightarrow> kind q = kind p \<and> extra q = extra p"

lemma same_head_trans: "same_head p q \<Longrightarrow> same_head q r \<Longrightarrow> same_head p r"
  by (simp add: same_head_def)

lemma page_cells_init:
  assumes "length p = PAGE_SIZE"
  shows "page_cells (init_node p k) []" "kind (init_node p k) = k" "extra (init_node p k) = 0"
proof -
  let ?p = "(put_at p 0 (replicate HDR 0))[0 := k]"
  have l: "length ?p = PAGE_SIZE" using assms by (simp add: sizes)
  have "?p = k # replicate 15 0 @ drop 16 p" by (simp add: put_at_def HDR_def numeral_eq_Suc)
  then have u: "nkeys ?p = 0" "extra ?p = 0" "kind ?p = k"
    by (simp_all add: nkeys_def u16_at_def extra_def kind_def from_le_bytes_def numeral_eq_Suc)
  show "kind (init_node p k) = k" "extra (init_node p k) = 0"
    using u l by (simp_all add: init_node_def)
  show "page_cells (init_node p k) []"
    unfolding init_node_def
    by (rule page_cellsI) (use l u in \<open>simp_all add: sizes\<close>)
qed

text \<open>The body of \<open>insert_cell\<close> once the room is there.\<close>

definition place_cell :: "bytes \<Rightarrow> nat \<Rightarrow> bytes \<Rightarrow> bytes" where
  "place_cell p i cell =
    (let n = nkeys p; pos = cell_start p - length cell;
         p = set_cell_start (put_at p pos cell) pos;
         p = foldl (\<lambda>p j. set_slot p (j + 1) (slot p j)) p (rev [i..<n])
     in set_nkeys (set_slot p i pos) (n + 1))"

lemma drop_set_nkeys: "HDR \<le> off \<Longrightarrow> length p = PAGE_SIZE \<Longrightarrow> drop off (set_nkeys p n) = drop off p"
  by (simp add: set_nkeys_def set_u16_def drop_put_after sizes)

lemma drop_set_cell_start: "HDR \<le> off \<Longrightarrow> length p = PAGE_SIZE \<Longrightarrow> drop off (set_cell_start p n) = drop off p"
  by (simp add: set_cell_start_def set_u16_def drop_put_after sizes)

lemma place_cell_page:
  assumes P: "page_cells p bs" and i: "i \<le> length bs" and f: "length c + 2 \<le> free_space p"
  shows "page_cells (place_cell p i c) (insert_at i c bs)" "same_head p (place_cell p i c)"
proof -
  note D = page_cellsD [OF P]
  define n where "n = length bs"
  define pos where "pos = cell_start p - length c"
  define q1 where "q1 = set_cell_start (put_at p pos c) pos"
  define q2 where "q2 = foldl (\<lambda>p j. set_slot p (j + 1) (slot p j)) q1 (rev [i..<n])"
  define q where "q = set_nkeys (set_slot q2 i pos) (n + 1)"
  have pc: "place_cell p i c = q"
    by (simp add: place_cell_def q_def q2_def q1_def pos_def n_def D(2) Let_def)
  have b: "HDR + (n + 1) * 2 \<le> pos" "pos + length c = cell_start p" "pos \<le> PAGE_SIZE" "HDR \<le> pos" "i \<le> n" "pos + length c \<le> PAGE_SIZE"
    using f D(3,4) i by (simp_all add: free_space_page [OF P] pos_def n_def)
  have b': "pos < 65536" "n + 1 < 65536" "HDR + i * 2 + 2 \<le> pos" "HDR + i * 2 + 2 \<le> PAGE_SIZE" using b by (auto simp: sizes)
  have q1: "length q1 = PAGE_SIZE" "kind q1 = kind p" "extra q1 = extra p" "cell_start q1 = pos"
    "drop pos q1 = drop pos (put_at p pos c)"
    using D(1) b b' by (simp_all add: q1_def drop_set_cell_start)
  have s1: "slot q1 j = slot p j" if "j \<le> n" for j
    using D(1) b b' that by (simp add: q1_def)
  note R = shift_right [OF q1(1) b(5,1,3), folded q2_def]
  have q2: "length q2 = PAGE_SIZE" "kind q2 = kind p" "extra q2 = extra p" "cell_start q2 = pos"
    "drop pos q2 = drop pos (put_at p pos c)"
    using R q1 by (simp_all add: same_but_slots_def)
  have q: "length q = PAGE_SIZE" "kind q = kind p" "extra q = extra p" "cell_start q = pos" "nkeys q = n + 1"
    "drop pos q = drop pos (put_at p pos c)"
    using q2 b b' by (simp_all add: q_def drop_set_nkeys drop_set_slot)
  have s: "slot q j = (if j < i then slot p j else if j = i then pos else slot p (j - 1))" if "j \<le> n" for j
    using R q2 b b' that s1 by (auto simp: q_def)
  have new: "cell_at q pos pos c"
    using q(6) b(6) D(1) by (simp add: cell_at_def)
  have old: "cell_at q pos (slot p j) (bs ! j)" "pos + length c \<le> slot p j" if "j < n" for j
  proof -
    have a: "cell_at p (cell_start p) (slot p j) (bs ! j)" using D(6) that by (simp add: n_def)
    then show "pos + length c \<le> slot p j" by (simp add: cell_at_def b)
    have "drop (pos + length c) q = drop (pos + length c) p"
      using drop_from [OF q(6), of "pos + length c"] b D(1) by (simp add: drop_put_after)
    then have "cell_at q (cell_start p) (slot p j) (bs ! j)"
      using cell_at_drop [of "pos + length c" q p] a by (simp add: b(2))
    then show "cell_at q pos (slot p j) (bs ! j)"
      by (rule cell_at_mono) (use b(2) in simp)
  qed
  show "same_head p (place_cell p i c)" by (simp add: pc same_head_def q)
  show "page_cells (place_cell p i c) (insert_at i c bs)"
    unfolding pc
  proof (rule page_cellsI)
    show "length q = PAGE_SIZE" by (fact q(1))
    show "nkeys q = length (insert_at i c bs)" using i q(5) by (simp add: n_def)
    show "HDR + length (insert_at i c bs) * 2 \<le> cell_start q" using i q(4) b(1) by (simp add: n_def)
    show "cell_start q + bytes_of (insert_at i c bs) \<le> PAGE_SIZE" using D(4) b q(4) by (simp add: bytes_of_insert_at)
  next
    fix j assume j: "j < length (insert_at i c bs)"
    then have "j \<le> n" using i by (simp add: n_def)
    then show "cell_at q (cell_start q) (slot q j) (insert_at i c bs ! j)"
      using i old new by (auto simp: s q(4) nth_insert_at n_def)
  next
    fix j k assume j: "j < length (insert_at i c bs)" "k < length (insert_at i c bs)" "j \<noteq> k"
    then have jk: "j \<le> n" "k \<le> n" using i by (simp_all add: n_def)
    have "slot p a + length (bs ! a) \<le> slot p b \<or> slot p b + length (bs ! b) \<le> slot p a" if "a < n" "b < n" "a \<noteq> b" for a b
      using D(7) that by (simp add: n_def)
    from this [of "if j < i then j else j - 1" "if k < i then k else k - 1"]
    show "slot q j + length (insert_at i c bs ! j) \<le> slot q k \<or> slot q k + length (insert_at i c bs ! k) \<le> slot q j"
      using jk j(3) i old(2) by (auto simp: s nth_insert_at n_def split: if_splits)
  qed
qed

lemma remove_cell_page:
  assumes P: "page_cells p bs" and i: "i < length bs"
  shows "page_cells (remove_cell p i) (remove_at i bs)" "same_head p (remove_cell p i)"
proof -
  note D = page_cellsD [OF P]
  define n where "n = length bs"
  define q2 where "q2 = foldl (\<lambda>p j. set_slot p (j - 1) (slot p j)) p [i + 1..<n]"
  define q where "q = set_nkeys q2 (n - 1)"
  have pc: "remove_cell p i = q" by (simp add: remove_cell_def q_def q2_def n_def D(2) Let_def)
  have b: "i < n" "HDR + n * 2 \<le> cell_start p" "n - 1 < 65536" using i D(3,5) by (simp_all add: n_def sizes)
  note R = shift_left [OF D(1) b(1,2) D(5), folded q2_def]
  have q2: "length q2 = PAGE_SIZE" using R by (simp add: same_but_slots_def)
  have q: "length q = PAGE_SIZE" "kind q = kind p" "extra q = extra p" "cell_start q = cell_start p" "nkeys q = n - 1"
    "drop (cell_start p) q = drop (cell_start p) p"
    using R q2 b by (simp_all add: q_def same_but_slots_def drop_set_nkeys)
  have s: "slot q j = (if j < i then slot p j else slot p (Suc j))" if "j < n - 1" for j
    using R q2 that by (simp add: q_def)
  show "same_head p (remove_cell p i)" by (simp add: pc same_head_def q)
  show "page_cells (remove_cell p i) (remove_at i bs)"
    unfolding pc
  proof (rule page_cellsI)
    show "length q = PAGE_SIZE" by (fact q(1))
    show "nkeys q = length (remove_at i bs)" using i q(5) by (simp add: n_def)
    show "HDR + length (remove_at i bs) * 2 \<le> cell_start q" using i q(4) b by (simp add: n_def)
    show "cell_start q + bytes_of (remove_at i bs) \<le> PAGE_SIZE" using D(4) q(4) bytes_of_remove_at [OF i] by simp
  next
    fix j assume j: "j < length (remove_at i bs)"
    then have j': "j < n - 1" using i by (simp add: n_def)
    have "cell_at q (cell_start p) (slot p k) (bs ! k)" if "k < n" for k
      using cell_at_drop [OF q(6)] D(6) that by (simp add: n_def)
    from this [of "if j < i then j else Suc j"] show "cell_at q (cell_start q) (slot q j) (remove_at i bs ! j)"
      using i j' by (auto simp: s q(4) nth_remove_at n_def)
  next
    fix j k assume j: "j < length (remove_at i bs)" "k < length (remove_at i bs)" "j \<noteq> k"
    then have jk: "j < n - 1" "k < n - 1" using i by (simp_all add: n_def)
    have "slot p a + length (bs ! a) \<le> slot p b \<or> slot p b + length (bs ! b) \<le> slot p a" if "a < n" "b < n" "a \<noteq> b" for a b
      using D(7) that by (simp add: n_def)
    from this [of "if j < i then j else Suc j" "if k < i then k else Suc k"]
    show "slot q j + length (remove_at i bs ! j) \<le> slot q k \<or> slot q k + length (remove_at i bs ! k) \<le> slot q j"
      using jk j(3) i by (auto simp: s nth_remove_at n_def split: if_splits)
  qed
qed

text \<open>The repacking loop, which writes the remaining cells below \<open>pos\<close>.\<close>

lemma repack_spec:
  assumes "length p = PAGE_SIZE" "pos \<le> PAGE_SIZE" "HDR + (i + length cs) * 2 + bytes_of cs \<le> pos"
  shows "\<exists>q. repack p pos i cs = Ok (q, pos - bytes_of cs) \<and> length q = PAGE_SIZE \<and> same_head p q \<and> nkeys q = nkeys p
    \<and> drop pos q = drop pos p \<and> (\<forall>j<i. slot q j = slot p j)
    \<and> (\<forall>j<length cs. slot q (i + j) = pos - bytes_of (take (Suc j) cs)
        \<and> take (length (cs ! j)) (drop (pos - bytes_of (take (Suc j) cs)) q) = cs ! j)"
  using assms
proof (induction cs arbitrary: p pos i)
  case Nil
  then show ?case by (simp add: same_head_def)
next
  case (Cons c cs)
  define pos' where "pos' = pos - length c"
  define p1 where "p1 = put_at p pos' c"
  define p' where "p' = set_slot p1 i pos'"
  have b: "pos' + length c = pos" "HDR \<le> pos'" "HDR + i * 2 + 2 \<le> pos'" "HDR + i * 2 + 2 \<le> PAGE_SIZE" "pos' \<le> PAGE_SIZE" "pos' < 65536"
    "HDR + (Suc i + length cs) * 2 + bytes_of cs \<le> pos'" "pos' + length c \<le> PAGE_SIZE"
    using Cons.prems by (auto simp: pos'_def sizes)
  have p1: "length p1 = PAGE_SIZE" "kind p1 = kind p" "extra p1 = extra p" "nkeys p1 = nkeys p"
    using Cons.prems(1) b by (simp_all add: p1_def)
  have p': "length p' = PAGE_SIZE" "same_head p p'" "nkeys p' = nkeys p" "drop pos' p' = drop pos' p1"
    using p1 b by (simp_all add: p'_def same_head_def drop_set_slot)
  have s': "slot p' j = (if j = i then pos' else slot p j)" if "j \<le> i" for j
    using p1 b Cons.prems(1) that by (simp add: p'_def p1_def)
  obtain q where q: "repack p' pos' (Suc i) cs = Ok (q, pos' - bytes_of cs)" "length q = PAGE_SIZE" "same_head p' q" "nkeys q = nkeys p'"
    "drop pos' q = drop pos' p'" "\<forall>j<Suc i. slot q j = slot p' j"
    "\<forall>j<length cs. slot q (Suc i + j) = pos' - bytes_of (take (Suc j) cs)
        \<and> take (length (cs ! j)) (drop (pos' - bytes_of (take (Suc j) cs)) q) = cs ! j"
    using Cons.IH [OF p'(1) b(5,7)] by blast
  have e: "repack p pos i (c # cs) = Ok (q, pos - bytes_of (c # cs))"
    using q(1) b(1) by (simp add: Let_def pos'_def p'_def p1_def)
  have d: "drop pos q = drop pos p"
    using drop_from [OF q(5), of pos] drop_from [OF p'(4), of pos] b Cons.prems(1) by (simp add: p1_def drop_put_after)
  have at: "take (length c) (drop pos' q) = c"
    using q(5) p'(4) b(8) Cons.prems(1) by (simp add: p1_def)
  have new: "slot q (i + j) = pos - bytes_of (take (Suc j) (c # cs)) \<and> take (length ((c # cs) ! j)) (drop (pos - bytes_of (take (Suc j) (c # cs))) q) = (c # cs) ! j"
    if "j < length (c # cs)" for j
  proof (cases j)
    case 0
    then show ?thesis using q(6) s' at by (simp add: pos'_def)
  next
    case (Suc k)
    then show ?thesis using q(7) [rule_format, of k] that by (simp add: pos'_def)
  qed
  have old: "slot q j = slot p j" if "j < i" for j using q(6) s' that by simp
  show ?case using e q(2,4) d new old same_head_trans [OF p'(2) q(3)] p'(3) by (intro exI [of _ q]) simp
qed

lemma cell_at_HDR: "page_cells p bs \<Longrightarrow> i < length bs \<Longrightarrow> cell_at p HDR (slot p i) (bs ! i)"
  using page_cellsD(3,6) [of p bs] cell_at_mono [of p "cell_start p" "slot p i" "bs ! i" HDR] by fastforce

lemma page_cells_repack:
  assumes P: "page_cells p bs"
  shows "\<exists>q. rbind (repack p PAGE_SIZE 0 bs) (\<lambda>(p, pos). Ok (set_cell_start p pos)) = Ok q
    \<and> page_cells q bs \<and> same_head p q \<and> cell_start q = PAGE_SIZE - bytes_of bs"
proof -
  note D = page_cellsD [OF P]
  have len: "HDR + (0 + length bs) * 2 + bytes_of bs \<le> PAGE_SIZE" using D(3,4) by simp
  obtain q where q: "repack p PAGE_SIZE 0 bs = Ok (q, PAGE_SIZE - bytes_of bs)" "length q = PAGE_SIZE" "same_head p q" "nkeys q = nkeys p"
    "\<And>j. j < length bs \<Longrightarrow> slot q j = PAGE_SIZE - bytes_of (take (Suc j) bs)"
    "\<And>j. j < length bs \<Longrightarrow> take (length (bs ! j)) (drop (PAGE_SIZE - bytes_of (take (Suc j) bs)) q) = bs ! j"
    using repack_spec [OF D(1) le_refl len] by auto
  define r where "r = set_cell_start q (PAGE_SIZE - bytes_of bs)"
  have r: "length r = PAGE_SIZE" "same_head p r" "nkeys r = length bs" "slot r j = slot q j" "cell_start r = PAGE_SIZE - bytes_of bs" for j
    using q(2,3,4) D(2) by (simp_all add: r_def same_head_def sizes)
  have up: "bytes_of (take j bs) \<le> bytes_of bs" "bytes_of bs \<le> PAGE_SIZE" for j using bytes_of_take_le [of j] D(4) by simp_all
  have ends: "slot q j + length (bs ! j) = PAGE_SIZE - bytes_of (take j bs)" if "j < length bs" for j
    using that up(1) [of "Suc j"] up(2) by (simp add: q(5) bytes_of_take_Suc)
  have "page_cells r bs"
  proof (rule page_cellsI)
    show "length r = PAGE_SIZE" "nkeys r = length bs" by (fact r)+
    show "HDR + length bs * 2 \<le> cell_start r" "cell_start r + bytes_of bs \<le> PAGE_SIZE" using r(5) len by simp_all
  next
    fix j assume j: "j < length bs"
    have "drop (slot q j) r = drop (slot q j) q"
      using q(2) len up(1) [of "Suc j"] j by (simp add: r_def drop_set_cell_start q(5))
    then show "cell_at r (cell_start r) (slot r j) (bs ! j)"
      using j ends [OF j] q(6) [OF j] up(1) [of "Suc j"] by (simp add: cell_at_def r(4,5) diff_le_mono2 q(5))
  next
    fix j k assume jk: "j < length bs" "k < length bs" "j \<noteq> k"
    have less: "slot q b + length (bs ! b) \<le> slot q a" if "a < b" "b < length bs" for a b
      using ends [of b] bytes_of_take_mono [of "Suc a" b bs] that by (simp add: q(5) diff_le_mono2)
    show "slot r j + length (bs ! j) \<le> slot r k \<or> slot r k + length (bs ! k) \<le> slot r j"
      using jk less [of j k] less [of k j] by (cases "j < k") (simp_all add: r(4))
  qed
  then show ?thesis using q(1) r by (intro exI [of _ r]) (simp add: r_def)
qed

section \<open>Interface: a kind of cell\<close>

text \<open>
  What the page operations need of a kind of cell: in a page of that kind, the length and the key of a
  cell are read back from its image wherever it lies.
\<close>

definition node :: "byte \<Rightarrow> ('c \<Rightarrow> bytes) \<Rightarrow> ('c \<Rightarrow> bool) \<Rightarrow> bytes \<Rightarrow> 'c list \<Rightarrow> bool" where
  "node knd enc ok p cs \<longleftrightarrow> kind p = knd \<and> list_all ok cs \<and> page_cells p (map enc cs)"

definition room :: "bytes list \<Rightarrow> nat" where
  "room bs = PAGE_SIZE - (HDR + length bs * 2 + bytes_of bs)"

locale cell_format =
  fixes knd :: byte
    and enc :: "'c \<Rightarrow> bytes"
    and ok :: "'c \<Rightarrow> bool"
    and ckey :: "'c \<Rightarrow> bytes"
  assumes len_law: "length p = PAGE_SIZE \<Longrightarrow> kind p = knd \<Longrightarrow> ok c \<Longrightarrow> cell_at p HDR (slot p i) (enc c) \<Longrightarrow> cell_len p i = Ok (length (enc c))"
    and key_law: "length p = PAGE_SIZE \<Longrightarrow> kind p = knd \<Longrightarrow> ok c \<Longrightarrow> cell_at p HDR (slot p i) (enc c) \<Longrightarrow> key_at p i = Ok (ckey c)"
begin

lemma node_cell_at: "node knd enc ok p cs \<Longrightarrow> i < length cs \<Longrightarrow> cell_at p HDR (slot p i) (enc (cs ! i))"
  using cell_at_HDR [of p "map enc cs" i] by (simp add: node_def)

lemma node_cell_len: "node knd enc ok p cs \<Longrightarrow> i < length cs \<Longrightarrow> cell_len p i = Ok (length (enc (cs ! i)))"
  using node_cell_at [of p cs i] by (intro len_law) (auto simp: node_def page_cellsD(1) list_all_length)

lemma node_key_at: "node knd enc ok p cs \<Longrightarrow> i < length cs \<Longrightarrow> key_at p i = Ok (ckey (cs ! i))"
  using node_cell_at [of p cs i] by (intro key_law) (auto simp: node_def page_cellsD(1) list_all_length)

lemma node_nkeys: "node knd enc ok p cs \<Longrightarrow> nkeys p = length cs"
  by (auto simp: node_def page_cellsD(2))

lemma used_cell_bytes_node:
  assumes N: "node knd enc ok p cs"
  shows "used_cell_bytes p = Ok (bytes_of (map enc cs))"
proof -
  have "sum_cells p [i..<length cs] = Ok (bytes_of (map enc (drop i cs)))" if "i \<le> length cs" for i
    using that
  proof (induction rule: inc_induct)
    case (step k)
    then show ?case
      using node_cell_len [OF N, of k] by (simp add: upt_conv_Cons flip: Cons_nth_drop_Suc [of k cs])
  qed simp
  from this [of 0] show ?thesis by (simp add: used_cell_bytes_def node_nkeys [OF N])
qed

lemma all_cells_node:
  assumes N: "node knd enc ok p cs"
  shows "all_cells p = Ok (map enc cs)"
proof -
  have "copy_cells p [i..<length cs] = Ok (map enc (drop i cs))" if "i \<le> length cs" for i
    using that
  proof (induction rule: inc_induct)
    case (step k)
    then show ?case
      using node_cell_len [OF N, of k] node_cell_at [OF N, of k]
      by (simp add: upt_conv_Cons cell_at_def flip: Cons_nth_drop_Suc [of k cs])
  qed simp
  from this [of 0] show ?thesis by (simp add: all_cells_def node_nkeys [OF N])
qed

lemma compact_node:
  assumes N: "node knd enc ok p cs"
  obtains q where "compact p = Ok q" "node knd enc ok q cs" "extra q = extra p" "free_space q = room (map enc cs)"
proof -
  have P: "page_cells p (map enc cs)" using N by (simp add: node_def)
  obtain q where q: "compact p = Ok q" "page_cells q (map enc cs)" "same_head p q" "cell_start q = PAGE_SIZE - bytes_of (map enc cs)"
    using page_cells_repack [OF P] by (auto simp: compact_def all_cells_node [OF N])
  have "free_space q = room (map enc cs)"
    using q(4) by (simp add: free_space_page [OF q(2)] room_def)
  then show thesis using that q N by (auto simp: node_def same_head_def)
qed

lemma fits_node:
  assumes N: "node knd enc ok p cs" and n: "0 < n"
  shows "fits p n = Ok (n + 2 \<le> room (map enc cs))"
proof -
  have P: "page_cells p (map enc cs)" using N by (simp add: node_def)
  note D = page_cellsD [OF P]
  have "free_space p \<le> room (map enc cs)" using D(3,4) by (simp add: free_space_page [OF P] room_def)
  then show ?thesis
    using D(3,4) n by (auto simp: fits_def used_cell_bytes_node [OF N] node_nkeys [OF N] room_def)
qed

lemma insert_cell_node:
  assumes N: "node knd enc ok p cs" and c: "ok c" and i: "i \<le> length cs" and r: "length (enc c) + 2 \<le> room (map enc cs)"
  obtains q where "insert_cell p i (enc c) = Ok q" "node knd enc ok q (insert_at i c cs)" "extra q = extra p"
proof -
  have place: "node knd enc ok (place_cell q i (enc c)) (insert_at i c cs)" "extra (place_cell q i (enc c)) = extra q"
    if q: "node knd enc ok q cs" "length (enc c) + 2 \<le> free_space q" for q
  proof -
    have P: "page_cells q (map enc cs)" using q by (simp add: node_def)
    have "same_head q (place_cell q i (enc c))" "page_cells (place_cell q i (enc c)) (insert_at i (enc c) (map enc cs))"
      using place_cell_page [OF P _ q(2)] i by simp_all
    then show "node knd enc ok (place_cell q i (enc c)) (insert_at i c cs)" "extra (place_cell q i (enc c)) = extra q"
      using q(1) c by (simp_all add: node_def same_head_def map_insert_at list_all_insert_at)
  qed
  show thesis
  proof (cases "free_space p < length (enc c) + 2")
    case False
    then have "insert_cell p i (enc c) = Ok (place_cell p i (enc c))" by (simp add: insert_cell_def place_cell_def Let_def)
    then show thesis using that place [of p] N False by simp
  next
    case True
    obtain q where q: "compact p = Ok q" "node knd enc ok q cs" "extra q = extra p" "free_space q = room (map enc cs)"
      using compact_node [OF N] .
    have "insert_cell p i (enc c) = Ok (place_cell q i (enc c))"
      using True q r by (simp add: insert_cell_def place_cell_def Let_def)
    then show thesis using that place [of q] q r by simp
  qed
qed

lemma remove_cell_node:
  assumes "node knd enc ok p cs" "i < length cs"
  shows "node knd enc ok (remove_cell p i) (remove_at i cs)" "extra (remove_cell p i) = extra p"
  using assms remove_cell_page [of p "map enc cs" i]
  by (auto simp: node_def same_head_def map_remove_at list_all_remove_at)

end

section \<open>Lemmas: search\<close>

text \<open>The position of a key in an ascending list: where it is, or before which element it belongs.\<close>

definition lower :: "bytes \<Rightarrow> bytes list \<Rightarrow> nat" where
  "lower key ks = length (takeWhile (\<lambda>k. k < key) ks)"

definition position :: "bytes \<Rightarrow> bytes list \<Rightarrow> found" where
  "position key ks = (let i = lower key ks in if i < length ks \<and> ks ! i = key then At i else Before i)"

lemma lower_le: "lower key ks \<le> length ks"
  by (simp add: lower_def length_takeWhile_le)

lemma lower_less: "j < lower key ks \<Longrightarrow> ks ! j < key"
  unfolding lower_def by (metis nth_mem set_takeWhileD takeWhile_nth)

lemma lower_not_less: "lower key ks < length ks \<Longrightarrow> key \<le> ks ! lower key ks"
  unfolding lower_def using nth_length_takeWhile [of "\<lambda>k. k < key" ks] by (simp add: not_less)

lemma lower_ge:
  assumes "sorted_wrt (<) ks" "lower key ks \<le> j" "j < length ks"
  shows "key \<le> ks ! j"
  using assms lower_not_less [of key ks] sorted_wrt_nth_less [OF assms(1), of "lower key ks" j]
  by (cases "lower key ks = j") auto

lemma lower_eqI:
  assumes "i \<le> length ks" "\<And>j. j < i \<Longrightarrow> ks ! j < key" "i < length ks \<Longrightarrow> key \<le> ks ! i"
  shows "lower key ks = i"
proof (rule ccontr)
  assume "lower key ks \<noteq> i"
  then consider "lower key ks < i" | "i < lower key ks" by linarith
  then show False
  proof cases
    case 1
    then show False using assms(1) assms(2) [OF 1] lower_not_less [of key ks] by simp
  next
    case 2
    then show False using assms(3) lower_less [OF 2] lower_le [of key ks] by simp
  qed
qed

lemma position_At:
  assumes "sorted_wrt (<) ks" "i < length ks" "ks ! i = key"
  shows "position key ks = At i"
proof -
  have "lower key ks = i"
    using assms sorted_wrt_nth_less [OF assms(1), of _ i] by (intro lower_eqI) auto
  then show ?thesis using assms by (simp add: position_def)
qed

lemma search_loop_spec:
  assumes "sorted_wrt (<) ks" "\<And>i. i < length ks \<Longrightarrow> key_at p i = Ok (ks ! i)" "lo \<le> hi" "hi \<le> length ks"
    "\<And>j. j < lo \<Longrightarrow> ks ! j < key" "\<And>j. hi \<le> j \<Longrightarrow> j < length ks \<Longrightarrow> key < ks ! j"
  shows "search_loop p key lo hi = Ok (position key ks)"
  using assms
proof (induction "hi - lo" arbitrary: lo hi rule: less_induct)
  case less
  note L = less.prems
  show ?case
  proof (cases "lo < hi")
    case False
    then have "lower key ks = lo" "lo < length ks \<Longrightarrow> key < ks ! lo"
      using L(3-6) by (auto intro!: lower_eqI less_imp_le)
    then show ?thesis using False by (auto simp: search_loop.simps [of p] position_def)
  next
    case True
    define mid where "mid = (lo + hi) div 2"
    have m: "lo \<le> mid" "mid < hi" "mid < length ks" using True L(4) by (auto simp: mid_def)
    have mono: "ks ! a < ks ! b" if "a < b" "b < length ks" for a b using sorted_wrt_nth_less [OF L(1) that] .
    consider (lt) "ks ! mid < key" | (gt) "key < ks ! mid" | (eq) "ks ! mid = key" by fastforce
    then have "(if ks ! mid < key then search_loop p key (mid + 1) hi else if ks ! mid > key then search_loop p key lo mid else Ok (At mid))
      = Ok (position key ks)"
    proof cases
      case lt
      have "ks ! j < key" if "j < mid + 1" for j using that lt mono [of j mid] m by (cases "j = mid") auto
      then show ?thesis using lt less.hyps [of hi "mid + 1"] L m by simp
    next
      case gt
      have "key < ks ! j" if "mid \<le> j" "j < length ks" for j using that gt mono [of mid j] by (cases "j = mid") auto
      moreover have "\<not> ks ! mid < key" using gt by simp
      ultimately show ?thesis using gt less.hyps [of mid lo] L m by simp
    next
      case eq
      then show ?thesis using position_At [OF L(1) m(3)] by simp
    qed
    then show ?thesis
      using True L(2) [OF m(3)] unfolding search_loop.simps [of p key lo hi] by (simp add: Let_def flip: mid_def)
  qed
qed

context cell_format
begin

lemma search_node:
  assumes N: "node knd enc ok p cs" and s: "sorted_wrt (<) (map ckey cs)"
  shows "search p key = Ok (position key (map ckey cs))"
  unfolding search_def node_nkeys [OF N]
  by (rule search_loop_spec [OF s]) (simp_all add: node_key_at [OF N])

end

text \<open>The number of keys not above \<open>key\<close>, which the descent takes as the child to follow.\<close>

definition upper :: "bytes \<Rightarrow> bytes list \<Rightarrow> nat" where
  "upper key ks = length (takeWhile (\<lambda>k. k \<le> key) ks)"

lemma upper_le: "upper key ks \<le> length ks"
  by (simp add: upper_def length_takeWhile_le)

lemma upper_less: "j < upper key ks \<Longrightarrow> ks ! j \<le> key"
  unfolding upper_def by (metis nth_mem set_takeWhileD takeWhile_nth)

lemma upper_greater: "upper key ks < length ks \<Longrightarrow> key < ks ! upper key ks"
  unfolding upper_def using nth_length_takeWhile [of "\<lambda>k. k \<le> key" ks] by (simp add: not_le)

lemma upper_eqI:
  assumes "i \<le> length ks" "\<And>j. j < i \<Longrightarrow> ks ! j \<le> key" "i < length ks \<Longrightarrow> key < ks ! i"
  shows "upper key ks = i"
proof (rule ccontr)
  assume "upper key ks \<noteq> i"
  then consider "upper key ks < i" | "i < upper key ks" by linarith
  then show False
  proof cases
    case 1
    then show False using assms(1) assms(2) [OF 1] upper_greater [of key ks] by simp
  next
    case 2
    then show False using assms(3) upper_less [OF 2] upper_le [of key ks] by simp
  qed
qed

lemma position_upper:
  assumes "sorted_wrt (<) ks"
  shows "(case position key ks of At i \<Rightarrow> i + 1 | Before i \<Rightarrow> i) = upper key ks"
proof (cases "lower key ks < length ks \<and> ks ! lower key ks = key")
  case True
  have "upper key ks = lower key ks + 1"
    by (rule upper_eqI) (use True lower_less [of _ key ks] sorted_wrt_nth_less [OF assms, of "lower key ks"] in \<open>auto simp: less_Suc_eq less_imp_le\<close>)
  then show ?thesis using True by (simp add: position_def)
next
  case False
  have "upper key ks = lower key ks"
    by (rule upper_eqI) (use False lower_le [of key ks] lower_less [of _ key ks] lower_not_less [of key ks] in \<open>auto simp: less_imp_le\<close>)
  then show ?thesis using False by (auto simp: position_def Let_def)
qed

section \<open>Leaves and branches\<close>

lemma cell_bytes_at:
  assumes "length p = PAGE_SIZE" "cell_at p HDR (slot p i) c" "c \<noteq> []"
  shows "\<exists>rest. cell_bytes p i = Ok (c @ rest)"
proof -
  have "slot p i < PAGE_SIZE" using assms(2,3) by (cases c) (auto simp: cell_at_def)
  moreover have "drop (slot p i) p = c @ drop (length c) (drop (slot p i) p)"
    using assms(2) by (metis append_take_drop_id cell_at_def)
  ultimately show ?thesis using assms(2) by (auto simp: cell_bytes_def cell_at_def Let_def)
qed

lemma leaf_cell_law:
  assumes "length p = PAGE_SIZE" "leaf_ok c" "cell_at p HDR (slot p i) (enc_leaf c)"
  shows "leaf_cell p i = Ok c"
proof -
  have "enc_leaf c \<noteq> []" by (simp add: enc_leaf_def split: prod.split)
  then obtain rest where "cell_bytes p i = Ok (enc_leaf c @ rest)" using cell_bytes_at [OF assms(1,3)] by blast
  then show ?thesis by (simp add: leaf_cell_def leaf_cell_enc assms(2))
qed

lemma branch_cell_law:
  assumes "length p = PAGE_SIZE" "branch_ok c" "cell_at p HDR (slot p i) (enc_branch c)"
  shows "branch_cell p i = Ok c"
proof -
  have "length (enc_branch c) \<noteq> 0" by (cases c) (simp add: length_enc_branch)
  then obtain rest where "cell_bytes p i = Ok (enc_branch c @ rest)" using cell_bytes_at [OF assms(1,3)] by blast
  then show ?thesis by (simp add: branch_cell_def branch_cell_enc assms(2))
qed

interpretation leaf: cell_format KIND_LEAF enc_leaf leaf_ok fst
  by unfold_locales
    (auto simp: cell_len_def leaf_cell_len_def key_at_def leaf_cell_law length_enc_leaf split: prod.split)

interpretation branch: cell_format KIND_BRANCH enc_branch branch_ok fst
  by unfold_locales
    (auto simp: cell_len_def branch_cell_len_def key_at_def branch_cell_law length_enc_branch KIND_LEAF_def KIND_BRANCH_def split: prod.split)

abbreviation leaf_node :: "bytes \<Rightarrow> (bytes \<times> LeafVal) list \<Rightarrow> bool" where
  "leaf_node \<equiv> node KIND_LEAF enc_leaf leaf_ok"

abbreviation branch_node :: "bytes \<Rightarrow> (bytes \<times> u64) list \<Rightarrow> bool" where
  "branch_node \<equiv> node KIND_BRANCH enc_branch branch_ok"

lemma leaf_cell_node: "leaf_node p kvs \<Longrightarrow> i < length kvs \<Longrightarrow> leaf_cell p i = Ok (kvs ! i)"
  using leaf.node_cell_at [of p kvs i] by (intro leaf_cell_law) (auto simp: node_def page_cellsD(1) list_all_length)

lemma branch_cell_node: "branch_node p kcs \<Longrightarrow> i < length kcs \<Longrightarrow> branch_cell p i = Ok (kcs ! i)"
  using branch.node_cell_at [of p kcs i] by (intro branch_cell_law) (auto simp: node_def page_cellsD(1) list_all_length)

lemma branch_child_node:
  "branch_node p kcs \<Longrightarrow> i \<le> length kcs \<Longrightarrow> branch_child p i = Ok ((extra p # map snd kcs) ! i)"
  by (cases i) (auto simp: branch_child_def branch_cell_node split: prod.split)

lemma descent_index_node:
  "branch_node p kcs \<Longrightarrow> sorted_wrt (<) (map fst kcs) \<Longrightarrow> descent_index p key = Ok (upper key (map fst kcs))"
  by (simp add: descent_index_def branch.search_node position_upper)

lemma check_node_page:
  assumes "page_cells p bs" "kind p = KIND_LEAF \<or> kind p = KIND_BRANCH"
  shows "check_node p = Ok ()"
  using page_cellsD(2,3,5) [OF assms(1)] assms(2) by (auto simp: check_node_def Let_def sizes)

lemma check_node_leaf: "leaf_node p kvs \<Longrightarrow> check_node p = Ok ()"
  using check_node_page by (auto simp: node_def)

lemma check_node_branch: "branch_node p kcs \<Longrightarrow> check_node p = Ok ()"
  using check_node_page by (auto simp: node_def)

text \<open>A page whose cell area stays the same but for the bytes of one cell.\<close>

lemma page_cells_overwrite:
  assumes P: "page_cells p bs" and i: "i < length bs" and c: "length c = length (bs ! i)"
    and q: "q = put_at p (slot p i) c"
  shows "page_cells q (bs[i := c])" "same_head p q"
proof -
  note D = page_cellsD [OF P]
  have at: "cell_start p \<le> slot p i" "slot p i + length c \<le> PAGE_SIZE" using D(6) [OF i] c by (simp_all add: cell_at_def)
  have h: "HDR + length bs * 2 \<le> slot p i" "HDR \<le> slot p i" using at D(3) by simp_all
  have q': "length q = PAGE_SIZE" "nkeys q = length bs" "cell_start q = cell_start p" "same_head p q" "j < length bs \<Longrightarrow> slot q j = slot p j" for j
    using D(1,2) at h by (simp_all add: q same_head_def)
  show "same_head p q" by (fact q'(4))
  have b: "bytes_of (bs[i := c]) = bytes_of bs"
    using i c by (simp add: bytes_of_def map_update) (metis length_map list_update_id nth_map)
  show "page_cells q (bs[i := c])"
  proof (rule page_cellsI)
    fix j assume "j < length (bs[i := c])"
    then have j: "j < length bs" by simp
    show "cell_at q (cell_start q) (slot q j) (bs[i := c] ! j)"
    proof (cases "j = i")
      case True
      moreover have "take (length c) (drop (slot p i) q) = c" using at D(1) by (simp add: q)
      ultimately show ?thesis using at i q'(3) q'(5) [OF i] by (simp add: cell_at_def)
    next
      case False
      then have "slot p j + length (bs ! j) \<le> slot p i \<or> slot p i + length c \<le> slot p j" using D(7) [OF j i] c by auto
      then have "take (length (bs ! j)) (drop (slot p j) q) = take (length (bs ! j)) (drop (slot p j) p)"
        using at D(1) by (simp add: q sub_put_other)
      then show ?thesis
        using D(6) [OF j] False q'(3) q'(5) [OF j] by (simp add: cell_at_def)
    qed
  next
    fix j k assume "j < length (bs[i := c])" "k < length (bs[i := c])" "j \<noteq> k"
    moreover have "length (bs[i := c] ! m) = length (bs ! m)" for m using c i by (cases "m = i") simp_all
    ultimately show "slot q j + length (bs[i := c] ! j) \<le> slot q k \<or> slot q k + length (bs[i := c] ! k) \<le> slot q j"
      using D(7) [of j k] by (simp add: q'(5))
  qed (use q' D b in simp_all)
qed

lemma set_branch_child_node:
  assumes B: "branch_node p kcs" and i: "i \<le> length kcs"
  shows "\<exists>q. set_branch_child p i c = Ok q
    \<and> branch_node q (if i = 0 then kcs else kcs[i - 1 := (fst (kcs ! (i - 1)), c)]) \<and> extra q = (if i = 0 then c else extra p)"
proof (cases "i = 0")
  case True
  have "length p = PAGE_SIZE" using B by (auto simp: node_def page_cellsD(1))
  moreover have "drop off (set_extra p c) = drop off p" if "HDR \<le> off" for off
    using that \<open>length p = PAGE_SIZE\<close> by (simp add: set_extra_def drop_put_after sizes)
  ultimately have "page_cells (set_extra p c) (map enc_branch kcs)"
    using B cell_at_drop [of "cell_start p" "set_extra p c" p] page_cellsD(3) [of p "map enc_branch kcs"]
    by (auto simp: node_def page_cells_def disjoint_cells_def)
  then show ?thesis using True B \<open>length p = PAGE_SIZE\<close> by (simp add: set_branch_child_def node_def)
next
  case False
  define j where "j = i - 1"
  obtain k c0 where kc: "kcs ! j = (k, c0)" by (metis surj_pair)
  have j: "j < length kcs" "j < length (map enc_branch kcs)" using False i by (simp_all add: j_def)
  have P: "page_cells p (map enc_branch kcs)" "length p = PAGE_SIZE" using B page_cellsD(1) by (auto simp: node_def)
  have ok: "branch_ok (k, c0)" using B j kc by (metis list_all_length node_def)
  have at: "cell_at p HDR (slot p j) (enc_branch (k, c0))" using branch.node_cell_at [OF B j(1)] kc by simp
  define off where "off = slot p j"
  have len: "off + 2 + length k + 8 \<le> PAGE_SIZE" "HDR \<le> off" using at by (simp_all add: cell_at_def length_enc_branch off_def)
  have d: "take (length (enc_branch (k, c0))) (drop off p) = enc_branch (k, c0)" using at by (simp add: cell_at_def off_def)
  have klen: "u16_at p off = length k"
  proof -
    have "take 2 (drop off p) = take 2 (enc_branch (k, c0))" by (subst d [symmetric]) (simp add: length_enc_branch)
    then show ?thesis using ok by (simp add: u16_at_def enc_branch_def make_branch_cell_def branch_ok_def MAX_KEY_def unat_of_nat)
  qed
  have s: "set_branch_child p i c = Ok (put_at p (off + 2 + length k) (to_le_bytes c))"
    unfolding set_branch_child_def Let_def j_def [symmetric] off_def [symmetric] klen using False len P(2) by simp
  have "take (off + 2 + length k) p = take off p @ to_le_bytes (of_nat (length k) :: u16) @ k"
  proof -
    have "take (2 + length k) (drop off p) = take (2 + length k) (enc_branch (k, c0))" by (subst d [symmetric]) (simp add: length_enc_branch)
    then show ?thesis using take_add [of off "2 + length k" p] by (simp add: enc_branch_def make_branch_cell_def)
  qed
  then have e: "put_at p (off + 2 + length k) (to_le_bytes c) = put_at p off (enc_branch (k, c))"
    by (simp add: put_at_def enc_branch_def make_branch_cell_def add.assoc add.left_commute [of off 10])
  have l: "length (enc_branch (k, c)) = length (map enc_branch kcs ! j)" using j kc by (simp add: length_enc_branch)
  note O = page_cells_overwrite [OF P(1) j(2) l, of "put_at p off (enc_branch (k, c))", folded off_def, OF refl]
  have "branch_node (put_at p off (enc_branch (k, c))) (kcs[j := (k, c)])"
    using O B ok by (auto simp: node_def same_head_def map_update list_all_iff branch_ok_def dest: set_update_subset_insert [THEN subsetD])
  then show ?thesis unfolding j_def [symmetric] using False s e O(2) kc by (simp add: same_head_def)
qed

section \<open>Lemmas: the span nothing reads\<close>

text \<open>A page with the bytes between \<open>a\<close> and \<open>b\<close> zeroed, as the log replays it.\<close>

definition zero_span :: "nat \<times> nat \<Rightarrow> bytes \<Rightarrow> bytes" where
  "zero_span ab p = (case ab of (a, b) \<Rightarrow> take a p @ replicate (b - a) 0 @ drop b p)"

lemma used_span_le: "fst (used_span p) \<le> snd (used_span p) \<and> snd (used_span p) \<le> PAGE_SIZE"
  by (auto simp: used_span_def check_node_def Let_def split: if_splits)

lemma used_span_HDR: "length p = PAGE_SIZE \<Longrightarrow> HDR \<le> fst (used_span p)"
  by (auto simp: used_span_def sizes)

lemma zero_span_put:
  assumes "a \<le> b" "b \<le> length p"
  shows "zero_span (a, b) p = put_at p a (replicate (b - a) 0)"
  using assms by (simp add: zero_span_def put_at_def)

lemma zero_span_page:
  assumes P: "page_cells p bs" and K: "kind p = KIND_LEAF \<or> kind p = KIND_BRANCH"
  shows "page_cells (zero_span (used_span p) p) bs" "same_head p (zero_span (used_span p) p)"
proof -
  note D = page_cellsD [OF P]
  define a where "a = HDR + length bs * 2"
  define b where "b = cell_start p"
  have ab: "a \<le> b" "b \<le> PAGE_SIZE" "HDR \<le> a" "a + length (replicate (b - a) (0 :: byte)) \<le> PAGE_SIZE"
    using D(3,5) by (simp_all add: a_def b_def)
  have u: "used_span p = (a, b)" using K D(1,2) check_node_page [OF P K] by (simp add: used_span_def a_def b_def)
  have z: "zero_span (used_span p) p = put_at p a (replicate (b - a) 0)"
    unfolding u by (rule zero_span_put) (use ab D(1) in simp_all)
  define q where "q = put_at p a (replicate (b - a) (0 :: byte))"
  note S = put_cell_simps [OF D(1) ab(3,4), folded q_def]
  have d: "drop b q = drop b p" using ab D(1) by (simp add: q_def drop_put_after)
  have s: "slot q i = slot p i" if "i < length bs" for i by (rule S(6)) (use that in \<open>simp add: a_def\<close>)
  show "same_head p (zero_span (used_span p) p)" unfolding z q_def [symmetric] by (simp add: same_head_def S)
  show "page_cells (zero_span (used_span p) p) bs"
    unfolding z q_def [symmetric] using P cell_at_drop [OF d] s by (simp add: page_cells_def S disjoint_cells_def b_def)
qed

lemma zero_span_leaf: "leaf_node p kvs \<Longrightarrow> leaf_node (zero_span (used_span p) p) kvs"
  using zero_span_page [of p "map enc_leaf kvs"] by (simp add: node_def same_head_def)

lemma zero_span_branch: "branch_node p kcs \<Longrightarrow> branch_node (zero_span (used_span p) p) kcs"
  using zero_span_page [of p "map enc_branch kcs"] by (simp add: node_def same_head_def)

section \<open>New cells\<close>

lemma make_leaf_cell_inline:
  assumes "payload_len v = length (concat (pieces v))"
  shows "make_leaf_cell k v 0 = enc_leaf (k, Inline (concat (pieces v)))"
  using assms by (cases v) (auto simp: make_leaf_cell_def enc_leaf_def payload_len_def pieces_def EXTENT_REF_LEN_def EXTERNAL_REF_LEN_def)

lemma make_leaf_cell_overflow:
  assumes "pg \<noteq> 0" "\<And>s t n. v \<noteq> ExtentRef s t n" "\<And>h t. v \<noteq> ExternalRef h t"
  shows "make_leaf_cell k v pg = enc_leaf (k, Overflow (of_nat (payload_len v)) pg)"
  using assms by (cases v) (auto simp: make_leaf_cell_def enc_leaf_def)

lemma make_leaf_cell_extent: "make_leaf_cell k (ExtentRef sp len n) pg = enc_leaf (k, Extent sp len n)"
  by (simp add: make_leaf_cell_def enc_leaf_def)

lemma make_leaf_cell_external: "make_leaf_cell k (ExternalRef h len) pg = enc_leaf (k, External h len)"
  by (simp add: make_leaf_cell_def enc_leaf_def)

lemma node_empty:
  assumes "length p = PAGE_SIZE"
  shows "leaf_node (init_node p KIND_LEAF) []" "branch_node (init_node p KIND_BRANCH) []"
  using page_cells_init [OF assms] by (simp_all add: node_def)

section \<open>Properties\<close>

text \<open>
  C8: Where \<open>fits\<close> says that a new inline cell fits a leaf, \<open>insert_cell\<close> succeeds, compacting the page
  first if the free bytes are scattered, and every cell of the page then reads back: the new one at its
  slot, the others in their order with the values they had.
\<close>

theorem insert_cell_reads_back:
  assumes "leaf_node p kvs" "length k \<le> MAX_KEY" "length v \<le> MAX_INLINE_VAL" "i \<le> length kvs"
    "fits p (length (make_leaf_cell k (Flat v) 0)) = Ok True"
  shows "\<exists>q. insert_cell p i (make_leaf_cell k (Flat v) 0) = Ok q \<and> nkeys q = length kvs + 1 \<and> check_node q = Ok ()
    \<and> map (leaf_cell q) [0..<nkeys q] = map Ok (take i kvs @ (k, Inline v) # drop i kvs)"
proof -
  have e: "make_leaf_cell k (Flat v) 0 = enc_leaf (k, Inline v)"
    using make_leaf_cell_inline [of "Flat v" k] by (simp add: payload_len_def pieces_def)
  have ok: "leaf_ok (k, Inline v)" using assms(2,3) by (simp add: leaf_ok_def)
  have "length (enc_leaf (k, Inline v)) + 2 \<le> room (map enc_leaf kvs)"
    using assms(5) leaf.fits_node [OF assms(1), of "length (enc_leaf (k, Inline v))"] by (simp add: e length_enc_leaf)
  then obtain q where q: "insert_cell p i (enc_leaf (k, Inline v)) = Ok q" "leaf_node q (insert_at i (k, Inline v) kvs)"
    using leaf.insert_cell_node [OF assms(1) ok assms(4)] by metis
  have "map (leaf_cell q) [0..<nkeys q] = map Ok (insert_at i (k, Inline v) kvs)"
    using leaf_cell_node [OF q(2)] by (intro nth_equalityI) (simp_all add: leaf.node_nkeys [OF q(2)])
  then show ?thesis
    using q leaf.node_nkeys [OF q(2)] check_node_leaf [OF q(2)] assms(4) by (simp add: e insert_at_def)
qed

theorem insert_cell_reads_back_witness:
  "\<exists>q. insert_cell (init_node (replicate PAGE_SIZE 0) KIND_LEAF) 0 (make_leaf_cell [7] (Flat [1, 2]) 0) = Ok q
    \<and> nkeys q = 1 \<and> check_node q = Ok () \<and> map (leaf_cell q) [0..<nkeys q] = [Ok ([7], Inline [1, 2])]"
proof -
  let ?p = "init_node (replicate PAGE_SIZE 0) KIND_LEAF"
  have n: "leaf_node ?p []" by (rule node_empty) simp
  have f: "fits ?p (length (make_leaf_cell [7] (Flat [1, 2]) 0)) = Ok True"
    using leaf.fits_node [OF n, of 8] by (simp add: make_leaf_cell_def payload_len_def pieces_def room_def sizes)
  show ?thesis
    using insert_cell_reads_back [OF n _ _ _ f] by (simp add: MAX_KEY_def MAX_INLINE_VAL_def)
qed

text \<open>
  C39: On a leaf whose keys ascend, the binary search ends and tells the truth: \<open>At i\<close> only for the slot
  that has the key, \<open>Before i\<close> only when every key before slot \<open>i\<close> is smaller and every key from it on is
  larger.
\<close>

theorem search_sound:
  assumes "leaf_node p kvs" "sorted_wrt (<) (map fst kvs)"
  shows "\<exists>r. search p key = Ok r \<and> (case r of
      At i \<Rightarrow> i < length kvs \<and> fst (kvs ! i) = key
    | Before i \<Rightarrow> i \<le> length kvs \<and> (\<forall>j<i. fst (kvs ! j) < key) \<and> (\<forall>j. i \<le> j \<and> j < length kvs \<longrightarrow> key < fst (kvs ! j)))"
proof -
  let ?i = "lower key (map fst kvs)"
  have lt: "fst (kvs ! j) < key" if "j < ?i" for j
    using lower_less [OF that] lower_le [of key "map fst kvs"] that by simp
  have ge: "key \<le> fst (kvs ! j)" if "?i \<le> j" "j < length kvs" for j
    using lower_ge [OF assms(2) that(1)] that by simp
  have inc: "fst (kvs ! ?i) < fst (kvs ! j)" if "?i < j" "j < length kvs" for j
    using sorted_wrt_nth_less [OF assms(2) that(1)] that by simp
  have gt: "key < fst (kvs ! j)" if n: "\<not> (?i < length kvs \<and> fst (kvs ! ?i) = key)" and "?i \<le> j" "j < length kvs" for j
    using ge [OF le_refl] ge [OF that(2,3)] inc [of j] n that(2,3) by (cases "j = ?i") auto
  show ?thesis
    using leaf.search_node [OF assms, of key] lt gt lower_le [of key "map fst kvs"]
    by (auto simp: position_def Let_def)
qed

theorem search_sound_witness:
  "\<exists>r. search (init_node (replicate PAGE_SIZE 0) KIND_LEAF) [9] = Ok r \<and> (case r of At i \<Rightarrow> False | Before i \<Rightarrow> i = 0)"
  using search_sound [OF node_empty(1) [of "replicate PAGE_SIZE 0"], of "[9]"] by (auto split: found.splits)

end
