(* ===== verification/Wal_Record.thy ===== *)
theory Wal_Record
  imports Node_Page
begin

text \<open>
  The records of the write-ahead log (\<open>mpedb-core/src/shm.rs\<close>): a commit's page images, each whole or
  without the span no reader looks at, between a header and a trailer, under a checksum that covers the
  record's own offset. The digest (\<open>xxh3_64\<close>) is a parameter.
\<close>

section \<open>Layout\<close>

definition WAL_MAGIC :: u32 where "WAL_MAGIC = 0x334C4157"
definition WAL_RECORD_FIXED :: nat where "WAL_RECORD_FIXED = 4 + 8 + 4 + 4 + 4 * 8 + 8"
definition WAL_PAGE_ENTRY :: nat where "WAL_PAGE_ENTRY = 8 + 1 + PAGE_SIZE"
definition WAL_ENC_FULL :: byte where "WAL_ENC_FULL = 0"
definition WAL_ENC_SPLIT :: byte where "WAL_ENC_SPLIT = 1"
definition WAL_HDR_LEN :: nat where "WAL_HDR_LEN = 4 + 8 + 4 + 4"
definition WAL_TRAILER_LEN :: nat where "WAL_TRAILER_LEN = 4 * 8 + 8"

definition wal_checksum :: "(bytes \<Rightarrow> u64) \<Rightarrow> u64 \<Rightarrow> bytes \<Rightarrow> u64" where
  "wal_checksum digest offset rec = digest (to_le_bytes offset @ rec)"

datatype WalPageImg = Full bytes | Split bytes nat bytes

text \<open>Materialise an image over a page: the elided span is zero.\<close>

definition write_into :: "WalPageImg \<Rightarrow> bytes \<Rightarrow> bytes" where
  "write_into img dst = (case img of
     Full b \<Rightarrow> b
   | Split prefix suffix_start suffix \<Rightarrow> put_at (put_at (replicate (length dst) 0) 0 prefix) suffix_start suffix)"

record WalRecord =
  rec_txn_id :: u64
  rec_pages :: "(u64 \<times> WalPageImg) list"
  rec_catalog_root :: u64
  rec_freelist_root :: u64
  rec_high_water :: u64
  rec_extent_map_root :: u64
  rec_len :: u64

section \<open>Encoding\<close>

text \<open>\<open>full\<close> is the knob that disables the lean form.\<close>

definition append_wal_page_img :: "bool \<Rightarrow> bytes \<Rightarrow> u64 \<Rightarrow> bytes \<Rightarrow> bytes" where
  "append_wal_page_img full buf pid img =
    (let (prefix_end, suffix_start) = used_span img
     in if length img = PAGE_SIZE \<and> suffix_start - prefix_end > 4 \<and> \<not> full then
          buf @ to_le_bytes pid @ [WAL_ENC_SPLIT] @ to_le_bytes (of_nat prefix_end :: u16)
            @ to_le_bytes (of_nat suffix_start :: u16) @ take prefix_end img @ drop suffix_start img
        else buf @ to_le_bytes pid @ [WAL_ENC_FULL] @ img)"

definition encode_wal_record_into :: "(bytes \<Rightarrow> u64) \<Rightarrow> bool \<Rightarrow> u64 \<Rightarrow> u64 \<Rightarrow> (u64 \<times> bytes) list
    \<Rightarrow> u64 \<Rightarrow> u64 \<Rightarrow> u64 \<Rightarrow> u64 \<Rightarrow> bytes" where
  "encode_wal_record_into digest full offset txn_id pages catalog_root freelist_root high_water extent_map_root =
    (let n = length pages;
         buf = to_le_bytes WAL_MAGIC @ to_le_bytes txn_id @ to_le_bytes (of_nat n :: u32) @ to_le_bytes (0 :: u32);
         buf = foldl (\<lambda>buf (pid, img). append_wal_page_img full buf pid img) buf pages;
         buf = buf @ to_le_bytes catalog_root @ to_le_bytes freelist_root @ to_le_bytes high_water @ to_le_bytes extent_map_root;
         rec_len = of_nat (length buf + 8) :: u32;
         buf = put_at buf 16 (to_le_bytes rec_len);
         sum = wal_checksum digest offset buf
     in buf @ to_le_bytes sum)"

definition encode_wal_record :: "(bytes \<Rightarrow> u64) \<Rightarrow> bool \<Rightarrow> u64 \<Rightarrow> u64 \<Rightarrow> (u64 \<times> bytes) list
    \<Rightarrow> u64 \<Rightarrow> u64 \<Rightarrow> u64 \<Rightarrow> u64 \<Rightarrow> bytes" where
  "encode_wal_record digest full offset txn_id pages catalog_root freelist_root high_water extent_map_root =
    encode_wal_record_into digest full offset txn_id pages catalog_root freelist_root high_water extent_map_root"

section \<open>Decoding\<close>

definition u_at :: "bytes \<Rightarrow> nat \<Rightarrow> nat \<Rightarrow> 'a::len word option" where
  "u_at buf n pos = map_option from_le_bytes (get_range buf pos (pos + n))"

text \<open>One page entry at a position.\<close>

definition decode_entry :: "bytes \<Rightarrow> u64 \<Rightarrow> nat \<Rightarrow> ((u64 \<times> WalPageImg) \<times> nat) option" where
  "decode_entry buf page_count pos =
    Option.bind (u_at buf 8 pos) (\<lambda>pid.
    if pid \<ge> page_count then None
    else Option.bind (get_at buf (pos + 8)) (\<lambda>enc.
      let pos = pos + 9
      in if enc = WAL_ENC_FULL then
           Option.bind (get_range buf pos (pos + PAGE_SIZE)) (\<lambda>img. Some ((pid, Full img), pos + PAGE_SIZE))
         else if enc = WAL_ENC_SPLIT then
           Option.bind (u_at buf 2 pos) (\<lambda>prefix_len :: u16.
           Option.bind (u_at buf 2 (pos + 2)) (\<lambda>suffix_start :: u16.
           let prefix_len = unat prefix_len; suffix_start = unat suffix_start; pos = pos + 4
           in if prefix_len > suffix_start \<or> suffix_start > PAGE_SIZE then None
              else let suffix_len = PAGE_SIZE - suffix_start
                   in Option.bind (get_range buf pos (pos + prefix_len)) (\<lambda>prefix.
                      let pos = pos + prefix_len
                      in Option.bind (get_range buf pos (pos + suffix_len)) (\<lambda>suffix.
                         Some ((pid, Split prefix suffix_start suffix), pos + suffix_len)))))
         else None))"

fun decode_entries :: "bytes \<Rightarrow> u64 \<Rightarrow> nat \<Rightarrow> nat \<Rightarrow> ((u64 \<times> WalPageImg) list \<times> nat) option" where
  "decode_entries buf page_count 0 pos = Some ([], pos)"
| "decode_entries buf page_count (Suc n) pos =
    Option.bind (decode_entry buf page_count pos) (\<lambda>(e, pos).
    Option.bind (decode_entries buf page_count n pos) (\<lambda>(es, pos). Some (e # es, pos)))"

definition decode_wal_record :: "(bytes \<Rightarrow> u64) \<Rightarrow> bytes \<Rightarrow> u64 \<Rightarrow> u64 \<Rightarrow> WalRecord option" where
  "decode_wal_record digest buf offset page_count =
    Option.bind (u_at buf 4 0) (\<lambda>magic :: u32.
    if magic \<noteq> WAL_MAGIC then None
    else
      Option.bind (u_at buf 8 4) (\<lambda>txn_id.
      Option.bind (u_at buf 4 12) (\<lambda>n :: u32.
      let n_pages = unat n
      in if n_pages > unat page_count then None
         else
      Option.bind (u_at buf 4 16) (\<lambda>rl :: u32.
      let rec_len = unat rl
      in if rec_len < WAL_RECORD_FIXED \<or> rec_len > WAL_RECORD_FIXED + n_pages * WAL_PAGE_ENTRY then None
         else if length buf < rec_len then None
         else
      let body = take (rec_len - 8) buf
      in Option.bind (u_at buf 8 (rec_len - 8)) (\<lambda>sum.
         if wal_checksum digest offset body \<noteq> sum then None
         else
      Option.bind (decode_entries buf page_count n_pages WAL_HDR_LEN) (\<lambda>(pages, pos).
      if pos + WAL_TRAILER_LEN \<noteq> rec_len then None
      else
      Option.bind (u_at buf 8 pos) (\<lambda>catalog_root.
      Option.bind (u_at buf 8 (pos + 8)) (\<lambda>freelist_root.
      Option.bind (u_at buf 8 (pos + 16)) (\<lambda>high_water.
      Option.bind (u_at buf 8 (pos + 24)) (\<lambda>extent_map_root.
      Some \<lparr>rec_txn_id = txn_id, rec_pages = pages, rec_catalog_root = catalog_root, rec_freelist_root = freelist_root,
        rec_high_water = high_water, rec_extent_map_root = extent_map_root, rec_len = of_nat rec_len\<rparr>))))))))))"

section \<open>Lemmas: entries\<close>

lemma u_at_words [read_simps]:
  "at_pos buf p (to_le_bytes (a :: u64) @ r) \<Longrightarrow> u_at buf 8 p = Some a"
  "at_pos buf p (to_le_bytes (b :: u32) @ r) \<Longrightarrow> u_at buf 4 p = Some b"
  "at_pos buf p (to_le_bytes (c :: u16) @ r) \<Longrightarrow> u_at buf 2 p = Some c"
  using at_pos_get_range [of buf p "to_le_bytes a" r 8] at_pos_get_range [of buf p "to_le_bytes b" r 4]
    at_pos_get_range [of buf p "to_le_bytes c" r 2]
  by (simp_all add: u_at_def)

text \<open>The bytes of one entry, and the image the decoder finds in them.\<close>

definition lean_img :: "bool \<Rightarrow> bytes \<Rightarrow> WalPageImg" where
  "lean_img full img = (case used_span img of (a, b) \<Rightarrow>
     if b - a > 4 \<and> \<not> full then Split (take a img) b (drop b img) else Full img)"

definition entry :: "bool \<Rightarrow> u64 \<times> bytes \<Rightarrow> bytes" where
  "entry full e = (case e of (pid, img) \<Rightarrow> to_le_bytes pid @ (case lean_img full img of
     Full b \<Rightarrow> WAL_ENC_FULL # b
   | Split pre st suf \<Rightarrow> WAL_ENC_SPLIT # to_le_bytes (of_nat (length pre) :: u16) @ to_le_bytes (of_nat st :: u16) @ pre @ suf))"

lemma append_wal_page_img_entry:
  assumes "length img = PAGE_SIZE"
  shows "append_wal_page_img full buf pid img = buf @ entry full (pid, img)"
proof -
  obtain a b where ab: "used_span img = (a, b)" by (metis surj_pair)
  have "a \<le> b" "b \<le> PAGE_SIZE" using used_span_le [of img] by (simp_all add: ab)
  then have "length (take a img) = a" using assms by simp
  then show ?thesis
    using assms by (simp add: append_wal_page_img_def entry_def lean_img_def ab)
qed

lemma append_wal_pages:
  assumes "list_all (\<lambda>(pid, img). length img = PAGE_SIZE) pages"
  shows "foldl (\<lambda>buf (pid, img). append_wal_page_img full buf pid img) buf pages = buf @ concat (map (entry full) pages)"
  using assms by (induction pages arbitrary: buf) (auto simp: append_wal_page_img_entry)

lemma decode_entry_lean:
  assumes at: "at_pos buf p (entry full (pid, img) @ rest)" and img: "length img = PAGE_SIZE" and pid: "pid < page_count"
  shows "decode_entry buf page_count p = Some ((pid, lean_img full img), p + length (entry full (pid, img)))"
proof -
  obtain a b where ab: "used_span img = (a, b)" by (metis surj_pair)
  have le: "a \<le> b" "b \<le> PAGE_SIZE" using used_span_le [of img] by (simp_all add: ab)
  show ?thesis
  proof (cases "b - a > 4 \<and> \<not> full")
    case True
    have e: "entry full (pid, img) = to_le_bytes pid @ WAL_ENC_SPLIT # to_le_bytes (of_nat a :: u16) @ to_le_bytes (of_nat b :: u16) @ take a img @ drop b img"
      using True le img by (simp add: entry_def lean_img_def ab)
    have 1: "at_pos buf p (to_le_bytes pid @ WAL_ENC_SPLIT # to_le_bytes (of_nat a :: u16) @ to_le_bytes (of_nat b :: u16) @ take a img @ drop b img @ rest)"
      using at by (simp add: e)
    have 2: "at_pos buf (p + 8) (WAL_ENC_SPLIT # to_le_bytes (of_nat a :: u16) @ to_le_bytes (of_nat b :: u16) @ take a img @ drop b img @ rest)"
      by (rule at_pos_add [OF 1]) simp
    have 3: "at_pos buf (p + 9) (to_le_bytes (of_nat a :: u16) @ to_le_bytes (of_nat b :: u16) @ take a img @ drop b img @ rest)"
      using at_pos_Suc [OF 2] by (simp add: add.commute [of p 9])
    have 4: "at_pos buf (p + 9 + 2) (to_le_bytes (of_nat b :: u16) @ take a img @ drop b img @ rest)"
      by (rule at_pos_add [OF 3]) simp
    have 5: "at_pos buf (p + 9 + 4) (take a img @ drop b img @ rest)"
      using at_pos_add [OF 4, of 2] by (simp add: add.commute [of p])
    have 6: "at_pos buf (p + 9 + 4 + a) (drop b img @ rest)"
      by (rule at_pos_add [OF 5]) (use le img in simp)
    have r: "get_range buf (p + 9 + 4) (p + 9 + 4 + a) = Some (take a img)"
      "get_range buf (p + 9 + 4 + a) (p + 9 + 4 + a + (PAGE_SIZE - b)) = Some (drop b img)"
      using at_pos_get_range [OF 5, of a] at_pos_get_range [OF 6, of "PAGE_SIZE - b"] le img by simp_all
    have u: "unat (of_nat a :: u16) = a" "unat (of_nat b :: u16) = b" using le by (simp_all add: unat_of_nat sizes)
    have l: "p + length (entry full (pid, img)) = 13 + p + a + PAGE_SIZE - b" using le img by (simp add: e)
    show ?thesis
      unfolding l using True le pid r u_at_words(1) [OF 1] at_pos_get_at [OF 2] u_at_words(3) [OF 3] u_at_words(3) [OF 4]
      by (simp add: decode_entry_def Let_def u not_le lean_img_def ab WAL_ENC_SPLIT_def WAL_ENC_FULL_def)
  next
    case False
    then have e: "entry full (pid, img) = to_le_bytes pid @ WAL_ENC_FULL # img" "lean_img full img = Full img"
      by (auto simp: entry_def lean_img_def ab)
    have 1: "at_pos buf p (to_le_bytes pid @ WAL_ENC_FULL # img @ rest)" using at by (simp add: e)
    have 2: "at_pos buf (p + 8) (WAL_ENC_FULL # img @ rest)" by (rule at_pos_add [OF 1]) simp
    have 3: "at_pos buf (p + 9) (img @ rest)" using at_pos_Suc [OF 2] by (simp add: add.commute [of p 9])
    show ?thesis
      using pid u_at_words(1) [OF 1] at_pos_get_at [OF 2] at_pos_get_range [OF 3 img]
      by (simp add: decode_entry_def Let_def e img)
  qed
qed

lemma decode_entries_lean:
  assumes "at_pos buf p (concat (map (entry full) pages) @ rest)"
    "list_all (\<lambda>(pid, img). length img = PAGE_SIZE \<and> pid < page_count) pages"
  shows "decode_entries buf page_count (length pages) p
    = Some (map (\<lambda>(pid, img). (pid, lean_img full img)) pages, p + length (concat (map (entry full) pages)))"
  using assms
proof (induction pages arbitrary: p)
  case (Cons e pages)
  obtain pid img where e: "e = (pid, img)" by (metis surj_pair)
  have at: "at_pos buf p (entry full (pid, img) @ concat (map (entry full) pages) @ rest)" using Cons.prems(1) by (simp add: e)
  have "decode_entry buf page_count p = Some ((pid, lean_img full img), p + length (entry full (pid, img)))"
    by (rule decode_entry_lean [OF at]) (use Cons.prems(2) in \<open>simp_all add: e\<close>)
  then show ?case using Cons.IH [OF at_pos_add [OF at refl]] Cons.prems(2) by (simp add: e add.assoc)
qed simp

lemma entry_length:
  assumes "length img = PAGE_SIZE"
  shows "length (entry full (pid, img)) \<le> WAL_PAGE_ENTRY"
  using assms used_span_le [of img]
  by (auto simp: entry_def lean_img_def WAL_PAGE_ENTRY_def split: prod.split)

lemma entries_length:
  "list_all (\<lambda>(pid, img). length img = PAGE_SIZE) pages
    \<Longrightarrow> length (concat (map (entry full) pages)) \<le> length pages * WAL_PAGE_ENTRY"
proof (induction pages)
  case (Cons e pages)
  then show ?case using entry_length [of "snd e" full "fst e"] by (cases e) simp
qed simp

section \<open>Lemmas: records\<close>

definition record_body :: "bool \<Rightarrow> u64 \<Rightarrow> (u64 \<times> bytes) list \<Rightarrow> u64 \<Rightarrow> u64 \<Rightarrow> u64 \<Rightarrow> u64 \<Rightarrow> bytes" where
  "record_body full txn_id pages catalog_root freelist_root high_water extent_map_root =
    to_le_bytes WAL_MAGIC @ to_le_bytes txn_id @ to_le_bytes (of_nat (length pages) :: u32)
    @ to_le_bytes (of_nat (WAL_RECORD_FIXED + length (concat (map (entry full) pages))) :: u32)
    @ concat (map (entry full) pages)
    @ to_le_bytes catalog_root @ to_le_bytes freelist_root @ to_le_bytes high_water @ to_le_bytes extent_map_root"

lemma length_record_body:
  "length (record_body full t pages c f h e) + 8 = WAL_RECORD_FIXED + length (concat (map (entry full) pages))"
  by (simp add: record_body_def WAL_RECORD_FIXED_def)

lemma put_at_middle: "length xs = a \<Longrightarrow> length ys = length zs \<Longrightarrow> put_at (xs @ ys @ ws) a zs = xs @ zs @ ws"
  by (simp add: put_at_def)

lemma encode_wal_record_body:
  assumes "list_all (\<lambda>(pid, img). length img = PAGE_SIZE) pages"
  shows "encode_wal_record digest full off t pages c f h e
    = record_body full t pages c f h e @ to_le_bytes (wal_checksum digest off (record_body full t pages c f h e))"
proof -
  let ?es = "concat (map (entry full) pages)"
  have "put_at ((to_le_bytes WAL_MAGIC @ to_le_bytes t @ to_le_bytes (of_nat (length pages) :: u32)) @ to_le_bytes (0 :: u32)
      @ ?es @ to_le_bytes c @ to_le_bytes f @ to_le_bytes h @ to_le_bytes e) 16
      (to_le_bytes (of_nat (WAL_RECORD_FIXED + length ?es) :: u32)) = record_body full t pages c f h e"
    by (subst put_at_middle) (simp_all add: record_body_def)
  then show ?thesis
    by (simp add: encode_wal_record_def encode_wal_record_into_def append_wal_pages [OF assms] Let_def
      WAL_RECORD_FIXED_def add.commute)
qed

definition pages_ok :: "u64 \<Rightarrow> (u64 \<times> bytes) list \<Rightarrow> bool" where
  "pages_ok page_count pages \<longleftrightarrow> list_all (\<lambda>(pid, img). length img = PAGE_SIZE \<and> pid < page_count) pages
     \<and> length pages \<le> unat page_count \<and> WAL_RECORD_FIXED + length pages * WAL_PAGE_ENTRY < 2 ^ 32"

lemma pages_okD:
  assumes "pages_ok page_count pages"
  shows "list_all (\<lambda>(pid, img). length img = PAGE_SIZE) pages" "length pages < 2 ^ 32"
    "WAL_RECORD_FIXED + length (concat (map (entry full) pages)) < 2 ^ 32"
    "length (concat (map (entry full) pages)) \<le> length pages * WAL_PAGE_ENTRY"
proof -
  show a: "list_all (\<lambda>(pid, img). length img = PAGE_SIZE) pages"
    using assms by (auto simp: pages_ok_def list_all_iff)
  show "length pages < 2 ^ 32" using assms by (simp add: pages_ok_def WAL_PAGE_ENTRY_def PAGE_SIZE_def)
  show "length (concat (map (entry full) pages)) \<le> length pages * WAL_PAGE_ENTRY" by (rule entries_length [OF a])
  then show "WAL_RECORD_FIXED + length (concat (map (entry full) pages)) < 2 ^ 32"
    using assms by (simp add: pages_ok_def)
qed

lemma length_encode_wal_record:
  assumes "pages_ok page_count pages"
  shows "length (encode_wal_record digest full off t pages c f h e) = WAL_RECORD_FIXED + length (concat (map (entry full) pages))"
  using length_record_body [of full t pages c f h e] by (simp add: encode_wal_record_body [OF pages_okD(1) [OF assms]])

lemma decode_encode_wal_record:
  assumes ok: "pages_ok page_count pages"
  shows "decode_wal_record digest (encode_wal_record digest full off t pages c f h e @ rest) off page_count
    = Some \<lparr>rec_txn_id = t, rec_pages = map (\<lambda>(pid, img). (pid, lean_img full img)) pages, rec_catalog_root = c,
        rec_freelist_root = f, rec_high_water = h, rec_extent_map_root = e,
        rec_len = of_nat (length (encode_wal_record digest full off t pages c f h e))\<rparr>"
proof -
  note K = pages_okD [OF ok]
  let ?body = "record_body full t pages c f h e"
  let ?sum = "wal_checksum digest off ?body"
  let ?es = "concat (map (entry full) pages)"
  define len where "len = WAL_RECORD_FIXED + length ?es"
  define buf where "buf = encode_wal_record digest full off t pages c f h e @ rest"
  have enc: "encode_wal_record digest full off t pages c f h e = ?body @ to_le_bytes ?sum"
    by (rule encode_wal_record_body [OF K(1)])
  have lenb: "length ?body = len - 8" "8 \<le> len" "len = 60 + length ?es"
    using length_record_body [of full t pages c f h e] by (simp_all add: len_def WAL_RECORD_FIXED_def)
  have lenr: "length (encode_wal_record digest full off t pages c f h e) = len"
    by (simp add: length_encode_wal_record [OF ok] len_def)
  define tr where "tr = to_le_bytes c @ to_le_bytes f @ to_le_bytes h @ to_le_bytes e @ to_le_bytes ?sum @ rest"
  have buf: "buf = to_le_bytes WAL_MAGIC @ to_le_bytes t @ to_le_bytes (of_nat (length pages) :: u32) @ to_le_bytes (of_nat len :: u32) @ ?es @ tr"
    by (simp add: buf_def enc record_body_def tr_def len_def)
  have 0: "at_pos buf 0 (to_le_bytes WAL_MAGIC @ to_le_bytes t @ to_le_bytes (of_nat (length pages) :: u32) @ to_le_bytes (of_nat len :: u32) @ ?es @ tr)"
    unfolding buf [symmetric] by simp
  have 1: "at_pos buf 4 (to_le_bytes t @ to_le_bytes (of_nat (length pages) :: u32) @ to_le_bytes (of_nat len :: u32) @ ?es @ tr)"
    using at_pos_add [OF 0, of 4] by simp
  have 2: "at_pos buf 12 (to_le_bytes (of_nat (length pages) :: u32) @ to_le_bytes (of_nat len :: u32) @ ?es @ tr)"
    using at_pos_add [OF 1, of 8] by simp
  have 3: "at_pos buf 16 (to_le_bytes (of_nat len :: u32) @ ?es @ tr)" using at_pos_add [OF 2, of 4] by simp
  have 4: "at_pos buf 20 (?es @ tr)" using at_pos_add [OF 3, of 4] by simp
  define pos where "pos = 20 + length ?es"
  have 5: "at_pos buf pos (to_le_bytes c @ to_le_bytes f @ to_le_bytes h @ to_le_bytes e @ to_le_bytes ?sum @ rest)"
    using at_pos_add [OF 4 refl] by (simp add: pos_def tr_def)
  have 6: "at_pos buf (pos + 8) (to_le_bytes f @ to_le_bytes h @ to_le_bytes e @ to_le_bytes ?sum @ rest)" by (rule at_pos_add [OF 5]) simp
  have 7: "at_pos buf (pos + 16) (to_le_bytes h @ to_le_bytes e @ to_le_bytes ?sum @ rest)" using at_pos_add [OF 6, of 8] by (simp add: add.commute)
  have 8: "at_pos buf (pos + 24) (to_le_bytes e @ to_le_bytes ?sum @ rest)" using at_pos_add [OF 7, of 8] by (simp add: add.commute)
  have 9: "at_pos buf (len - 8) (to_le_bytes ?sum @ rest)" using at_pos_add [OF 8, of 8] by (simp add: add.commute pos_def lenb)
  have u: "unat (of_nat (length pages) :: u32) = length pages" "unat (of_nat len :: u32) = len"
    using K(2) K(3) [of full, folded len_def] by (simp_all add: unat_of_nat)
  have body: "take (len - 8) buf = ?body" using lenb by (simp add: buf_def enc)
  have es: "decode_entries buf page_count (length pages) 20 = Some (map (\<lambda>(pid, img). (pid, lean_img full img)) pages, pos)"
    using decode_entries_lean [OF 4] ok by (simp add: pages_ok_def pos_def)
  have L: "length pages \<le> unat page_count" "\<not> len < WAL_RECORD_FIXED" "\<not> len > WAL_RECORD_FIXED + length pages * WAL_PAGE_ENTRY" "\<not> length buf < len"
    using ok K(4) [of full] lenr by (simp_all add: pages_ok_def len_def buf_def)
  have P: "pos + WAL_TRAILER_LEN = len" by (simp add: pos_def WAL_TRAILER_LEN_def lenb(3))
  note U = u_at_words(2) [OF 0] u_at_words(1) [OF 1] u_at_words(2) [OF 2] u_at_words(2) [OF 3] u_at_words(1) [OF 5]
    u_at_words(1) [OF 6] u_at_words(1) [OF 7] u_at_words(1) [OF 8] u_at_words(1) [OF 9]
  have H: "WAL_HDR_LEN = 20" by (simp add: WAL_HDR_LEN_def)
  show ?thesis
    unfolding buf_def [symmetric] decode_wal_record_def U lenr
    using L P by (simp add: u body es H U Let_def)
qed

section \<open>Lemmas: replayed images\<close>

text \<open>The chunk of an overflow page.\<close>

definition chunk :: "bytes \<Rightarrow> bytes" where
  "chunk p = take (u16_at p 6) (drop HDR p)"

text \<open>
  What the tree code can see of a page: its kind, its leftmost child or next page, the cells of a node,
  the chunk of an overflow page, and every byte of anything else.
\<close>

definition same_view :: "bytes \<Rightarrow> bytes \<Rightarrow> bool" where
  "same_view p q \<longleftrightarrow> length q = PAGE_SIZE \<and> kind q = kind p \<and> extra q = extra p
     \<and> (\<forall>kvs. leaf_node p kvs \<longrightarrow> leaf_node q kvs) \<and> (\<forall>kcs. branch_node p kcs \<longrightarrow> branch_node q kcs)
     \<and> (kind p = KIND_OVERFLOW \<longrightarrow> u16_at q 6 = u16_at p 6 \<and> (u16_at p 6 \<le> OVERFLOW_CAP \<longrightarrow> chunk q = chunk p))
     \<and> (kind p \<notin> {KIND_LEAF, KIND_BRANCH, KIND_OVERFLOW} \<longrightarrow> q = p)"

lemma same_view_refl: "length p = PAGE_SIZE \<Longrightarrow> same_view p p"
  by (simp add: same_view_def)

lemma same_view_trans: "same_view p q \<Longrightarrow> same_view q r \<Longrightarrow> same_view p r"
  by (auto simp: same_view_def)

lemma zero_span_view:
  assumes l: "length p = PAGE_SIZE"
  shows "same_view p (zero_span (used_span p) p)"
proof -
  obtain a b where ab: "used_span p = (a, b)" by (metis surj_pair)
  have le: "a \<le> b" "b \<le> PAGE_SIZE" "HDR \<le> a" using used_span_le [of p] used_span_HDR [OF l] by (simp_all add: ab)
  define q where "q = put_at p a (replicate (b - a) (0 :: byte))"
  have z: "zero_span (used_span p) p = q" unfolding ab q_def by (rule zero_span_put) (use le l in simp_all)
  have len: "a + length (replicate (b - a) (0 :: byte)) \<le> PAGE_SIZE" using le by simp
  note S = put_cell_simps [OF l le(3) len, folded q_def]
  have u: "u16_at q 6 = u16_at p 6" using le l by (simp add: q_def u16_at_put_other sizes)
  have "chunk q = chunk p" if "kind p = KIND_OVERFLOW" "u16_at p 6 \<le> OVERFLOW_CAP"
  proof -
    have "a = HDR + u16_at p 6"
      using that ab l by (auto simp: used_span_def check_node_def KIND_OVERFLOW_def KIND_LEAF_def KIND_BRANCH_def OVERFLOW_CAP_def sizes)
    then show ?thesis unfolding chunk_def u using le l by (simp add: q_def sub_put_other)
  qed
  moreover have "q = p" if "kind p \<notin> {KIND_LEAF, KIND_BRANCH, KIND_OVERFLOW}"
    using that ab l by (simp add: used_span_def q_def put_at_def)
  ultimately show ?thesis
    using S u zero_span_leaf [of p] zero_span_branch [of p] by (auto simp: same_view_def z)
qed

lemma write_into_lean:
  assumes l: "length img = PAGE_SIZE" and d: "length dst = PAGE_SIZE"
  shows "same_view img (write_into (lean_img full img) dst)"
proof -
  obtain a b where ab: "used_span img = (a, b)" by (metis surj_pair)
  have le: "a \<le> b" "b \<le> PAGE_SIZE" using used_span_le [of img] by (simp_all add: ab)
  show ?thesis
  proof (cases "b - a > 4 \<and> \<not> full")
    case True
    have "write_into (lean_img full img) dst = zero_span (a, b) img"
      using True le l d by (simp add: write_into_def lean_img_def ab put_at_def zero_span_def)
    then show ?thesis using zero_span_view [OF l] by (simp add: ab)
  next
    case False
    then have "lean_img full img = Full img" by (auto simp: lean_img_def ab)
    then show ?thesis using same_view_refl [OF l] by (simp add: write_into_def)
  qed
qed

section \<open>Properties\<close>

text \<open>
  C5: A commit record decodes at the offset it was encoded for, whatever follows it: the transaction id,
  the four roots and the page ids are those of the commit, and every replayed page, though the log may
  omit its unread span, shows the tree code exactly what the committed page did.
\<close>

theorem wal_record_round_trip:
  assumes "pages_ok page_count pages"
  shows "\<exists>r. decode_wal_record digest (encode_wal_record digest full off txn pages c f h e @ rest) off page_count = Some r
    \<and> rec_txn_id r = txn \<and> rec_catalog_root r = c \<and> rec_freelist_root r = f \<and> rec_high_water r = h \<and> rec_extent_map_root r = e
    \<and> unat (rec_len r) = length (encode_wal_record digest full off txn pages c f h e)
    \<and> list_all2 (\<lambda>(i, img) (j, w). i = j \<and> (\<forall>dst. length dst = PAGE_SIZE \<longrightarrow> same_view img (write_into w dst))) pages (rec_pages r)"
proof -
  let ?enc = "encode_wal_record digest full off txn pages c f h e"
  have "unat (of_nat (length ?enc) :: u64) = length ?enc"
    using pages_okD(3) [OF assms, of full] unfolding length_encode_wal_record [OF assms]
    by (subst unat_of_nat) simp
  moreover have "list_all2 (\<lambda>(i, img) (j, w). i = j \<and> (\<forall>dst. length dst = PAGE_SIZE \<longrightarrow> same_view img (write_into w dst)))
      pages (map (\<lambda>(pid, img). (pid, lean_img full img)) pages)"
    using pages_okD(1) [OF assms] by (auto simp: list_all2_conv_all_nth list_all_length write_into_lean split: prod.splits)
  ultimately show ?thesis unfolding decode_encode_wal_record [OF assms] by auto
qed

theorem wal_record_round_trip_witness:
  "\<exists>r. decode_wal_record (\<lambda>bs. of_nat (length bs)) (encode_wal_record (\<lambda>bs. of_nat (length bs)) False 64 5 [(9, init_node (replicate PAGE_SIZE 0) KIND_LEAF)] 9 0 10 0 @ [1, 2]) 64 16 = Some r
    \<and> rec_txn_id r = 5 \<and> map fst (rec_pages r) = [9]"
proof -
  have "length (init_node (replicate PAGE_SIZE 0) KIND_LEAF) = PAGE_SIZE"
    using page_cells_init(1) [of "replicate PAGE_SIZE 0"] page_cellsD(1) by fastforce
  then have "pages_ok 16 [(9, init_node (replicate PAGE_SIZE 0) KIND_LEAF)]"
    by (simp add: pages_ok_def WAL_RECORD_FIXED_def WAL_PAGE_ENTRY_def sizes)
  from wal_record_round_trip [OF this, of "\<lambda>bs. of_nat (length bs)" False 64 5 9 0 10 0 "[1, 2]"]
  show ?thesis by (auto simp: list_all2_Cons1)
qed

end
