(* ===== verification/Meta_Page.thy ===== *)
theory Meta_Page
  imports Node_Page
begin

text \<open>
  The two meta pages (\<open>mpedb-core/src/shm/pages.rs\<close>): a commit is published by storing its roots and then
  a checksum into the slot that does not hold the newest meta. The mapping is a function from page ids to
  pages; the digest (\<open>xxh3_64\<close>) is a parameter.
\<close>

section \<open>Layout\<close>

definition META_PAGE_A :: u64 where "META_PAGE_A = 0"
definition META_PAGE_B :: u64 where "META_PAGE_B = 1"
definition M_TXN_ID :: nat where "M_TXN_ID = 64"
definition M_CATALOG_ROOT :: nat where "M_CATALOG_ROOT = 72"
definition M_FREELIST_ROOT :: nat where "M_FREELIST_ROOT = 80"
definition M_HIGH_WATER :: nat where "M_HIGH_WATER = 88"
definition M_EXTENT_MAP_ROOT :: nat where "M_EXTENT_MAP_ROOT = 96"
definition M_SCHEMA_GEN :: nat where "M_SCHEMA_GEN = 104"
definition M_CHECKSUM :: nat where "M_CHECKSUM = 112"
definition META_LOGICAL_LEN :: nat where "META_LOGICAL_LEN = 112"

lemmas meta_layout = META_PAGE_A_def META_PAGE_B_def M_TXN_ID_def M_CATALOG_ROOT_def M_FREELIST_ROOT_def M_HIGH_WATER_def
  M_EXTENT_MAP_ROOT_def M_SCHEMA_GEN_def M_CHECKSUM_def META_LOGICAL_LEN_def

record MetaSnapshot =
  slot_of :: u64
  txn_id :: u64
  catalog_root :: u64
  freelist_root :: u64
  high_water :: u64
  extent_map_root :: u64
  schema_gen :: u64

type_synonym pagemap = "u64 \<Rightarrow> bytes"

text \<open>Loads and stores of an aligned word of a page.\<close>

definition load64 :: "bytes \<Rightarrow> nat \<Rightarrow> u64" where
  "load64 p off = from_le_bytes (take 8 (drop off p))"

definition store64 :: "bytes \<Rightarrow> nat \<Rightarrow> u64 \<Rightarrow> bytes" where
  "store64 p off v = put_at p off (to_le_bytes v)"

section \<open>Operations\<close>

definition meta_checksum_input :: "bytes \<Rightarrow> MetaSnapshot \<Rightarrow> bytes" where
  "meta_checksum_input p s =
    (let buf = put_at (replicate META_LOGICAL_LEN 0) 0 (take M_TXN_ID p);
         buf = put_at buf M_TXN_ID (to_le_bytes (txn_id s));
         buf = put_at buf M_CATALOG_ROOT (to_le_bytes (catalog_root s));
         buf = put_at buf M_FREELIST_ROOT (to_le_bytes (freelist_root s));
         buf = put_at buf M_HIGH_WATER (to_le_bytes (high_water s));
         buf = put_at buf M_EXTENT_MAP_ROOT (to_le_bytes (extent_map_root s))
     in put_at buf M_SCHEMA_GEN (to_le_bytes (schema_gen s)))"

text \<open>The fields a slot shows, checksummed or not.\<close>

definition slot_body :: "pagemap \<Rightarrow> u64 \<Rightarrow> MetaSnapshot" where
  "slot_body mem s = (let p = mem s in
    \<lparr>slot_of = s, txn_id = load64 p M_TXN_ID, catalog_root = load64 p M_CATALOG_ROOT, freelist_root = load64 p M_FREELIST_ROOT,
     high_water = load64 p M_HIGH_WATER, extent_map_root = load64 p M_EXTENT_MAP_ROOT, schema_gen = load64 p M_SCHEMA_GEN\<rparr>)"

definition read_meta_slot :: "(bytes \<Rightarrow> u64) \<Rightarrow> pagemap \<Rightarrow> u64 \<Rightarrow> MetaSnapshot option" where
  "read_meta_slot digest mem s =
    (let checksum = load64 (mem s) M_CHECKSUM; snap = slot_body mem s;
         expect = digest (meta_checksum_input (mem s) snap)
     in if expect = checksum then Some snap else None)"

definition newer :: "MetaSnapshot option \<Rightarrow> MetaSnapshot option \<Rightarrow> MetaSnapshot result" where
  "newer a b = (case (a, b) of
     (Some a, Some b) \<Rightarrow> Ok (if txn_id a \<ge> txn_id b then a else b)
   | (Some m, None) \<Rightarrow> Ok m
   | (None, Some m) \<Rightarrow> Ok m
   | (None, None) \<Rightarrow> Err Corrupt)"

definition gated :: "u64 \<Rightarrow> MetaSnapshot option \<Rightarrow> MetaSnapshot option" where
  "gated gate m = Option.bind m (\<lambda>m. if txn_id m \<le> gate then Some m else None)"

definition newest_meta_gated :: "(bytes \<Rightarrow> u64) \<Rightarrow> pagemap \<Rightarrow> u64 \<Rightarrow> MetaSnapshot result" where
  "newest_meta_gated digest mem gate =
    newer (gated gate (read_meta_slot digest mem META_PAGE_A)) (gated gate (read_meta_slot digest mem META_PAGE_B))"

definition newest_meta_ungated :: "(bytes \<Rightarrow> u64) \<Rightarrow> pagemap \<Rightarrow> MetaSnapshot result" where
  "newest_meta_ungated digest mem = newer (read_meta_slot digest mem META_PAGE_A) (read_meta_slot digest mem META_PAGE_B)"

text \<open>The stores of a publication, in their order; the checksum is the last.\<close>

definition meta_stores :: "(bytes \<Rightarrow> u64) \<Rightarrow> bytes \<Rightarrow> u64 \<Rightarrow> MetaSnapshot \<Rightarrow> (nat \<times> u64) list" where
  "meta_stores digest p sl s =
    [(M_TXN_ID, txn_id s), (M_CATALOG_ROOT, catalog_root s), (M_FREELIST_ROOT, freelist_root s), (M_HIGH_WATER, high_water s),
     (M_EXTENT_MAP_ROOT, extent_map_root s), (M_SCHEMA_GEN, schema_gen s),
     (M_CHECKSUM, digest (meta_checksum_input p (s\<lparr>slot_of := sl\<rparr>)))]"

definition store_all :: "bytes \<Rightarrow> (nat \<times> u64) list \<Rightarrow> bytes" where
  "store_all p xs = foldl (\<lambda>p (off, v). store64 p off v) p xs"

definition write_meta_slot :: "(bytes \<Rightarrow> u64) \<Rightarrow> u64 \<Rightarrow> MetaSnapshot \<Rightarrow> pagemap \<Rightarrow> u64 \<times> pagemap" where
  "write_meta_slot digest prev_slot s mem =
    (let sl = 1 - prev_slot in (sl, mem(sl := store_all (mem sl) (meta_stores digest (mem sl) sl s))))"

section \<open>Lemmas\<close>

lemma length_store64 [simp]: "off + 8 \<le> length p \<Longrightarrow> length (store64 p off v) = length p"
  by (simp add: store64_def)

lemma load_store64:
  assumes "off + 8 \<le> length p" "off' = off \<or> off' + 8 \<le> off \<or> off + 8 \<le> off'"
  shows "load64 (store64 p off v) off' = (if off' = off then v else load64 p off')"
  using assms take_drop_put_at [of off "to_le_bytes v" p] by (auto simp: load64_def store64_def sub_put_other)

lemma take_store64: "n \<le> off \<Longrightarrow> off + 8 \<le> length p \<Longrightarrow> take n (store64 p off v) = take n p"
  by (simp add: store64_def put_at_def min_absorb1)

lemma put_at_append: "length xs = a \<Longrightarrow> put_at (xs @ ys) a zs = xs @ zs @ drop (length zs) ys"
  by (simp add: put_at_def)

lemma meta_checksum_input_eq:
  assumes "length p = PAGE_SIZE"
  shows "meta_checksum_input p s = take 64 p @ to_le_bytes (txn_id s) @ to_le_bytes (catalog_root s) @ to_le_bytes (freelist_root s)
    @ to_le_bytes (high_water s) @ to_le_bytes (extent_map_root s) @ to_le_bytes (schema_gen s)"
proof -
  have l: "length (take 64 p) = 64" using assms by (simp add: sizes)
  have 0: "put_at (replicate 112 (0 :: byte)) 0 (take 64 p) = take 64 p @ replicate 48 0"
    using put_at_append [of "[]" 0 "replicate 112 (0 :: byte)" "take 64 p"] l by simp
  have st: "put_at (xs @ replicate n (0 :: byte)) a (to_le_bytes w) = (xs @ to_le_bytes w) @ replicate (n - 8) 0"
    if "length xs = a" for xs a n and w :: u64
    using put_at_append [OF that] by simp
  show ?thesis
    unfolding meta_checksum_input_def Let_def meta_layout 0
    by (subst st, use l in simp)+ simp
qed

lemma meta_checksum_input_cong:
  "length p = PAGE_SIZE \<Longrightarrow> length q = PAGE_SIZE \<Longrightarrow> take 64 q = take 64 p \<Longrightarrow> txn_id s = txn_id t \<Longrightarrow> catalog_root s = catalog_root t
    \<Longrightarrow> freelist_root s = freelist_root t \<Longrightarrow> high_water s = high_water t \<Longrightarrow> extent_map_root s = extent_map_root t
    \<Longrightarrow> schema_gen s = schema_gen t \<Longrightarrow> meta_checksum_input q s = meta_checksum_input p t"
  by (simp add: meta_checksum_input_eq)

text \<open>Stores into the fields leave the frozen part alone.\<close>

definition in_fields :: "nat \<Rightarrow> (nat \<times> u64) list \<Rightarrow> bool" where
  "in_fields hi xs \<longleftrightarrow> list_all (\<lambda>(off, v). 64 \<le> off \<and> off \<le> hi) xs"

lemma in_fields_take: "in_fields hi xs \<Longrightarrow> in_fields hi (take k xs)"
  by (auto simp: in_fields_def list_all_iff dest: in_set_takeD)

lemma store_all_frozen:
  "in_fields 112 xs \<Longrightarrow> length p = PAGE_SIZE \<Longrightarrow> length (store_all p xs) = PAGE_SIZE \<and> take 64 (store_all p xs) = take 64 p"
proof (induction xs arbitrary: p)
  case (Cons x xs)
  obtain off v where x: "x = (off, v)" by (metis surj_pair)
  have "64 \<le> off" "off \<le> 112" "in_fields 112 xs" using Cons.prems(1) by (simp_all add: x in_fields_def)
  then show ?case using Cons.IH [of "store64 p off v"] Cons.prems(2) by (simp add: store_all_def x take_store64 sizes)
qed (simp add: store_all_def)

lemma store_all_checksum:
  "in_fields 104 xs \<Longrightarrow> length p = PAGE_SIZE \<Longrightarrow> load64 (store_all p xs) M_CHECKSUM = load64 p M_CHECKSUM"
proof (induction xs arbitrary: p)
  case (Cons x xs)
  obtain off v where x: "x = (off, v)" by (metis surj_pair)
  have "64 \<le> off" "off \<le> 104" "in_fields 104 xs" using Cons.prems(1) by (simp_all add: x in_fields_def)
  then show ?case using Cons.IH [of "store64 p off v"] Cons.prems(2) by (simp add: store_all_def x load_store64 M_CHECKSUM_def sizes)
qed (simp add: store_all_def)

lemma in_fields_meta: "in_fields 112 (meta_stores digest p sl s)" "in_fields 104 (take 6 (meta_stores digest p sl s))"
  by (simp_all add: in_fields_def meta_stores_def meta_layout)

lemma store_all_meta:
  assumes p: "length p = PAGE_SIZE"
  shows "length (store_all p (take k (meta_stores digest p sl s))) = PAGE_SIZE"
    "take 64 (store_all p (take k (meta_stores digest p sl s))) = take 64 p"
    "off \<in> {M_TXN_ID, M_CATALOG_ROOT, M_FREELIST_ROOT, M_HIGH_WATER, M_EXTENT_MAP_ROOT, M_SCHEMA_GEN, M_CHECKSUM}
      \<Longrightarrow> load64 (store_all p (meta_stores digest p sl s)) off = the (map_of (meta_stores digest p sl s) off)"
    "k < 7 \<Longrightarrow> load64 (store_all p (take k (meta_stores digest p sl s))) M_CHECKSUM = load64 p M_CHECKSUM"
proof -
  show "length (store_all p (take k (meta_stores digest p sl s))) = PAGE_SIZE"
    "take 64 (store_all p (take k (meta_stores digest p sl s))) = take 64 p"
    using store_all_frozen [OF in_fields_take [OF in_fields_meta(1)] p] by blast+
  show "load64 (store_all p (meta_stores digest p sl s)) off = the (map_of (meta_stores digest p sl s) off)"
    if "off \<in> {M_TXN_ID, M_CATALOG_ROOT, M_FREELIST_ROOT, M_HIGH_WATER, M_EXTENT_MAP_ROOT, M_SCHEMA_GEN, M_CHECKSUM}"
    using that p by (auto simp: store_all_def meta_stores_def meta_layout load_store64 sizes)
  show "load64 (store_all p (take k (meta_stores digest p sl s))) M_CHECKSUM = load64 p M_CHECKSUM" if "k < 7"
  proof -
    have "take k (meta_stores digest p sl s) = take k (take 6 (meta_stores digest p sl s))" using that by simp
    then show ?thesis using store_all_checksum [OF in_fields_take [OF in_fields_meta(2)] p, of k] by simp
  qed
qed

lemma read_written_slot:
  assumes "length (mem sl) = PAGE_SIZE"
  shows "read_meta_slot digest (mem(sl := store_all (mem sl) (meta_stores digest (mem sl) sl s))) sl = Some (s\<lparr>slot_of := sl\<rparr>)"
proof -
  let ?q = "store_all (mem sl) (meta_stores digest (mem sl) sl s)"
  have q: "length ?q = PAGE_SIZE" "take 64 ?q = take 64 (mem sl)"
    using store_all_meta(1,2) [OF assms, of 7 digest sl s] by (simp_all add: meta_stores_def)
  note L = store_all_meta(3) [OF assms, of _ digest sl s]
  have f: "load64 ?q M_TXN_ID = txn_id s" "load64 ?q M_CATALOG_ROOT = catalog_root s" "load64 ?q M_FREELIST_ROOT = freelist_root s"
    "load64 ?q M_HIGH_WATER = high_water s" "load64 ?q M_EXTENT_MAP_ROOT = extent_map_root s" "load64 ?q M_SCHEMA_GEN = schema_gen s"
    "load64 ?q M_CHECKSUM = digest (meta_checksum_input (mem sl) (s\<lparr>slot_of := sl\<rparr>))"
    by (simp_all add: L) (simp_all add: meta_stores_def meta_layout)
  have b: "slot_body (mem(sl := ?q)) sl = s\<lparr>slot_of := sl\<rparr>" by (simp add: slot_body_def Let_def f)
  have "meta_checksum_input ?q (s\<lparr>slot_of := sl\<rparr>) = meta_checksum_input (mem sl) (s\<lparr>slot_of := sl\<rparr>)"
    by (rule meta_checksum_input_cong [OF assms q]) simp_all
  then show ?thesis by (simp add: read_meta_slot_def Let_def b f)
qed

text \<open>A slot validates against all of its logical bytes: the checksum covers the frozen part and every field.\<close>

lemma logical_bytes:
  assumes "length p = PAGE_SIZE"
  shows "take META_LOGICAL_LEN p = take 64 p @ to_le_bytes (load64 p M_TXN_ID) @ to_le_bytes (load64 p M_CATALOG_ROOT)
    @ to_le_bytes (load64 p M_FREELIST_ROOT) @ to_le_bytes (load64 p M_HIGH_WATER) @ to_le_bytes (load64 p M_EXTENT_MAP_ROOT)
    @ to_le_bytes (load64 p M_SCHEMA_GEN)"
proof -
  have w: "to_le_bytes (load64 p off) = take 8 (drop off p)" if "off + 8 \<le> PAGE_SIZE" for off
    unfolding load64_def using assms that by (intro to_from_le_bytes) simp_all
  have step: "take (a + 8) p = take a p @ take 8 (drop a p)" for a by (rule take_add)
  show ?thesis
    using step [of 64] step [of 72] step [of 80] step [of 88] step [of 96] step [of 104] by (simp add: w meta_layout sizes)
qed

lemma checksum_covers_slot:
  assumes "length (m sl) = PAGE_SIZE"
  shows "meta_checksum_input (m sl) (slot_body m sl) = take META_LOGICAL_LEN (m sl)"
  by (simp add: meta_checksum_input_eq [OF assms] logical_bytes [OF assms] slot_body_def Let_def)

lemma read_meta_slot_eq:
  assumes "length (m sl) = PAGE_SIZE"
  shows "read_meta_slot digest m sl = (if digest (take META_LOGICAL_LEN (m sl)) = load64 (m sl) M_CHECKSUM then Some (slot_body m sl) else None)"
  by (simp add: read_meta_slot_def Let_def checksum_covers_slot [where m = m and sl = sl, OF assms])

lemma store_all_rest:
  "in_fields 104 xs \<Longrightarrow> length p = PAGE_SIZE \<Longrightarrow> drop 112 (store_all p xs) = drop 112 p"
proof (induction xs arbitrary: p)
  case (Cons x xs)
  obtain off v where x: "x = (off, v)" by (metis surj_pair)
  have f: "64 \<le> off" "off \<le> 104" "in_fields 104 xs" using Cons.prems(1) by (simp_all add: x in_fields_def)
  then have "drop 112 (store64 p off v) = drop 112 p" using Cons.prems(2) by (simp add: store64_def put_at_def sizes)
  then show ?case using Cons.IH [of "store64 p off v"] Cons.prems(2) f by (simp add: store_all_def x sizes)
qed (simp add: store_all_def)

lemma store_all_same:
  assumes "in_fields 104 xs" "length p = PAGE_SIZE" "take META_LOGICAL_LEN (store_all p xs) = take META_LOGICAL_LEN p"
  shows "store_all p xs = p"
  using append_take_drop_id [of 112 "store_all p xs"] append_take_drop_id [of 112 p] assms(3) store_all_rest [OF assms(1,2)]
  by (simp add: META_LOGICAL_LEN_def)

lemma in_fields_some: "set xs \<subseteq> set (take 6 (meta_stores digest p sl s)) \<Longrightarrow> in_fields 104 xs"
  using in_fields_meta(2) [of digest p sl s] by (auto simp: in_fields_def list_all_iff)

lemma in_fields_mono: "in_fields a xs \<Longrightarrow> a \<le> b \<Longrightarrow> in_fields b xs"
  by (auto simp: in_fields_def list_all_iff)

lemma torn_slot:
  assumes "length (mem sl) = PAGE_SIZE" "set xs \<subseteq> set (take 6 (meta_stores digest (mem sl) sl s))"
    and "digest (take META_LOGICAL_LEN (store_all (mem sl) xs)) \<noteq> load64 (mem sl) M_CHECKSUM"
  shows "read_meta_slot digest (mem(sl := store_all (mem sl) xs)) sl = None"
proof -
  note f = in_fields_some [OF assms(2)]
  have "length (store_all (mem sl) xs) = PAGE_SIZE"
    using store_all_frozen [OF in_fields_mono [OF f] assms(1)] by simp
  then show ?thesis
    using assms(3) store_all_checksum [OF f assms(1)] by (simp add: read_meta_slot_eq)
qed

lemma read_other_slot: "sl' \<noteq> sl \<Longrightarrow> read_meta_slot digest (mem(sl := p)) sl' = read_meta_slot digest mem sl'"
  by (simp add: read_meta_slot_def slot_body_def)

lemma read_meta_slot_of: "read_meta_slot digest mem sl = Some m \<Longrightarrow> slot_of m = sl"
  by (auto simp: read_meta_slot_def slot_body_def Let_def split: if_splits)

lemma newer_cases:
  assumes "newer a b = Ok m"
  shows "a = Some m \<and> (\<forall>m'. b = Some m' \<longrightarrow> txn_id m' \<le> txn_id m) \<or> b = Some m \<and> (\<forall>m'. a = Some m' \<longrightarrow> txn_id m' < txn_id m)"
  using assms by (cases a; cases b) (auto simp: newer_def split: if_splits)

text \<open>The newest meta, its slot, and what the other slot may hold.\<close>

lemma newest_slots:
  assumes "newest_meta_ungated digest mem = Ok m"
  obtains sl ot where "{sl, ot} = {0, 1}" "sl \<noteq> ot" "slot_of m = sl" "1 - sl = ot" "read_meta_slot digest mem sl = Some m"
    "\<And>m'. read_meta_slot digest mem ot = Some m' \<Longrightarrow> txn_id m' \<le> txn_id m" "sl = 1 \<Longrightarrow> \<forall>m'. read_meta_slot digest mem ot = Some m' \<longrightarrow> txn_id m' < txn_id m"
  using newer_cases [OF assms [unfolded newest_meta_ungated_def]]
proof (elim disjE conjE)
  assume a: "read_meta_slot digest mem META_PAGE_A = Some m" "\<forall>m'. read_meta_slot digest mem META_PAGE_B = Some m' \<longrightarrow> txn_id m' \<le> txn_id m"
  show thesis
    by (rule that [of 0 1]) (use a read_meta_slot_of [OF a(1)] in \<open>auto simp: META_PAGE_A_def META_PAGE_B_def\<close>)
next
  assume a: "read_meta_slot digest mem META_PAGE_B = Some m" "\<forall>m'. read_meta_slot digest mem META_PAGE_A = Some m' \<longrightarrow> txn_id m' < txn_id m"
  show thesis
    by (rule that [of 1 0]) (use a read_meta_slot_of [OF a(1)] in \<open>auto simp: META_PAGE_A_def META_PAGE_B_def\<close>)
qed

lemma newest_from_slots:
  assumes "{sl, ot} = {0, 1 :: u64}" "sl \<noteq> ot" "read_meta_slot digest mem sl = Some m"
    "\<And>m'. read_meta_slot digest mem ot = Some m' \<Longrightarrow> txn_id m' < txn_id m \<or> sl = 0 \<and> txn_id m' \<le> txn_id m"
  shows "newest_meta_ungated digest mem = Ok m"
proof -
  consider "sl = 0" "ot = 1" | "sl = 1" "ot = 0" using assms(1,2) by (auto simp: doubleton_eq_iff)
  then show ?thesis
  proof cases
    case 1
    then show ?thesis using assms(3,4)
      by (cases "read_meta_slot digest mem 1") (auto simp: newest_meta_ungated_def newer_def META_PAGE_A_def META_PAGE_B_def)
  next
    case 2
    then show ?thesis using assms(3,4)
      by (cases "read_meta_slot digest mem 0") (auto simp: newest_meta_ungated_def newer_def META_PAGE_A_def META_PAGE_B_def)
  qed
qed

lemma newest_gated:
  assumes "{sl, ot} = {0, 1 :: u64}" "sl \<noteq> ot" "read_meta_slot digest mem sl = Some m" "txn_id m \<le> gate"
    "\<And>m'. read_meta_slot digest mem ot = Some m' \<Longrightarrow> gate < txn_id m' \<or> txn_id m' < txn_id m \<or> sl = 0 \<and> txn_id m' \<le> txn_id m"
  shows "newest_meta_gated digest mem gate = Ok m"
proof -
  consider "sl = 0" "ot = 1" | "sl = 1" "ot = 0" using assms(1,2) by (auto simp: doubleton_eq_iff)
  then show ?thesis
  proof cases
    case 1
    then show ?thesis using assms(3-5)
      by (cases "read_meta_slot digest mem 1") (auto simp: newest_meta_gated_def gated_def newer_def META_PAGE_A_def META_PAGE_B_def)
  next
    case 2
    then show ?thesis using assms(3-5)
      by (cases "read_meta_slot digest mem 0") (auto simp: newest_meta_gated_def gated_def newer_def META_PAGE_A_def META_PAGE_B_def)
  qed
qed

lemma publish_newest:
  assumes "length (p 0) = PAGE_SIZE" "length (p 1) = PAGE_SIZE" "newest_meta_ungated digest p = Ok old" "txn_id old < txn_id m"
  shows "newest_meta_ungated digest (snd (write_meta_slot digest (slot_of old) m p)) = Ok (m\<lparr>slot_of := 1 - slot_of old\<rparr>)"
proof -
  obtain cu ot where S: "{cu, ot} = {0, 1}" "cu \<noteq> ot" "slot_of old = cu" "1 - cu = ot" "read_meta_slot digest p cu = Some old"
    using newest_slots [OF assms(3)] by metis
  have l: "length (p ot) = PAGE_SIZE" using S(1,2) assms(1,2) by (auto simp: doubleton_eq_iff)
  have w: "snd (write_meta_slot digest cu m p) = p(ot := store_all (p ot) (meta_stores digest (p ot) ot m))"
    by (simp add: write_meta_slot_def Let_def S(4))
  show ?thesis
    unfolding S(3,4) w
    by (rule newest_from_slots [of ot cu])
      (use S(1,2,5) assms(4) read_written_slot [where mem = p and sl = ot, OF l] in \<open>auto simp: read_other_slot\<close>)
qed

section \<open>Properties\<close>

text \<open>
  C7: publishing a commit is atomic for every reader. Whatever part of the field stores of
  \<open>write_meta_slot\<close> a reader meets, in whatever order they became visible, it finds the meta that was
  newest before, until the store of the checksum makes the new one the newest; and a reader gated below the
  new transaction still finds the old one then. The digest is assumed not to collide here: logical bytes
  of the slot that some of the stores have changed do not have the checksum the slot held before as their
  digest. That this is enough rests on the checksum covering every byte and field in front of it.
\<close>

theorem publish_is_atomic:
  assumes "length (mem 0) = PAGE_SIZE" "length (mem 1) = PAGE_SIZE" "newest_meta_ungated digest mem = Ok old" "txn_id old < txn_id s"
    and "sl = 1 - slot_of old"
    and no_collision: "\<forall>xs. set xs \<subseteq> set (take 6 (meta_stores digest (mem sl) sl s))
        \<and> take META_LOGICAL_LEN (store_all (mem sl) xs) \<noteq> take META_LOGICAL_LEN (mem sl)
      \<longrightarrow> digest (take META_LOGICAL_LEN (store_all (mem sl) xs)) \<noteq> load64 (mem sl) M_CHECKSUM"
  shows "(\<forall>xs. set xs \<subseteq> set (take 6 (meta_stores digest (mem sl) sl s))
        \<longrightarrow> newest_meta_ungated digest (mem(sl := store_all (mem sl) xs)) = Ok old)
    \<and> newest_meta_ungated digest (snd (write_meta_slot digest (slot_of old) s mem)) = Ok (s\<lparr>slot_of := sl\<rparr>)
    \<and> (\<forall>gate. txn_id old \<le> gate \<and> gate < txn_id s
        \<longrightarrow> newest_meta_gated digest (snd (write_meta_slot digest (slot_of old) s mem)) gate = Ok old)"
proof -
  obtain cu ot where S: "{cu, ot} = {0, 1}" "cu \<noteq> ot" "slot_of old = cu" "1 - cu = ot" "read_meta_slot digest mem cu = Some old"
    "\<And>m'. read_meta_slot digest mem ot = Some m' \<Longrightarrow> txn_id m' \<le> txn_id old"
    "cu = 1 \<Longrightarrow> \<forall>m'. read_meta_slot digest mem ot = Some m' \<longrightarrow> txn_id m' < txn_id old"
    using newest_slots [OF assms(3)] by metis
  have sl: "sl = ot" using S(3,4) assms(5) by simp
  have l: "length (mem ot) = PAGE_SIZE" using S(1,2) assms(1,2) by (auto simp: doubleton_eq_iff)
  have old: "read_meta_slot digest (mem(ot := p)) cu = Some old" for p using S(2,5) by (simp add: read_other_slot)
  have part: "newest_meta_ungated digest (mem(ot := store_all (mem ot) xs)) = Ok old"
    if "set xs \<subseteq> set (take 6 (meta_stores digest (mem ot) ot s))" for xs
  proof (cases "store_all (mem ot) xs = mem ot")
    case True
    then show ?thesis using assms(3) by simp
  next
    case False
    then have "take META_LOGICAL_LEN (store_all (mem ot) xs) \<noteq> take META_LOGICAL_LEN (mem ot)"
      using store_all_same [OF in_fields_some [OF that] l] by blast
    then have "read_meta_slot digest (mem(ot := store_all (mem ot) xs)) ot = None"
      using no_collision that by (intro torn_slot [where mem = mem and sl = ot, OF l that]) (simp add: sl)
    then show ?thesis by (intro newest_from_slots [OF S(1,2) old]) simp
  qed
  have w: "snd (write_meta_slot digest cu s mem) = mem(ot := store_all (mem ot) (meta_stores digest (mem ot) ot s))"
    by (simp add: write_meta_slot_def Let_def S(4))
  have new: "read_meta_slot digest (snd (write_meta_slot digest cu s mem)) ot = Some (s\<lparr>slot_of := ot\<rparr>)"
    "read_meta_slot digest (snd (write_meta_slot digest cu s mem)) cu = Some old"
    unfolding w using read_written_slot [where mem = mem and sl = ot, OF l] S(2,5) by (simp_all add: read_other_slot)
  have "newest_meta_ungated digest (snd (write_meta_slot digest cu s mem)) = Ok (s\<lparr>slot_of := ot\<rparr>)"
    using publish_newest [OF assms(1-4)] by (simp add: S(3,4))
  moreover have "newest_meta_gated digest (snd (write_meta_slot digest cu s mem)) gate = Ok old"
    if "txn_id old \<le> gate" "gate < txn_id s" for gate
    by (rule newest_gated [OF S(1,2) new(2)]) (use that new in auto)
  ultimately show ?thesis using part by (simp add: S(3) sl)
qed

text \<open>A mapping with one published commit, under a digest that is constantly one.\<close>

definition sample_meta :: MetaSnapshot where
  "sample_meta = \<lparr>slot_of = 0, txn_id = 1, catalog_root = 20, freelist_root = 0, high_water = 30, extent_map_root = 0, schema_gen = 0\<rparr>"

definition sample_map :: pagemap where
  "sample_map = snd (write_meta_slot (\<lambda>_. 1) 1 sample_meta (\<lambda>_. replicate PAGE_SIZE 0))"

lemma sample_map:
  "sample_map i = (if i = 0 then store_all (replicate PAGE_SIZE 0) (meta_stores (\<lambda>_. 1) (replicate PAGE_SIZE 0) 0 sample_meta) else replicate PAGE_SIZE 0)"
  "length (sample_map i) = PAGE_SIZE" "read_meta_slot (\<lambda>_. 1) sample_map 0 = Some sample_meta" "read_meta_slot (\<lambda>_. 1) sample_map 1 = None"
proof -
  show m: "sample_map i = (if i = 0 then store_all (replicate PAGE_SIZE 0) (meta_stores (\<lambda>_. 1) (replicate PAGE_SIZE 0) 0 sample_meta) else replicate PAGE_SIZE 0)" for i
    by (simp add: sample_map_def write_meta_slot_def)
  show "length (sample_map i) = PAGE_SIZE"
    using store_all_frozen [OF in_fields_meta(1), of "replicate PAGE_SIZE 0"] by (simp add: m)
  have "sample_map = (\<lambda>_. replicate PAGE_SIZE 0)(0 := store_all (replicate PAGE_SIZE 0) (meta_stores (\<lambda>_. 1) (replicate PAGE_SIZE 0) 0 sample_meta))"
    by (simp add: sample_map_def write_meta_slot_def)
  then show "read_meta_slot (\<lambda>_. 1) sample_map 0 = Some sample_meta"
    using read_written_slot [of "\<lambda>_. replicate PAGE_SIZE 0" 0 "\<lambda>_. 1" sample_meta] by (simp add: sample_meta_def)
  have "load64 (replicate PAGE_SIZE 0) M_CHECKSUM = 0"
    by (simp add: load64_def from_le_bytes_def meta_layout sizes numeral_eq_Suc)
  then show "read_meta_slot (\<lambda>_. 1) sample_map 1 = None" by (simp add: read_meta_slot_def m)
qed

text \<open>
  A digest that reads the transaction, the catalog root and the high-water mark, and a mapping with one
  commit published under it: the blank slot beside it validates, too, and a publication over it is torn in
  every way that matters.
\<close>

definition field_digest :: "bytes \<Rightarrow> u64" where
  "field_digest b = load64 b M_TXN_ID + 256 * load64 b M_CATALOG_ROOT + 65536 * load64 b M_HIGH_WATER"

definition field_map :: pagemap where
  "field_map = snd (write_meta_slot field_digest 1 sample_meta (\<lambda>_. replicate PAGE_SIZE 0))"

definition next_meta :: MetaSnapshot where
  "next_meta = sample_meta\<lparr>txn_id := 2, catalog_root := 21\<rparr>"

lemma load_zero: "off + 8 \<le> PAGE_SIZE \<Longrightarrow> load64 (replicate PAGE_SIZE 0) off = 0"
  by (simp add: load64_def from_le_bytes_def numeral_eq_Suc)

lemma load_store_all:
  assumes "in_fields 104 xs" "length p = PAGE_SIZE" "off \<le> 104" "\<And>o' v. (o', v) \<in> set xs \<Longrightarrow> o' = off \<or> o' + 8 \<le> off \<or> off + 8 \<le> o'"
  shows "load64 (store_all p xs) off \<in> insert (load64 p off) {v. (off, v) \<in> set xs}"
  using assms
proof (induction xs arbitrary: p)
  case (Cons x xs)
  obtain o' v where x: "x = (o', v)" by (metis surj_pair)
  have f: "64 \<le> o'" "o' \<le> 104" "in_fields 104 xs" using Cons.prems(1) by (simp_all add: x in_fields_def)
  have "off = o' \<or> off + 8 \<le> o' \<or> o' + 8 \<le> off" using Cons.prems(4) [of o' v] by (auto simp: x)
  then have "load64 (store64 p o' v) off = (if off = o' then v else load64 p off)"
    using Cons.prems(2) f by (intro load_store64) (simp_all add: sizes)
  moreover have "length (store64 p o' v) = PAGE_SIZE" using Cons.prems(2) f by (simp add: sizes)
  then have "load64 (store_all (store64 p o' v) xs) off \<in> insert (load64 (store64 p o' v) off) {v. (off, v) \<in> set xs}"
    using Cons.prems f by (intro Cons.IH) (auto simp: x)
  ultimately show ?case by (auto simp: store_all_def x split: if_splits)
qed (simp add: store_all_def)

lemma field_digest_no_collision:
  assumes x: "set xs \<subseteq> set (take 6 (meta_stores d p 1 next_meta))"
    and eq: "field_digest (take META_LOGICAL_LEN (store_all (replicate PAGE_SIZE 0) xs)) = 0"
  shows "take META_LOGICAL_LEN (store_all (replicate PAGE_SIZE 0) xs) = take META_LOGICAL_LEN (replicate PAGE_SIZE 0)"
proof -
  let ?z = "replicate PAGE_SIZE (0 :: byte)" and ?q = "store_all (replicate PAGE_SIZE 0) xs"
  note f = in_fields_some [OF x]
  have l: "length ?q = PAGE_SIZE" "take 64 ?q = take 64 ?z" using store_all_frozen [OF in_fields_mono [OF f], of ?z] by simp_all
  have v: "load64 ?q off \<in> insert 0 {v. (off, v) \<in> set xs}"
    if "off \<in> {M_TXN_ID, M_CATALOG_ROOT, M_FREELIST_ROOT, M_HIGH_WATER, M_EXTENT_MAP_ROOT, M_SCHEMA_GEN}" for off
  proof -
    have "o' = off \<or> o' + 8 \<le> off \<or> off + 8 \<le> o'" if "(o', v) \<in> set xs" for o' v
      using subsetD [OF x that] \<open>off \<in> _\<close> by (auto simp: meta_stores_def meta_layout)
    moreover have "off \<le> 104" using that by (auto simp: meta_layout)
    ultimately show ?thesis using load_store_all [OF f, of ?z off] load_zero [of off] by (simp add: sizes)
  qed
  have e: "v = the (map_of (take 6 (meta_stores d p 1 next_meta)) off)" if "(off, v) \<in> set xs" for off v
    using subsetD [OF x that] by (auto simp: meta_stores_def meta_layout)
  have u: "load64 ?q off \<in> {0, the (map_of (take 6 (meta_stores d p 1 next_meta)) off)}"
    if "off \<in> {M_TXN_ID, M_CATALOG_ROOT, M_FREELIST_ROOT, M_HIGH_WATER, M_EXTENT_MAP_ROOT, M_SCHEMA_GEN}" for off
    using v [OF that] e by blast
  have t: "load64 ?q M_TXN_ID \<in> {0, 2}" using u [of M_TXN_ID] by (simp add: meta_stores_def next_meta_def)
  have c: "load64 ?q M_CATALOG_ROOT \<in> {0, 21}" using u [of M_CATALOG_ROOT] by (simp add: meta_stores_def meta_layout next_meta_def)
  have h: "load64 ?q M_HIGH_WATER \<in> {0, 30}" using u [of M_HIGH_WATER] by (simp add: meta_stores_def meta_layout next_meta_def sample_meta_def)
  have o: "load64 ?q M_FREELIST_ROOT = 0" "load64 ?q M_EXTENT_MAP_ROOT = 0" "load64 ?q M_SCHEMA_GEN = 0"
    using u [of M_FREELIST_ROOT] u [of M_EXTENT_MAP_ROOT] u [of M_SCHEMA_GEN]
    by (simp_all add: meta_stores_def meta_layout next_meta_def sample_meta_def)
  have "load64 ?q M_TXN_ID + 256 * load64 ?q M_CATALOG_ROOT + 65536 * load64 ?q M_HIGH_WATER = 0"
    using eq by (simp add: field_digest_def load64_def meta_layout drop_take)
  then have "load64 ?q M_TXN_ID = 0" "load64 ?q M_CATALOG_ROOT = 0" "load64 ?q M_HIGH_WATER = 0" using t c h by auto
  moreover have "load64 ?z off = 0" if "off \<le> 104" for off using that by (intro load_zero) (simp add: sizes)
  then have "load64 ?z M_TXN_ID = 0" "load64 ?z M_CATALOG_ROOT = 0" "load64 ?z M_HIGH_WATER = 0"
    "load64 ?z M_FREELIST_ROOT = 0" "load64 ?z M_EXTENT_MAP_ROOT = 0" "load64 ?z M_SCHEMA_GEN = 0" by (simp_all add: meta_layout)
  ultimately show ?thesis
    unfolding logical_bytes [OF l(1)] logical_bytes [of ?z, OF length_replicate] l(2) by (simp only: o)
qed

theorem publish_is_atomic_witness:
  "newest_meta_ungated field_digest (field_map(1 := store_all (field_map 1) [(M_CATALOG_ROOT, 21), (M_TXN_ID, 2)])) = Ok sample_meta
   \<and> newest_meta_ungated field_digest (snd (write_meta_slot field_digest 0 next_meta field_map)) = Ok (next_meta\<lparr>slot_of := 1\<rparr>)
   \<and> newest_meta_gated field_digest (snd (write_meta_slot field_digest 0 next_meta field_map)) 1 = Ok sample_meta"
proof -
  let ?z = "replicate PAGE_SIZE (0 :: byte)"
  have m: "field_map = (\<lambda>_. ?z)(0 := store_all ?z (meta_stores field_digest ?z 0 sample_meta))"
    by (simp add: field_map_def write_meta_slot_def)
  have z: "field_map 1 = ?z" by (simp add: m)
  have l: "length (field_map i) = PAGE_SIZE" for i
    using store_all_frozen [OF in_fields_meta(1), of ?z] by (simp add: m)
  have zero: "load64 ?z M_CHECKSUM = 0" by (rule load_zero) (simp add: M_CHECKSUM_def sizes)
  have "read_meta_slot field_digest field_map 0 = Some sample_meta"
    unfolding m using read_written_slot [of "\<lambda>_. ?z" 0 field_digest sample_meta] by (simp add: sample_meta_def)
  moreover have "field_digest (take META_LOGICAL_LEN ?z) = 0"
    by (simp add: field_digest_def load64_def from_le_bytes_def meta_layout sizes numeral_eq_Suc)
  then have "read_meta_slot field_digest field_map 1 = Some (slot_body field_map 1)"
    by (simp add: read_meta_slot_eq [where m = field_map and sl = 1, OF l] z zero)
  moreover have "txn_id (slot_body field_map 1) = 0"
    using load_zero [of 64] by (simp add: slot_body_def Let_def z M_TXN_ID_def sizes)
  ultimately have n: "newest_meta_ungated field_digest field_map = Ok sample_meta"
    by (simp add: newest_meta_ungated_def META_PAGE_A_def META_PAGE_B_def newer_def sample_meta_def)
  have "txn_id sample_meta < txn_id next_meta" "1 = 1 - slot_of sample_meta" by (simp_all add: sample_meta_def next_meta_def)
  moreover have "\<forall>xs. set xs \<subseteq> set (take 6 (meta_stores field_digest (field_map 1) 1 next_meta))
        \<and> take META_LOGICAL_LEN (store_all (field_map 1) xs) \<noteq> take META_LOGICAL_LEN (field_map 1)
      \<longrightarrow> field_digest (take META_LOGICAL_LEN (store_all (field_map 1) xs)) \<noteq> load64 (field_map 1) M_CHECKSUM"
    unfolding z zero using field_digest_no_collision [of _ field_digest ?z] by blast
  ultimately have "(\<forall>xs. set xs \<subseteq> set (take 6 (meta_stores field_digest (field_map 1) 1 next_meta))
        \<longrightarrow> newest_meta_ungated field_digest (field_map(1 := store_all (field_map 1) xs)) = Ok sample_meta)
    \<and> newest_meta_ungated field_digest (snd (write_meta_slot field_digest (slot_of sample_meta) next_meta field_map)) = Ok (next_meta\<lparr>slot_of := 1\<rparr>)
    \<and> (\<forall>gate. txn_id sample_meta \<le> gate \<and> gate < txn_id next_meta
        \<longrightarrow> newest_meta_gated field_digest (snd (write_meta_slot field_digest (slot_of sample_meta) next_meta field_map)) gate = Ok sample_meta)"
    by (rule publish_is_atomic [OF l l n])
  then show ?thesis by (simp add: meta_stores_def sample_meta_def next_meta_def)
qed

end
