(* ===== verification/Wal_Log.thy ===== *)
theory Wal_Log
  imports Wal_Record Meta_Page
begin

text \<open>
  The write-ahead log (\<open>mpedb-core/src/shm/wal.rs\<close>): appending a commit, the deferred flush, checkpoints and
  recovery after power loss, on a state that tells what is in memory from what is on the disk; then every
  interleaving of stores, commits, failures, write-backs, checkpoints and power losses.
\<close>

section \<open>State\<close>

datatype Durability = NoDurability | Commit | Async | Wal

definition uses_wal :: "Durability \<Rightarrow> bool" where
  "uses_wal d \<longleftrightarrow> d = Wal \<or> d = Async"

text \<open>
  The mapping and the log file as the processes see them, the words of the lock page, and the durable image
  of each. File offsets are natural numbers: they stay far below \<open>2 ^ 64\<close>.
\<close>

record Shm =
  durability :: Durability
  page_count :: u64
  data_start :: u64
  mem :: pagemap
  wal_bytes :: bytes
  wal_alloc :: nat
  wal_len :: nat
  wal_appended :: nat
  wal_ckpt :: nat
  disk_mem :: pagemap
  disk_log :: bytes
  disk_len :: nat
  disk_appended :: nat
  disk_ckpt :: nat

text \<open>Where an operation on the files may fail; a failed write may have written a prefix.\<close>

datatype Fault = NoFault | FailAlloc | FailWrite nat | FailSync

definition LOCK_PAGE :: u64 where "LOCK_PAGE = 2"
definition WAL_GROW_CHUNK :: nat where "WAL_GROW_CHUNK = 4 * 1024 * 1024"

section \<open>Files and pages\<close>

definition page :: "Shm \<Rightarrow> u64 \<Rightarrow> bytes result" where
  "page s pid = (if pid \<ge> page_count s then Err Corrupt else Ok (mem s pid))"

fun images :: "Shm \<Rightarrow> u64 list \<Rightarrow> (u64 \<times> bytes) list result" where
  "images s [] = Ok []"
| "images s (pid # pids) = rbind (page s pid) (\<lambda>img. rbind (images s pids) (\<lambda>rest. Ok ((pid, img) # rest)))"

text \<open>\<open>write_all_at\<close>: past the end the file grows, any gap reading as zeros.\<close>

definition write_at :: "bytes \<Rightarrow> nat \<Rightarrow> bytes \<Rightarrow> bytes" where
  "write_at file off buf = put_at (file @ replicate (off + length buf - length file) 0) off buf"

text \<open>\<open>read_full_at\<close>: what the file has of \<open>n\<close> bytes at an offset.\<close>

definition read_full_at :: "bytes \<Rightarrow> nat \<Rightarrow> nat \<Rightarrow> bytes" where
  "read_full_at file n off = take n (drop off file)"

definition msync_page :: "u64 \<Rightarrow> Shm \<Rightarrow> Shm" where
  "msync_page pid s = (if pid = LOCK_PAGE
     then s\<lparr>disk_len := wal_len s, disk_appended := wal_appended s, disk_ckpt := wal_ckpt s\<rparr>
     else s\<lparr>disk_mem := (disk_mem s)(pid := mem s pid)\<rparr>)"

text \<open>\<open>msync_range(0, self.len)\<close>.\<close>

definition msync_all :: "Shm \<Rightarrow> Shm" where
  "msync_all s = s\<lparr>disk_mem := mem s, disk_len := wal_len s, disk_appended := wal_appended s, disk_ckpt := wal_ckpt s\<rparr>"

definition punch_hole :: "nat \<Rightarrow> Shm \<Rightarrow> Shm" where
  "punch_hole n s = s\<lparr>wal_bytes := replicate (min n (length (wal_bytes s))) 0 @ drop n (wal_bytes s),
     disk_log := replicate (min n (length (disk_log s))) 0 @ drop n (disk_log s)\<rparr>"

section \<open>Appending\<close>

definition wal_reset_for_format :: "Fault \<Rightarrow> Shm \<Rightarrow> unit result \<times> Shm" where
  "wal_reset_for_format fault s =
    (if \<not> uses_wal (durability s) then (Err Internal, s)
     else let s = s\<lparr>wal_bytes := []\<rparr>
          in if fault = FailAlloc then (Err Io, s)
             else let file = replicate WAL_GROW_CHUNK 0; s = s\<lparr>wal_bytes := file, wal_alloc := WAL_GROW_CHUNK\<rparr>
                  in if fault = FailSync then (Err Io, s) else (Ok (), s\<lparr>disk_log := file\<rparr>))"

definition wal_ensure_alloc :: "Fault \<Rightarrow> nat \<Rightarrow> Shm \<Rightarrow> unit result \<times> Shm" where
  "wal_ensure_alloc fault need s =
    (if need \<le> wal_alloc s then (Ok (), s)
     else let cur = length (wal_bytes s);
              target = (max need cur + (WAL_GROW_CHUNK - 1)) div WAL_GROW_CHUNK * WAL_GROW_CHUNK
          in if target > cur \<and> fault = FailAlloc then (Err Io, s)
             else (Ok (), s\<lparr>wal_bytes := wal_bytes s @ replicate (target - cur) 0, wal_alloc := target\<rparr>))"

definition commit_record :: "(bytes \<Rightarrow> u64) \<Rightarrow> bool \<Rightarrow> nat \<Rightarrow> (u64 \<times> bytes) list \<Rightarrow> MetaSnapshot \<Rightarrow> bytes" where
  "commit_record digest full off pages snap =
    encode_wal_record_into digest full (of_nat off) (txn_id snap) pages (catalog_root snap) (freelist_root snap)
      (high_water snap) (extent_map_root snap)"

definition wal_commit :: "(bytes \<Rightarrow> u64) \<Rightarrow> bool \<Rightarrow> Fault \<Rightarrow> u64 list \<Rightarrow> MetaSnapshot \<Rightarrow> Shm \<Rightarrow> unit result \<times> Shm" where
  "wal_commit digest full fault dirty_sorted snap s =
    (if \<not> uses_wal (durability s) then (Err Internal, s)
     else let off = wal_len s in
     case images s dirty_sorted of
       Inl e \<Rightarrow> (Err e, s)
     | Inr pages \<Rightarrow>
         let buf = commit_record digest full off pages snap
         in case wal_ensure_alloc fault (off + length buf) s of
              (Inl e, s) \<Rightarrow> (Err e, s)
            | (Inr _, s) \<Rightarrow>
                (case fault of
                   FailWrite n \<Rightarrow> (Err Io, s\<lparr>wal_bytes := write_at (wal_bytes s) off (take n buf)\<rparr>)
                 | FailSync \<Rightarrow> (Err Io, s\<lparr>wal_bytes := write_at (wal_bytes s) off buf\<rparr>)
                 | _ \<Rightarrow> let file = write_at (wal_bytes s) off buf
                        in (Ok (), s\<lparr>wal_bytes := file, disk_log := file, wal_len := off + length buf\<rparr>)))"

definition wal_append_async :: "(bytes \<Rightarrow> u64) \<Rightarrow> bool \<Rightarrow> Fault \<Rightarrow> u64 list \<Rightarrow> MetaSnapshot \<Rightarrow> Shm \<Rightarrow> unit result \<times> Shm" where
  "wal_append_async digest full fault dirty_sorted snap s =
    (if \<not> uses_wal (durability s) then (Err Internal, s)
     else let off = wal_appended s in
     case images s dirty_sorted of
       Inl e \<Rightarrow> (Err e, s)
     | Inr pages \<Rightarrow>
         let buf = commit_record digest full off pages snap
         in case wal_ensure_alloc fault (off + length buf) s of
              (Inl e, s) \<Rightarrow> (Err e, s)
            | (Inr _, s) \<Rightarrow>
                (case fault of
                   FailWrite n \<Rightarrow> (Err Io, s\<lparr>wal_bytes := write_at (wal_bytes s) off (take n buf)\<rparr>)
                 | _ \<Rightarrow> (Ok (), s\<lparr>wal_bytes := write_at (wal_bytes s) off buf, wal_appended := off + length buf\<rparr>)))"

definition wal_flush_deferred :: "Fault \<Rightarrow> Shm \<Rightarrow> nat result \<times> Shm" where
  "wal_flush_deferred fault s =
    (if durability s \<noteq> Async then (Ok 0, s)
     else let appended = wal_appended s; durable = wal_len s
          in if appended \<le> durable then (Ok 0, s)
             else if fault = FailSync then (Err Io, s)
             else let prev = wal_len s
                  in (Ok (appended - max prev durable), s\<lparr>disk_log := wal_bytes s, wal_len := max prev appended\<rparr>))"

section \<open>Scanning the log\<close>

text \<open>The header and record reads that recovery and the selective checkpoint share.\<close>

definition next_record :: "(bytes \<Rightarrow> u64) \<Rightarrow> u64 \<Rightarrow> bytes \<Rightarrow> nat \<Rightarrow> WalRecord option" where
  "next_record digest pcount file off =
    (let header = read_full_at file WAL_HDR_LEN off
     in if length header < WAL_HDR_LEN then None
        else let n_pages = unat (from_le_bytes (take 4 (drop 12 header)) :: u32);
                 rlen = unat (from_le_bytes (take 4 (drop 16 header)) :: u32)
             in if from_le_bytes (take 4 header) \<noteq> WAL_MAGIC \<or> n_pages > unat pcount \<or> rlen < WAL_RECORD_FIXED
                   \<or> rlen > WAL_RECORD_FIXED + n_pages * WAL_PAGE_ENTRY then None
                else let buf = read_full_at file rlen off
                     in if length buf < rlen then None else decode_wal_record digest buf (of_nat off) pcount)"

lemma unat_ucast_64: "unat (ucast (rl :: u32) :: u64) = unat rl"
proof -
  have u32: "unat rl < 2 ^ LENGTH(32)" by (rule unsigned_less)
  have "unat (of_nat (unat rl) :: u64) = unat rl" using u32 by (subst unat_of_nat) simp
  then show ?thesis by simp
qed

lemma decode_wal_record_len: "decode_wal_record digest buf off pcount = Some r \<Longrightarrow> 60 \<le> unat (rec_len r)"
  by (auto simp: decode_wal_record_def Let_def bind_eq_Some_conv unat_ucast_64 not_less WAL_RECORD_FIXED_def split: if_splits prod.splits)

lemma next_record_progress:
  assumes "next_record digest pcount file off = Some r"
  shows "off < length file" "60 \<le> unat (rec_len r)"
  using assms decode_wal_record_len
  by (auto simp: next_record_def read_full_at_def WAL_HDR_LEN_def Let_def split: if_splits)

lemma next_record_less:
  "next_record digest pcount file off = Some r \<Longrightarrow> length file - (off + unat (rec_len r)) < length file - off"
  by (frule next_record_progress(1), frule next_record_progress(2)) linarith

function logged_pages :: "(bytes \<Rightarrow> u64) \<Rightarrow> u64 \<Rightarrow> u64 \<Rightarrow> bytes \<Rightarrow> nat \<Rightarrow> nat \<Rightarrow> u64 list \<times> nat" where
  "logged_pages digest pcount dstart file off to =
    (if off < to then
       case next_record digest pcount file off of
         None \<Rightarrow> ([], off)
       | Some r \<Rightarrow>
           let ids = filter (\<lambda>pid. pid \<ge> dstart) (map fst (rec_pages r)); off = off + unat (rec_len r)
           in if off > to then (ids, off)
              else case logged_pages digest pcount dstart file off to of (rest, end_off) \<Rightarrow> (ids @ rest, end_off)
     else ([], off))"
  by pat_completeness auto
termination
  by (relation "measure (\<lambda>(digest, pcount, dstart, file, off, to). length file - off)")
    (auto dest: next_record_less)

declare logged_pages.simps [simp del]

text \<open>
  \<open>wal_msync_logged_pages\<close>: whether the walk reached \<open>to\<close>, with every page it met synced. Sorting, removing
  duplicates and joining neighbouring ids into ranges does not change which pages are synced.
\<close>

definition wal_msync_logged_pages :: "(bytes \<Rightarrow> u64) \<Rightarrow> nat \<Rightarrow> nat \<Rightarrow> Shm \<Rightarrow> bool \<times> Shm" where
  "wal_msync_logged_pages digest from_off to s =
    (if to \<le> from_off then (True, s)
     else case logged_pages digest (page_count s) (data_start s) (wal_bytes s) from_off to of
       (ids, end_off) \<Rightarrow> (end_off \<ge> to, foldl (\<lambda>s pid. msync_page pid s) s ids))"

section \<open>Checkpoints\<close>

text \<open>
  \<open>whole\<close> selects the arm that syncs the whole mapping (Linux, or the knob). \<open>data_ok\<close> and \<open>lock_ok\<close> say
  whether the data syncs and the sync of the lock page succeed, \<open>punched\<close> whether space was reclaimed. A data
  sync that fails is taken to have written nothing; pages may reach the disk at any time anyway (the write-back
  steps of \<open>Wal_Recovery\<close>). Without a log the selective arm fails before its first sync, the other one at the end.
\<close>

definition wal_checkpoint_if :: "(bytes \<Rightarrow> u64) \<Rightarrow> bool \<Rightarrow> bool \<Rightarrow> bool \<Rightarrow> bool \<Rightarrow> nat \<Rightarrow> Shm \<Rightarrow> unit result \<times> Shm" where
  "wal_checkpoint_if digest whole data_ok lock_ok punched threshold s =
    (let target = (if durability s = Async then wal_appended s else wal_len s); ckpt = wal_ckpt s
     in if target - ckpt < threshold then (Ok (), s)
        else if \<not> whole \<and> ckpt < target \<and> \<not> uses_wal (durability s) then (Err Internal, s)
        else if \<not> data_ok then (Err Io, s)
        else let s = (if whole then msync_all s
                      else case wal_msync_logged_pages digest ckpt target s of
                        (True, s) \<Rightarrow> msync_page META_PAGE_B (msync_page META_PAGE_A s)
                      | (False, s) \<Rightarrow> msync_all s);
                 s = (if durability s = Async then s\<lparr>wal_len := max (wal_len s) target\<rparr> else s);
                 s = s\<lparr>wal_ckpt := target\<rparr>
             in if \<not> lock_ok then (Err Io, s)
                else let s = msync_page LOCK_PAGE s
                     in if \<not> uses_wal (durability s) then (Err Internal, s)
                        else (Ok (), if punched then punch_hole target s else s))"

section \<open>Recovery\<close>

definition page_write :: "u64 \<Rightarrow> WalPageImg \<Rightarrow> Shm \<Rightarrow> Shm result" where
  "page_write pid img s =
    (if pid \<ge> page_count s then Err Corrupt else Ok (s\<lparr>mem := (mem s)(pid := write_into img (mem s pid))\<rparr>))"

fun write_pages :: "(u64 \<times> WalPageImg) list \<Rightarrow> Shm \<Rightarrow> Shm result" where
  "write_pages [] s = Ok s"
| "write_pages ((pid, img) # rest) s = rbind (page_write pid img s) (write_pages rest)"

definition replayed_meta :: "WalRecord \<Rightarrow> MetaSnapshot" where
  "replayed_meta r = \<lparr>slot_of = META_PAGE_A, txn_id = rec_txn_id r, catalog_root = rec_catalog_root r,
     freelist_root = rec_freelist_root r, high_water = rec_high_water r, extent_map_root = rec_extent_map_root r, schema_gen = 0\<rparr>"

function replay :: "(bytes \<Rightarrow> u64) \<Rightarrow> nat \<Rightarrow> u64 option \<Rightarrow> MetaSnapshot option \<Rightarrow> bytes \<Rightarrow> Shm
    \<Rightarrow> (nat \<times> MetaSnapshot option \<times> Shm) result" where
  "replay digest off prev_txn last_meta file s =
    (case next_record digest (page_count s) file off of
       None \<Rightarrow> Ok (off, last_meta, s)
     | Some r \<Rightarrow>
         if (case prev_txn of Some p \<Rightarrow> rec_txn_id r \<noteq> p + 1 | None \<Rightarrow> False) then Ok (off, last_meta, s)
         else if list_ex (\<lambda>(pid, _). pid < data_start s) (rec_pages r) then Ok (off, last_meta, s)
         else rbind (write_pages (rec_pages r) s) (\<lambda>s.
           replay digest (off + unat (rec_len r)) (Some (rec_txn_id r)) (Some (replayed_meta r)) file s))"
  by pat_completeness auto
termination
  by (relation "measure (\<lambda>(digest, off, prev, last, file, s). length file - off)")
    (auto dest: next_record_less)

declare replay.simps [simp del]

definition write_meta :: "(bytes \<Rightarrow> u64) \<Rightarrow> u64 \<Rightarrow> MetaSnapshot \<Rightarrow> Shm \<Rightarrow> Shm" where
  "write_meta digest prev_slot m s = s\<lparr>mem := snd (write_meta_slot digest prev_slot m (mem s))\<rparr>"

definition wal_recover :: "(bytes \<Rightarrow> u64) \<Rightarrow> bool \<Rightarrow> bool \<Rightarrow> Shm \<Rightarrow> nat result \<times> Shm" where
  "wal_recover digest data_ok lock_ok s =
    (if \<not> uses_wal (durability s) then (Ok 0, s)
     else let start = wal_ckpt s; dlen = wal_len s in
     case replay digest start None None (wal_bytes s) s of
       Inl e \<Rightarrow> (Err e, s)
     | Inr (off, last_meta, s) \<Rightarrow>
         if off < dlen then (Err Corrupt, s)
         else let s = (case last_meta of
                         Some m \<Rightarrow> write_meta digest META_PAGE_B m (write_meta digest META_PAGE_A m s)
                       | None \<Rightarrow> s)
              in if \<not> data_ok then (Err Io, s)
                 else let s = (msync_all s)\<lparr>wal_ckpt := off, wal_len := off, wal_appended := off\<rparr>
                      in if \<not> lock_ok then (Err Io, s) else (Ok off, msync_page LOCK_PAGE s))"

section \<open>Lemmas: a log of commits\<close>

type_synonym commit = "MetaSnapshot \<times> (u64 \<times> bytes) list"

definition clen :: "bool \<Rightarrow> commit \<Rightarrow> nat" where
  "clen full c = WAL_RECORD_FIXED + length (concat (map (entry full) (snd c)))"

definition clens :: "bool \<Rightarrow> commit list \<Rightarrow> nat" where
  "clens full cs = sum_list (map (clen full) cs)"

lemma clens_simps [simp]: "clens full [] = 0" "clens full (c # cs) = clen full c + clens full cs"
    "clens full (xs @ ys) = clens full xs + clens full ys"
  by (simp_all add: clens_def)

lemma clens_0 [simp]: "clens full cs = 0 \<longleftrightarrow> cs = []"
  by (cases cs) (simp_all add: clen_def WAL_RECORD_FIXED_def)

text \<open>The file holds the records of these commits from an offset on.\<close>

fun in_log :: "(bytes \<Rightarrow> u64) \<Rightarrow> bool \<Rightarrow> bytes \<Rightarrow> nat \<Rightarrow> commit list \<Rightarrow> bool" where
  "in_log digest full file off [] \<longleftrightarrow> off \<le> length file"
| "in_log digest full file off (c # cs) \<longleftrightarrow>
    take (clen full c) (drop off file) = commit_record digest full off (snd c) (fst c) \<and> in_log digest full file (off + clen full c) cs"

definition commit_ok :: "u64 \<Rightarrow> u64 \<Rightarrow> commit \<Rightarrow> bool" where
  "commit_ok pcount dstart c \<longleftrightarrow> pages_ok pcount (snd c) \<and> list_all (\<lambda>(pid, _). dstart \<le> pid) (snd c)"

lemma in_log_length: "in_log digest full file off cs \<Longrightarrow> off + clens full cs \<le> length file"
proof (induction cs arbitrary: off)
  case (Cons c cs)
  then show ?case using Cons.IH [of "off + clen full c"] by (simp add: add.assoc)
qed simp

lemma in_log_append:
  "in_log digest full file off (xs @ ys) \<longleftrightarrow> in_log digest full file off xs \<and> in_log digest full file (off + clens full xs) ys"
proof (induction xs arbitrary: off)
  case Nil
  then show ?case by (auto dest: in_log_length)
qed (auto simp: add.assoc)

lemma in_log_cong:
  assumes "in_log digest full f off cs" "take (clens full cs) (drop off g) = take (clens full cs) (drop off f)"
    "off + clens full cs \<le> length g"
  shows "in_log digest full g off cs"
  using assms
proof (induction cs arbitrary: off)
  case (Cons c cs)
  have "take (clen full c) (drop off g) = take (clen full c) (take (clens full (c # cs)) (drop off g))" by (simp add: min_absorb1)
  also have "\<dots> = take (clen full c) (drop off f)" unfolding Cons.prems(2) by (simp add: min_absorb1)
  finally have 1: "take (clen full c) (drop off g) = take (clen full c) (drop off f)" .
  have T: "take (clens full cs) (drop (off + clen full c) h) = drop (clen full c) (take (clens full (c # cs)) (drop off h))" for h
    by (simp add: drop_take add.commute)
  have "take (clens full cs) (drop (off + clen full c) g) = take (clens full cs) (drop (off + clen full c) f)"
    unfolding T Cons.prems(2) ..
  then show ?case using 1 Cons.prems Cons.IH [of "off + clen full c"] by simp
qed simp

lemma length_commit_record: "pages_ok pcount (snd c) \<Longrightarrow> length (commit_record digest full off (snd c) (fst c)) = clen full c"
  using length_encode_wal_record [of pcount "snd c"] by (simp add: commit_record_def encode_wal_record_def clen_def)

text \<open>The record a scan finds where a commit was logged.\<close>

definition logged :: "bool \<Rightarrow> commit \<Rightarrow> WalRecord" where
  "logged full c = \<lparr>rec_txn_id = txn_id (fst c), rec_pages = map (\<lambda>(pid, img). (pid, lean_img full img)) (snd c),
     rec_catalog_root = catalog_root (fst c), rec_freelist_root = freelist_root (fst c), rec_high_water = high_water (fst c),
     rec_extent_map_root = extent_map_root (fst c), rec_len = of_nat (clen full c)\<rparr>"

lemma clen_32: "pages_ok pcount (snd c) \<Longrightarrow> clen full c < 2 ^ 32"
  using pages_okD(3) [of pcount "snd c"] by (simp add: clen_def)

lemma rec_len_logged: "pages_ok pcount (snd c) \<Longrightarrow> unat (rec_len (logged full c)) = clen full c"
  using clen_32 [of pcount c full] by (simp add: logged_def unat_of_nat)

lemma next_record_logged:
  assumes f: "take (clen full c) (drop off file) = commit_record digest full off (snd c) (fst c)" and ok: "pages_ok pcount (snd c)"
  shows "next_record digest pcount file off = Some (logged full c)"
proof -
  let ?m = "fst c"
  let ?r = "commit_record digest full off (snd c) ?m"
  let ?body = "record_body full (txn_id ?m) (snd c) (catalog_root ?m) (freelist_root ?m) (high_water ?m) (extent_map_root ?m)"
  note K = pages_okD [OF ok]
  have e: "?r = encode_wal_record digest full (of_nat off) (txn_id ?m) (snd c) (catalog_root ?m) (freelist_root ?m) (high_water ?m) (extent_map_root ?m)"
    by (simp add: commit_record_def encode_wal_record_def)
  have len: "length ?r = clen full c" by (rule length_commit_record [OF ok])
  obtain rest where r: "?r = to_le_bytes WAL_MAGIC @ to_le_bytes (txn_id ?m) @ to_le_bytes (of_nat (length (snd c)) :: u32) @ to_le_bytes (of_nat (clen full c) :: u32) @ rest"
    unfolding e encode_wal_record_body [OF K(1)] record_body_def clen_def by auto
  have le: "20 \<le> clen full c" by (simp add: clen_def WAL_RECORD_FIXED_def)
  define hdr where "hdr = take 20 ?r"
  have h: "read_full_at file 20 off = hdr"
    unfolding read_full_at_def hdr_def f [symmetric] using le by (simp add: min_absorb1)
  have H: "length hdr = 20" "take 4 hdr = to_le_bytes WAL_MAGIC"
    "take 4 (drop 12 hdr) = to_le_bytes (of_nat (length (snd c)) :: u32)"
    "take 4 (drop 16 hdr) = to_le_bytes (of_nat (clen full c) :: u32)"
    using le len by (simp_all add: hdr_def r)
  have u: "unat (of_nat (length (snd c)) :: u32) = length (snd c)" "unat (of_nat (clen full c) :: u32) = clen full c"
    using K(2) clen_32 [OF ok, of full] by (simp_all add: unat_of_nat)
  have b: "read_full_at file (clen full c) off = ?r" by (simp add: read_full_at_def f)
  have "decode_wal_record digest ?r (of_nat off) pcount = Some (logged full c)"
    using decode_encode_wal_record [OF ok, of digest full "of_nat off" "txn_id ?m" "catalog_root ?m" "freelist_root ?m" "high_water ?m" "extent_map_root ?m" "[]"] len
    by (simp add: e [symmetric] logged_def)
  moreover have "length (snd c) \<le> unat pcount" using ok by (simp add: pages_ok_def)
  moreover have "WAL_RECORD_FIXED \<le> clen full c" "clen full c \<le> WAL_RECORD_FIXED + length (snd c) * WAL_PAGE_ENTRY"
    using K(4) [of full] by (simp_all add: clen_def)
  ultimately show ?thesis
    by (simp add: next_record_def Let_def h H u b len WAL_HDR_LEN_def not_less not_le)
qed

section \<open>Lemmas: replaying a log\<close>

definition replay_pages :: "bool \<Rightarrow> (u64 \<times> bytes) list \<Rightarrow> pagemap \<Rightarrow> pagemap" where
  "replay_pages full pages m = foldl (\<lambda>m (pid, img). m(pid := write_into (lean_img full img) (m pid))) m pages"

abbreviation all_pages :: "commit list \<Rightarrow> (u64 \<times> bytes) list" where
  "all_pages cs \<equiv> concat (map snd cs)"

text \<open>The image the last commit to log a page gave it.\<close>

definition last_image :: "commit list \<Rightarrow> u64 \<Rightarrow> bytes option" where
  "last_image cs = map_of (rev (all_pages cs))"

lemma last_image_append: "last_image (xs @ ys) pid = (case last_image ys pid of None \<Rightarrow> last_image xs pid | Some img \<Rightarrow> Some img)"
  by (simp add: last_image_def map_add_def split: option.split)

lemma last_image_Nil [simp]: "last_image [] pid = None"
  by (simp add: last_image_def)

fun consecutive :: "u64 option \<Rightarrow> commit list \<Rightarrow> bool" where
  "consecutive prev [] \<longleftrightarrow> True"
| "consecutive prev (c # cs) \<longleftrightarrow> (case prev of Some p \<Rightarrow> txn_id (fst c) = p + 1 | None \<Rightarrow> True) \<and> consecutive (Some (txn_id (fst c))) cs"

lemma consecutive_append:
  "consecutive prev (xs @ ys) \<longleftrightarrow> consecutive prev xs \<and> consecutive (if xs = [] then prev else Some (txn_id (fst (last xs)))) ys"
  by (induction xs arbitrary: prev) auto

lemma write_pages_lean:
  "list_all (\<lambda>(pid, img). pid < page_count s) pages
    \<Longrightarrow> write_pages (map (\<lambda>(pid, img). (pid, lean_img full img)) pages) s = Ok (s\<lparr>mem := replay_pages full pages (mem s)\<rparr>)"
  by (induction pages arbitrary: s) (auto simp: page_write_def replay_pages_def not_le)

lemma replay_pages_append: "replay_pages full (xs @ ys) m = replay_pages full ys (replay_pages full xs m)"
  by (simp add: replay_pages_def)

lemma commit_okD:
  assumes "commit_ok pcount dstart c"
  shows "pages_ok pcount (snd c)" "list_all (\<lambda>(pid, img). pid < pcount) (snd c)" "list_all (\<lambda>(pid, img). dstart \<le> pid) (snd c)"
    "list_all (\<lambda>(pid, img). length img = PAGE_SIZE) (snd c)"
  using assms by (auto simp: commit_ok_def pages_ok_def list_all_iff)

text \<open>The scan does not go on at an offset, after a record with the given transaction id.\<close>

definition scan_ends :: "(bytes \<Rightarrow> u64) \<Rightarrow> Shm \<Rightarrow> bytes \<Rightarrow> nat \<Rightarrow> u64 option \<Rightarrow> bool" where
  "scan_ends digest s file off prev \<longleftrightarrow> (case next_record digest (page_count s) file off of
     None \<Rightarrow> True
   | Some r \<Rightarrow> (case prev of Some p \<Rightarrow> rec_txn_id r \<noteq> p + 1 | None \<Rightarrow> False) \<or> list_ex (\<lambda>(pid, _). pid < data_start s) (rec_pages r))"

definition last_txn :: "u64 option \<Rightarrow> commit list \<Rightarrow> u64 option" where
  "last_txn prev cs = (if cs = [] then prev else Some (txn_id (fst (last cs))))"

lemma scan_ends_cong: "page_count t = page_count s \<Longrightarrow> data_start t = data_start s \<Longrightarrow> scan_ends digest t file off prev = scan_ends digest s file off prev"
  by (simp only: scan_ends_def)

lemma last_txn_Cons: "last_txn prev (c # cs) = last_txn (Some (txn_id (fst c))) cs"
  by (simp add: last_txn_def)

lemma replay_log:
  assumes "in_log digest full file off cs" "list_all (commit_ok (page_count s) (data_start s)) cs" "consecutive prev cs"
    "scan_ends digest s file (off + clens full cs) (last_txn prev cs)"
  shows "replay digest off prev lastm file s
    = Ok (off + clens full cs, if cs = [] then lastm else Some (replayed_meta (logged full (last cs))), s\<lparr>mem := replay_pages full (all_pages cs) (mem s)\<rparr>)"
  using assms
proof (induction cs arbitrary: off prev lastm s)
  case Nil
  then show ?case by (subst replay.simps) (auto simp: replay_pages_def scan_ends_def last_txn_def split: option.splits)
next
  case (Cons c cs)
  have ok: "commit_ok (page_count s) (data_start s) c" using Cons.prems(2) by simp
  note K = commit_okD [OF ok]
  define s' where "s' = s\<lparr>mem := replay_pages full (snd c) (mem s)\<rparr>"
  have n: "next_record digest (page_count s) file off = Some (logged full c)"
    by (rule next_record_logged) (use Cons.prems(1) K(1) in auto)
  have w: "write_pages (rec_pages (logged full c)) s = Ok s'"
    using write_pages_lean [OF K(2)] by (simp add: logged_def s'_def)
  have "\<not> list_ex (\<lambda>(pid, _). pid < data_start s) (rec_pages (logged full c))"
    using K(3) by (force simp: logged_def list_ex_iff list_all_iff)
  moreover have "\<not> (case prev of Some p \<Rightarrow> rec_txn_id (logged full c) \<noteq> p + 1 | None \<Rightarrow> False)"
    using Cons.prems(3) by (auto simp: logged_def split: option.splits)
  ultimately have "replay digest off prev lastm file s
      = replay digest (off + clen full c) (Some (rec_txn_id (logged full c))) (Some (replayed_meta (logged full c))) file s'"
    by (subst replay.simps) (simp add: n w rec_len_logged [OF K(1)])
  also have "\<dots> = Ok (off + clen full c + clens full cs, if cs = [] then Some (replayed_meta (logged full c)) else Some (replayed_meta (logged full (last cs))),
      s'\<lparr>mem := replay_pages full (all_pages cs) (mem s')\<rparr>)"
    by (rule Cons.IH) (use Cons.prems scan_ends_cong [of s' s] in \<open>auto simp: s'_def logged_def add.assoc last_txn_Cons\<close>)
  finally show ?case by (simp add: s'_def replay_pages_append add.assoc)
qed

lemma replay_pages_view:
  assumes "list_all (\<lambda>(pid, img). length img = PAGE_SIZE) pages" "\<And>pid. length (m pid) = PAGE_SIZE"
  shows "case map_of (rev pages) pid of
      None \<Rightarrow> replay_pages full pages m pid = m pid
    | Some img \<Rightarrow> same_view img (replay_pages full pages m pid)"
    "length (replay_pages full pages m pid) = PAGE_SIZE"
proof -
  have "(case map_of (rev pages) pid of
      None \<Rightarrow> replay_pages full pages m pid = m pid
    | Some img \<Rightarrow> same_view img (replay_pages full pages m pid)) \<and> length (replay_pages full pages m pid) = PAGE_SIZE" for pid
    using assms(1)
  proof (induction pages arbitrary: pid rule: rev_induct)
    case Nil
    then show ?case by (simp add: replay_pages_def assms(2))
  next
    case (snoc e pages)
    obtain q img where e: "e = (q, img)" by (metis surj_pair)
    have l: "length img = PAGE_SIZE" "list_all (\<lambda>(pid, img). length img = PAGE_SIZE) pages" using snoc.prems by (simp_all add: e)
    have v: "same_view img (write_into (lean_img full img) (replay_pages full pages m q))"
      by (rule write_into_lean [OF l(1)]) (use snoc.IH [OF l(2)] in blast)
    have r: "replay_pages full (pages @ [e]) m = (replay_pages full pages m)(q := write_into (lean_img full img) (replay_pages full pages m q))"
      by (simp add: replay_pages_def e)
    have "length (write_into (lean_img full img) (replay_pages full pages m q)) = PAGE_SIZE" using v by (simp add: same_view_def)
    then show ?case unfolding r using snoc.IH [OF l(2), of pid] v by (cases "map_of (rev pages) pid") (simp_all add: e assms(2))
  qed
  then show "case map_of (rev pages) pid of
      None \<Rightarrow> replay_pages full pages m pid = m pid
    | Some img \<Rightarrow> same_view img (replay_pages full pages m pid)"
    "length (replay_pages full pages m pid) = PAGE_SIZE" by blast+
qed

end
