(* ===== verification/Wal_Recovery.thy ===== *)
theory Wal_Recovery
  imports Wal_Log
begin

text \<open>
  Durability of the write-ahead log (\<open>mpedb-core/src/shm/wal.rs\<close>): every interleaving of page stores,
  commits, failed commits, publications, write-backs, torn write-backs, checkpoints and power losses, and what
  recovery finds.
\<close>

section \<open>The world\<close>

text \<open>
  Beside the shared memory and the files, the history variables of the proof: the pages and the meta of the
  last acknowledged commit, the pages stored to since they were last committed, the commits logged since
  the last checkpoint, and whether the last commit's meta has been published.
\<close>

record World =
  shm :: Shm
  cmem :: pagemap
  cmeta :: MetaSnapshot
  loose :: "u64 set"
  recs :: "commit list"
  published :: bool

text \<open>A power loss leaves the durable images; the process that opens the file next maps those.\<close>

definition power_loss :: "Shm \<Rightarrow> Shm" where
  "power_loss s = s\<lparr>mem := disk_mem s, wal_bytes := disk_log s, wal_alloc := length (disk_log s), wal_len := disk_len s,
     wal_appended := disk_appended s, wal_ckpt := disk_ckpt s\<rparr>"

definition committed :: "commit list \<Rightarrow> pagemap \<Rightarrow> pagemap" where
  "committed cs m pid = (case last_image cs pid of Some img \<Rightarrow> img | None \<Rightarrow> m pid)"

definition last_meta :: "commit list \<Rightarrow> MetaSnapshot \<Rightarrow> MetaSnapshot" where
  "last_meta cs m = (if cs = [] then m else fst (last cs))"

text \<open>
  The records past the acknowledged ones that are whole on the disk and that the scan takes for commits, as the
  commit whose record was written but whose sync had not returned; the scan ends after them.
\<close>

definition unacknowledged :: "(bytes \<Rightarrow> u64) \<Rightarrow> bool \<Rightarrow> World \<Rightarrow> commit list \<Rightarrow> bool" where
  "unacknowledged digest full w cs \<longleftrightarrow>
    in_log digest full (disk_log (shm w)) (wal_len (shm w)) cs
    \<and> list_all (commit_ok (page_count (shm w)) (data_start (shm w))) cs
    \<and> consecutive (Some (txn_id (cmeta w))) cs
    \<and> scan_ends digest (shm w) (disk_log (shm w)) (wal_len (shm w) + clens full cs)
          (last_txn (if disk_ckpt (shm w) = wal_len (shm w) then None else Some (txn_id (cmeta w))) cs)"

text \<open>
  The steps. Any page may reach the disk at any time, also torn where its disk image matters to nobody; the
  log may reach the disk in any form past the acknowledged bytes. The writer commits and checkpoints only
  after the previous commit's publication (the writer that dies between the two is not a step here). The
  payload pages of extents, which \<open>engine/commit.rs\<close> syncs in place instead of logging them, are pages of the
  running transaction here: no step takes them out of \<open>loose\<close>.
\<close>

inductive wstep :: "(bytes \<Rightarrow> u64) \<Rightarrow> bool \<Rightarrow> World \<Rightarrow> World \<Rightarrow> bool" for digest full where
  store_page: "data_start (shm w) \<le> pid \<Longrightarrow> pid < page_count (shm w) \<Longrightarrow> length p = PAGE_SIZE
    \<Longrightarrow> wstep digest full w (w\<lparr>shm := (shm w)\<lparr>mem := (mem (shm w))(pid := p)\<rparr>, loose := insert pid (loose w)\<rparr>)"
| commit: "published w \<Longrightarrow> distinct ds \<Longrightarrow> list_all (\<lambda>pid. data_start (shm w) \<le> pid) ds
    \<Longrightarrow> WAL_RECORD_FIXED + length ds * WAL_PAGE_ENTRY < 2 ^ 32 \<Longrightarrow> txn_id m = txn_id (cmeta w) + 1 \<Longrightarrow> txn_id (cmeta w) < txn_id m
    \<Longrightarrow> images (shm w) ds = Ok pages \<Longrightarrow> wal_commit digest full NoFault ds m (shm w) = (Ok (), s)
    \<Longrightarrow> wstep digest full w (w\<lparr>shm := s, cmem := committed [(m, pages)] (cmem w), cmeta := m, loose := loose w - set ds,
          recs := recs w @ [(m, pages)], published := False\<rparr>)"
| commit_fails: "wal_commit digest full fault ds m (shm w) = (Err e, s) \<Longrightarrow> wstep digest full w (w\<lparr>shm := s\<rparr>)"
| publish: "\<not> published w \<Longrightarrow> newest_meta_ungated digest (mem (shm w)) = Ok old
    \<Longrightarrow> wstep digest full w (w\<lparr>shm := write_meta digest (slot_of old) (cmeta w) (shm w), published := True\<rparr>)"
| write_back: "wstep digest full w (w\<lparr>shm := msync_page pid (shm w)\<rparr>)"
| torn_write_back: "pid \<in> loose w \<or> last_image (recs w) pid \<noteq> None \<or> pid < 2 \<and> recs w \<noteq> [] \<Longrightarrow> length p = PAGE_SIZE
    \<Longrightarrow> wstep digest full w (w\<lparr>shm := (shm w)\<lparr>disk_mem := (disk_mem (shm w))(pid := p)\<rparr>\<rparr>)"
| log_write_back: "take (wal_len (shm w)) f = take (wal_len (shm w)) (disk_log (shm w)) \<Longrightarrow> wal_len (shm w) \<le> length f
    \<Longrightarrow> wstep digest full w (w\<lparr>shm := (shm w)\<lparr>disk_log := f\<rparr>\<rparr>)"
| checkpoint: "published w \<Longrightarrow> wal_checkpoint_if digest whole data_ok lock_ok punched threshold (shm w) = (r, s)
    \<Longrightarrow> wstep digest full w (w\<lparr>shm := s, recs := (if wal_ckpt s = wal_len s then [] else recs w)\<rparr>)"
| reboot: "unacknowledged digest full w cs \<Longrightarrow> wal_recover digest True True (power_loss (shm w)) = (Ok off, s)
    \<Longrightarrow> wstep digest full w (w\<lparr>shm := s, cmem := committed cs (cmem w), cmeta := last_meta cs (cmeta w),
          loose := {pid \<in> loose w. last_image cs pid = None}, recs := [], published := True\<rparr>)"

text \<open>The roots two metas share; the schema generation is not logged and the slot may differ.\<close>

definition same_meta :: "MetaSnapshot \<Rightarrow> MetaSnapshot \<Rightarrow> bool" where
  "same_meta a b \<longleftrightarrow> txn_id a = txn_id b \<and> catalog_root a = catalog_root b \<and> freelist_root a = freelist_root b
     \<and> high_water a = high_water b \<and> extent_map_root a = extent_map_root b"

text \<open>A freshly formatted database: everything is on the disk and the log is empty.\<close>

definition formatted :: "(bytes \<Rightarrow> u64) \<Rightarrow> World \<Rightarrow> bool" where
  "formatted digest w \<longleftrightarrow> durability (shm w) = Wal \<and> 3 \<le> data_start (shm w) \<and> disk_mem (shm w) = mem (shm w)
     \<and> (\<forall>pid. length (mem (shm w) pid) = PAGE_SIZE) \<and> wal_len (shm w) = 0 \<and> wal_ckpt (shm w) = 0 \<and> disk_len (shm w) = 0 \<and> disk_ckpt (shm w) = 0
     \<and> cmem w = mem (shm w) \<and> loose w = {} \<and> recs w = [] \<and> published w
     \<and> (\<exists>m. newest_meta_ungated digest (mem (shm w)) = Ok m \<and> same_meta (cmeta w) m)"

section \<open>Invariant\<close>

definition log_inv :: "(bytes \<Rightarrow> u64) \<Rightarrow> bool \<Rightarrow> commit list \<Rightarrow> World \<Rightarrow> bool" where
  "log_inv digest full old w \<longleftrightarrow> (let s = shm w; cs = old @ recs w in
     durability s = Wal \<and> disk_ckpt s + clens full old = wal_ckpt s \<and> wal_ckpt s + clens full (recs w) = wal_len s
     \<and> disk_len s \<le> wal_len s
     \<and> in_log digest full (wal_bytes s) (disk_ckpt s) cs \<and> in_log digest full (disk_log s) (disk_ckpt s) cs
     \<and> list_all (commit_ok (page_count s) (data_start s)) cs \<and> consecutive None cs \<and> (cs \<noteq> [] \<longrightarrow> fst (last cs) = cmeta w))"

definition page_inv :: "commit list \<Rightarrow> World \<Rightarrow> bool" where
  "page_inv old w \<longleftrightarrow> (let s = shm w in 3 \<le> data_start s \<and> (\<forall>pid\<in>loose w. data_start s \<le> pid)
     \<and> (\<forall>pid. length (mem s pid) = PAGE_SIZE \<and> length (disk_mem s pid) = PAGE_SIZE \<and> length (cmem w pid) = PAGE_SIZE)
     \<and> (\<forall>pid img. last_image (old @ recs w) pid = Some img \<longrightarrow> cmem w pid = img)
     \<and> (\<forall>pid. data_start s \<le> pid \<and> pid < page_count s \<and> pid \<notin> loose w \<longrightarrow> same_view (cmem w pid) (mem s pid)
          \<and> (last_image (recs w) pid = None \<longrightarrow> same_view (cmem w pid) (disk_mem s pid))))"

definition meta_inv :: "(bytes \<Rightarrow> u64) \<Rightarrow> World \<Rightarrow> bool" where
  "meta_inv digest w \<longleftrightarrow> (let s = shm w in
     (recs w = [] \<longrightarrow> published w \<and> disk_mem s 0 = mem s 0 \<and> disk_mem s 1 = mem s 1)
     \<and> (\<exists>m. newest_meta_ungated digest (mem s) = Ok m \<and> (published w \<longrightarrow> same_meta (cmeta w) m)
          \<and> (\<not> published w \<longrightarrow> txn_id m < txn_id (cmeta w) \<and> txn_id (cmeta w) = txn_id m + 1)))"

definition winv :: "(bytes \<Rightarrow> u64) \<Rightarrow> bool \<Rightarrow> World \<Rightarrow> bool" where
  "winv digest full w \<longleftrightarrow> (\<exists>old. log_inv digest full old w \<and> page_inv old w \<and> meta_inv digest w)"

section \<open>Lemmas: metas\<close>

lemma newest_cong: "q 0 = p 0 \<Longrightarrow> q 1 = p 1 \<Longrightarrow> newest_meta_ungated digest q = newest_meta_ungated digest p"
  by (simp add: newest_meta_ungated_def read_meta_slot_def slot_body_def META_PAGE_A_def META_PAGE_B_def)

lemma newest_slot: "newest_meta_ungated digest p = Ok m \<Longrightarrow> slot_of m = 0 \<or> slot_of m = 1"
  by (erule newest_slots) (auto simp: doubleton_eq_iff)

lemma write_meta_frame:
  assumes "prev = 0 \<or> prev = 1" "\<And>pid. length (mem s pid) = PAGE_SIZE"
  shows "3 \<le> pid \<Longrightarrow> mem (write_meta digest prev m s) pid = mem s pid" "length (mem (write_meta digest prev m s) pid) = PAGE_SIZE"
proof -
  show "mem (write_meta digest prev m s) pid = mem s pid" if "3 \<le> pid"
    using assms(1) that by (auto simp: write_meta_def write_meta_slot_def Let_def word_le_nat_alt)
  show "length (mem (write_meta digest prev m s) pid) = PAGE_SIZE"
    using assms(2) store_all_frozen [OF in_fields_meta(1)] by (simp add: write_meta_def write_meta_slot_def Let_def)
qed

text \<open>Recovery installs the last replayed meta in both slots.\<close>

lemma newest_both_slots:
  assumes "\<And>pid. length (mem s pid) = PAGE_SIZE"
  shows "newest_meta_ungated digest (mem (write_meta digest META_PAGE_B m (write_meta digest META_PAGE_A m s))) = Ok (m\<lparr>slot_of := 0\<rparr>)"
proof -
  define q where "q = mem (write_meta digest META_PAGE_A m s)"
  have l: "length (q pid) = PAGE_SIZE" for pid
    unfolding q_def by (rule write_meta_frame) (simp_all add: assms META_PAGE_A_def)
  have q: "q = (mem s)(1 := store_all (mem s 1) (meta_stores digest (mem s 1) 1 m))"
    by (simp add: q_def write_meta_def write_meta_slot_def META_PAGE_A_def)
  have b: "read_meta_slot digest q 1 = Some (m\<lparr>slot_of := 1\<rparr>)" unfolding q by (rule read_written_slot [OF assms])
  have "mem (write_meta digest META_PAGE_B m (write_meta digest META_PAGE_A m s)) = q(0 := store_all (q 0) (meta_stores digest (q 0) 0 m))"
    by (simp add: q_def write_meta_def write_meta_slot_def META_PAGE_B_def)
  then show ?thesis
    by (simp only:) (rule newest_from_slots [of 0 1], use b read_written_slot [where mem = q and sl = 0, OF l] in \<open>auto simp: read_other_slot\<close>)
qed

section \<open>Lemmas: appending\<close>

lemma write_at_below:
  assumes "off \<le> length file"
  shows "take off (write_at file off buf) = take off file" "take (length buf) (drop off (write_at file off buf)) = buf"
    "off + length buf \<le> length (write_at file off buf)"
  using assms by (simp_all add: write_at_def put_at_def min_absorb1)

lemma wal_ensure_alloc_cases:
  assumes "wal_ensure_alloc fault need s = (r, s')"
  obtains n a where "s' = s\<lparr>wal_bytes := wal_bytes s @ replicate n 0, wal_alloc := a\<rparr>"
proof -
  have "s' = s\<lparr>wal_bytes := wal_bytes s @ replicate 0 0, wal_alloc := wal_alloc s\<rparr> \<or>
      (\<exists>n a. s' = s\<lparr>wal_bytes := wal_bytes s @ replicate n 0, wal_alloc := a\<rparr>)"
    using assms by (auto simp: wal_ensure_alloc_def Let_def split: if_splits)
  then show thesis using that by blast
qed

lemma wal_commit_fails:
  assumes "wal_commit digest full fault ds m s = (Err e, s')" "wal_len s \<le> length (wal_bytes s)"
  obtains f a where "s' = s\<lparr>wal_bytes := f, wal_alloc := a\<rparr>" "take (wal_len s) f = take (wal_len s) (wal_bytes s)" "wal_len s \<le> length f"
proof (cases "images s ds")
  case (Inl e')
  then have "s' = s" using assms(1) by (simp add: wal_commit_def Let_def split: if_splits)
  then show thesis using that [where f = "wal_bytes s" and a = "wal_alloc s"] assms(2) by simp
next
  case (Inr pages)
  define buf where "buf = commit_record digest full (wal_len s) pages m"
  obtain r s1 where a: "wal_ensure_alloc fault (wal_len s + length buf) s = (r, s1)" by (metis surj_pair)
  obtain n al where s1: "s1 = s\<lparr>wal_bytes := wal_bytes s @ replicate n 0, wal_alloc := al\<rparr>" by (rule wal_ensure_alloc_cases [OF a])
  have le: "wal_len s \<le> length (wal_bytes s1)" "take (wal_len s) (wal_bytes s1) = take (wal_len s) (wal_bytes s)"
    using assms(2) by (simp_all add: s1)
  note W = write_at_below [OF le(1)]
  consider "s' = s" | "s' = s1" | k where "s' = s1\<lparr>wal_bytes := write_at (wal_bytes s1) (wal_len s) (take k buf)\<rparr>"
    | "s' = s1\<lparr>wal_bytes := write_at (wal_bytes s1) (wal_len s) buf\<rparr>"
    using assms(1) a by (auto simp: wal_commit_def Let_def Inr buf_def [symmetric] split: if_splits sum.splits Fault.splits)
  then show thesis
  proof cases
    case 1
    then show ?thesis using that [where f = "wal_bytes s" and a = "wal_alloc s"] assms(2) by simp
  next
    case 2
    then show ?thesis using that [where f = "wal_bytes s1" and a = al] le by (simp add: s1)
  next
    case (3 k)
    then show ?thesis using that [where f = "write_at (wal_bytes s1) (wal_len s) (take k buf)" and a = al] W(1) W(3) [of "take k buf"] le(2) by (simp add: s1)
  next
    case 4
    then show ?thesis using that [where f = "write_at (wal_bytes s1) (wal_len s) buf" and a = al] W(1) W(3) [of buf] le(2) by (simp add: s1)
  qed
qed

lemma wal_commit_ok:
  assumes "wal_commit digest full NoFault ds m s = (Ok (), s')" "wal_len s \<le> length (wal_bytes s)" "images s ds = Ok pages"
  obtains f a where "s' = s\<lparr>wal_bytes := f, wal_alloc := a, disk_log := f, wal_len := wal_len s + length (commit_record digest full (wal_len s) pages m)\<rparr>"
    "take (wal_len s) f = take (wal_len s) (wal_bytes s)"
    "take (length (commit_record digest full (wal_len s) pages m)) (drop (wal_len s) f) = commit_record digest full (wal_len s) pages m"
    "wal_len s + length (commit_record digest full (wal_len s) pages m) \<le> length f"
proof -
  define buf where "buf = commit_record digest full (wal_len s) pages m"
  obtain r s1 where a: "wal_ensure_alloc NoFault (wal_len s + length buf) s = (r, s1)" by (metis surj_pair)
  obtain n al where s1: "s1 = s\<lparr>wal_bytes := wal_bytes s @ replicate n 0, wal_alloc := al\<rparr>" by (rule wal_ensure_alloc_cases [OF a])
  have le: "wal_len s \<le> length (wal_bytes s1)" "take (wal_len s) (wal_bytes s1) = take (wal_len s) (wal_bytes s)"
    using assms(2) by (simp_all add: s1)
  define f where "f = write_at (wal_bytes s1) (wal_len s) buf"
  have "s' = s1\<lparr>wal_bytes := f, disk_log := f, wal_len := wal_len s + length buf\<rparr>"
    using assms(1) a by (auto simp: wal_commit_def Let_def assms(3) buf_def [symmetric] f_def split: if_splits sum.splits)
  then have "s' = s\<lparr>wal_bytes := f, wal_alloc := al, disk_log := f, wal_len := wal_len s + length buf\<rparr>" by (simp add: s1)
  then show thesis
    using that [where f = f and a = al] write_at_below [OF le(1), of buf] le(2) by (simp add: buf_def [symmetric] f_def)
qed

section \<open>Lemmas: the steps keep the invariant\<close>

lemma low_pages: "3 \<le> (pid :: u64) \<Longrightarrow> pid \<noteq> 0 \<and> pid \<noteq> 1 \<and> pid \<noteq> LOCK_PAGE"
  by (auto simp: word_le_nat_alt LOCK_PAGE_def)

lemma winv_formatted: "formatted digest w \<Longrightarrow> winv digest full w"
  by (auto simp: formatted_def winv_def log_inv_def page_inv_def meta_inv_def Let_def same_view_refl intro!: exI [of _ "[]"])

lemma log_inv_wal_len: "log_inv digest full old w \<Longrightarrow> wal_len (shm w) \<le> length (wal_bytes (shm w)) \<and> wal_len (shm w) \<le> length (disk_log (shm w))"
  using in_log_length [of digest full "wal_bytes (shm w)" "disk_ckpt (shm w)" "old @ recs w"]
    in_log_length [of digest full "disk_log (shm w)" "disk_ckpt (shm w)" "old @ recs w"]
  by (simp add: log_inv_def Let_def)

lemma in_log_below:
  assumes "in_log digest full f off cs" "take n g = take n f" "n \<le> length g" "off + clens full cs \<le> n"
  shows "in_log digest full g off cs"
proof (rule in_log_cong [OF assms(1)])
  have "take (clens full cs) (drop off h) = take (clens full cs) (drop off (take n h))" for h :: bytes
    using assms(4) by (simp add: drop_take min_absorb1)
  then show "take (clens full cs) (drop off g) = take (clens full cs) (drop off f)" by (metis assms(2))
qed (use assms in simp)

lemma winv_store_page:
  assumes "winv digest full w" "data_start (shm w) \<le> pid" "length p = PAGE_SIZE"
  shows "winv digest full (w\<lparr>shm := (shm w)\<lparr>mem := (mem (shm w))(pid := p)\<rparr>, loose := insert pid (loose w)\<rparr>)"
proof -
  obtain old where I: "log_inv digest full old w" "page_inv old w" "meta_inv digest w" using assms(1) by (auto simp: winv_def)
  have "3 \<le> data_start (shm w)" using I(2) by (simp add: page_inv_def Let_def)
  then have "3 \<le> pid" using assms(2) by (rule order_trans)
  then have n: "newest_meta_ungated digest ((mem (shm w))(pid := p)) = newest_meta_ungated digest (mem (shm w))"
    using low_pages by (intro newest_cong) auto
  show ?thesis
    unfolding winv_def
    by (intro exI [of _ old] conjI)
      (use I assms(2,3) n low_pages [OF \<open>3 \<le> pid\<close>] in \<open>auto simp: log_inv_def page_inv_def meta_inv_def Let_def\<close>)
qed

lemma winv_log:
  assumes "winv digest full w"
    and "s = (shm w)\<lparr>wal_bytes := f, wal_alloc := a, disk_log := g\<rparr>"
    and "take (wal_len (shm w)) f = take (wal_len (shm w)) (wal_bytes (shm w))" "wal_len (shm w) \<le> length f"
    and "take (wal_len (shm w)) g = take (wal_len (shm w)) (disk_log (shm w))" "wal_len (shm w) \<le> length g"
  shows "winv digest full (w\<lparr>shm := s\<rparr>)"
proof -
  obtain old where I: "log_inv digest full old w" "page_inv old w" "meta_inv digest w" using assms(1) by (auto simp: winv_def)
  have o: "disk_ckpt (shm w) + clens full (old @ recs w) = wal_len (shm w)" using I(1) by (simp add: log_inv_def Let_def)
  have "in_log digest full f (disk_ckpt (shm w)) (old @ recs w)" "in_log digest full g (disk_ckpt (shm w)) (old @ recs w)"
    using in_log_below [OF _ assms(3,4)] in_log_below [OF _ assms(5,6)] I(1) o by (simp_all add: log_inv_def Let_def)
  then show ?thesis
    unfolding winv_def assms(2)
    by (intro exI [of _ old] conjI) (use I in \<open>simp_all add: log_inv_def page_inv_def meta_inv_def Let_def\<close>)
qed

lemma winv_commit_fails:
  assumes "winv digest full w" "wal_commit digest full fault ds m (shm w) = (Err e, s)"
  shows "winv digest full (w\<lparr>shm := s\<rparr>)"
proof -
  obtain old where I: "log_inv digest full old w" using assms(1) by (auto simp: winv_def)
  have le: "wal_len (shm w) \<le> length (wal_bytes (shm w))" "wal_len (shm w) \<le> length (disk_log (shm w))"
    using log_inv_wal_len [OF I] by blast+
  obtain f a where s: "s = (shm w)\<lparr>wal_bytes := f, wal_alloc := a\<rparr>" "take (wal_len (shm w)) f = take (wal_len (shm w)) (wal_bytes (shm w))"
      "wal_len (shm w) \<le> length f"
    by (rule wal_commit_fails [OF assms(2) le(1)])
  show ?thesis by (rule winv_log [OF assms(1) _ s(2,3), where g = "disk_log (shm w)" and a = a]) (use s(1) le(2) in simp_all)
qed

lemma images_spec:
  "images s ds = Ok pages \<Longrightarrow> map fst pages = ds \<and> list_all (\<lambda>(pid, img). pid < page_count s \<and> img = mem s pid) pages"
  by (induction ds arbitrary: pages) (auto simp: page_def rbind_def not_le split: if_splits sum.splits)

lemma length_pids:
  assumes "distinct ds" "list_all (\<lambda>pid. pid < n) ds"
  shows "length ds \<le> unat (n :: u64)"
proof -
  have "unat ` set ds \<subseteq> {..<unat n}" using assms(2) by (auto simp: list_all_iff word_less_nat_alt)
  then have "card (unat ` set ds) \<le> unat n" using card_mono [of "{..<unat n}" "unat ` set ds"] by simp
  moreover have "card (unat ` set ds) = length ds"
    using assms(1) by (subst card_image) (simp_all add: inj_on_def word_unat_eq_iff distinct_card)
  ultimately show ?thesis by simp
qed

lemma last_image_single:
  assumes "images s ds = Ok pages"
  shows "last_image [(m, pages)] pid = (if pid \<in> set ds then Some (mem s pid) else None)"
proof (cases "last_image [(m, pages)] pid")
  case None
  then have "pid \<notin> set (map fst pages)" by (simp add: last_image_def map_of_eq_None_iff)
  then show ?thesis using None images_spec [OF assms] by simp
next
  case (Some img)
  then have "(pid, img) \<in> set pages" by (auto simp: last_image_def dest: map_of_SomeD)
  then show ?thesis using Some images_spec [OF assms] by (force simp: list_all_iff)
qed

lemma commit_ok_images:
  assumes "images s ds = Ok pages" "distinct ds" "list_all (\<lambda>pid. data_start s \<le> pid) ds" "\<And>pid. length (mem s pid) = PAGE_SIZE"
    "WAL_RECORD_FIXED + length ds * WAL_PAGE_ENTRY < 2 ^ 32"
  shows "commit_ok (page_count s) (data_start s) (m, pages)"
proof -
  note I = images_spec [OF assms(1)]
  have l: "length pages = length ds" using I by (metis length_map)
  have "list_all (\<lambda>pid. pid < page_count s) ds" using I unfolding conjunct1 [OF I, symmetric] by (auto simp: list_all_iff)
  then have "length pages \<le> unat (page_count s)" using length_pids [OF assms(2)] l by simp
  moreover have "list_all (\<lambda>(pid, img). length img = PAGE_SIZE \<and> pid < page_count s) pages"
    using conjunct2 [OF I] assms(4) by (auto simp: list_all_iff)
  moreover have "data_start s \<le> pid" if "(pid, img) \<in> set pages" for pid img
    using that conjunct1 [OF I] assms(3) by (force simp: list_all_iff)
  ultimately show ?thesis using assms(5) by (auto simp: commit_ok_def pages_ok_def list_all_iff l)
qed

lemma winv_commit:
  assumes "winv digest full w" "published w" "distinct ds" "list_all (\<lambda>pid. data_start (shm w) \<le> pid) ds"
    "WAL_RECORD_FIXED + length ds * WAL_PAGE_ENTRY < 2 ^ 32" "txn_id m = txn_id (cmeta w) + 1" "txn_id (cmeta w) < txn_id m"
    "images (shm w) ds = Ok pages" "wal_commit digest full NoFault ds m (shm w) = (Ok (), s)"
  shows "winv digest full (w\<lparr>shm := s, cmem := committed [(m, pages)] (cmem w), cmeta := m, loose := loose w - set ds,
          recs := recs w @ [(m, pages)], published := False\<rparr>)" (is "winv _ _ ?w")
proof -
  obtain old where I: "log_inv digest full old w" "page_inv old w" "meta_inv digest w" using assms(1) by (auto simp: winv_def)
  have len: "wal_len (shm w) \<le> length (wal_bytes (shm w))" using log_inv_wal_len [OF I(1)] by blast
  let ?buf = "commit_record digest full (wal_len (shm w)) pages m"
  obtain f a where s: "s = (shm w)\<lparr>wal_bytes := f, wal_alloc := a, disk_log := f, wal_len := wal_len (shm w) + length ?buf\<rparr>"
    "take (wal_len (shm w)) f = take (wal_len (shm w)) (wal_bytes (shm w))" "take (length ?buf) (drop (wal_len (shm w)) f) = ?buf"
    "wal_len (shm w) + length ?buf \<le> length f"
    by (rule wal_commit_ok [OF assms(9) len assms(8)])
  have pl: "length (mem (shm w) pid) = PAGE_SIZE" for pid using I(2) by (simp add: page_inv_def Let_def)
  have ok: "commit_ok (page_count (shm w)) (data_start (shm w)) (m, pages)" by (rule commit_ok_images [OF assms(8,3,4) pl assms(5)])
  have lb: "length ?buf = clen full (m, pages)" using length_commit_record [OF commit_okD(1) [OF ok]] by simp
  have off: "disk_ckpt (shm w) + clens full (old @ recs w) = wal_len (shm w)" using I(1) by (simp add: log_inv_def Let_def)
  have "in_log digest full f (disk_ckpt (shm w)) (old @ recs w)"
    using in_log_below [OF _ s(2)] s(4) I(1) off by (simp add: log_inv_def Let_def)
  then have log: "in_log digest full f (disk_ckpt (shm w)) ((old @ recs w) @ [(m, pages)])"
    unfolding in_log_append off using s(3,4) lb by simp
  have "log_inv digest full old ?w"
    using I(1) log ok assms(6) by (auto simp: log_inv_def Let_def s(1) lb consecutive_append)
  moreover have "page_inv old ?w"
    using I(2) by (auto simp: page_inv_def Let_def s(1) committed_def last_image_append last_image_single [OF assms(8)] same_view_refl append_assoc [symmetric] simp del: append_assoc split: option.splits if_splits)
  moreover have "meta_inv digest ?w" using I(3) assms(2,6,7) by (auto simp: meta_inv_def Let_def s(1) same_meta_def)
  ultimately show ?thesis by (auto simp: winv_def)
qed

lemma winv_publish:
  assumes "winv digest full w" "\<not> published w" "newest_meta_ungated digest (mem (shm w)) = Ok m"
  shows "winv digest full (w\<lparr>shm := write_meta digest (slot_of m) (cmeta w) (shm w), published := True\<rparr>)"
proof -
  obtain old where I: "log_inv digest full old w" "page_inv old w" "meta_inv digest w" using assms(1) by (auto simp: winv_def)
  have pl: "length (mem (shm w) pid) = PAGE_SIZE" for pid using I(2) by (simp add: page_inv_def Let_def)
  have lt: "txn_id m < txn_id (cmeta w)" and r: "recs w \<noteq> []" using I(3) assms(2,3) by (auto simp: meta_inv_def Let_def)
  note F = write_meta_frame [where s = "shm w" and digest = digest and m = "cmeta w", OF newest_slot [OF assms(3)] pl]
  have n: "newest_meta_ungated digest (mem (write_meta digest (slot_of m) (cmeta w) (shm w))) = Ok ((cmeta w)\<lparr>slot_of := 1 - slot_of m\<rparr>)"
    using publish_newest [OF pl pl assms(3) lt] by (simp add: write_meta_def)
  define q where "q = mem (write_meta digest (slot_of m) (cmeta w) (shm w))"
  have s: "write_meta digest (slot_of m) (cmeta w) (shm w) = (shm w)\<lparr>mem := q\<rparr>" by (simp add: write_meta_def q_def)
  have "log_inv digest full old (w\<lparr>shm := (shm w)\<lparr>mem := q\<rparr>, published := True\<rparr>)" using I(1) by (simp add: log_inv_def Let_def)
  moreover have "q pid = mem (shm w) pid" if "data_start (shm w) \<le> pid" for pid
    using F(1) [of pid] that I(2) order_trans by (simp add: page_inv_def Let_def q_def) blast
  then have "page_inv old (w\<lparr>shm := (shm w)\<lparr>mem := q\<rparr>, published := True\<rparr>)" using I(2) F(2) by (simp add: page_inv_def Let_def q_def)
  moreover have "meta_inv digest (w\<lparr>shm := (shm w)\<lparr>mem := q\<rparr>, published := True\<rparr>)"
    using r n by (simp add: meta_inv_def Let_def q_def same_meta_def)
  ultimately show ?thesis unfolding winv_def s by auto
qed

lemma page_inv_loose: "page_inv old w \<Longrightarrow> pid \<in> loose w \<Longrightarrow> 3 \<le> pid"
  unfolding page_inv_def Let_def using order_trans by blast

lemma winv_disk:
  assumes "winv digest full w"
    and dm: "\<And>pid. length (dm pid) = PAGE_SIZE \<and> (dm pid = mem (shm w) pid \<or> dm pid = disk_mem (shm w) pid
      \<or> pid \<in> loose w \<or> last_image (recs w) pid \<noteq> None \<or> pid < 2 \<and> recs w \<noteq> [])"
  shows "winv digest full (w\<lparr>shm := (shm w)\<lparr>disk_mem := dm\<rparr>\<rparr>)"
proof -
  obtain old where I: "log_inv digest full old w" "page_inv old w" "meta_inv digest w" using assms(1) by (auto simp: winv_def)
  have ds: "3 \<le> data_start (shm w)" using I(2) by (simp add: page_inv_def Let_def)
  have "same_view (cmem w pid) (dm pid)"
    if p: "data_start (shm w) \<le> pid" "pid < page_count (shm w)" "pid \<notin> loose w" "last_image (recs w) pid = None" for pid
  proof -
    have "3 \<le> pid" using ds p(1) by (rule order_trans)
    then have "\<not> pid < 2" by (auto simp: word_le_nat_alt word_less_nat_alt)
    then have "dm pid = mem (shm w) pid \<or> dm pid = disk_mem (shm w) pid" using dm [of pid] p(3,4) by auto
    then show ?thesis using I(2) p by (auto simp: page_inv_def Let_def)
  qed
  then have "page_inv old (w\<lparr>shm := (shm w)\<lparr>disk_mem := dm\<rparr>\<rparr>)" using I(2) dm by (simp add: page_inv_def Let_def)
  moreover have "meta_inv digest (w\<lparr>shm := (shm w)\<lparr>disk_mem := dm\<rparr>\<rparr>)"
  proof -
    have "dm pid = mem (shm w) pid" if "recs w = []" "pid = 0 \<or> pid = 1" for pid
    proof -
      have "pid \<notin> loose w" using page_inv_loose [OF I(2)] that(2) low_pages by blast
      then show ?thesis using dm [of pid] I(3) that by (auto simp: meta_inv_def Let_def)
    qed
    then show ?thesis using I(3) by (simp add: meta_inv_def Let_def)
  qed
  moreover have "log_inv digest full old (w\<lparr>shm := (shm w)\<lparr>disk_mem := dm\<rparr>\<rparr>)" using I(1) by (simp add: log_inv_def Let_def)
  ultimately show ?thesis by (auto simp: winv_def)
qed

lemma winv_lock:
  assumes "winv digest full w"
  shows "winv digest full (w\<lparr>shm := msync_page LOCK_PAGE (shm w)\<rparr>)"
proof -
  obtain old where I: "log_inv digest full old w" "page_inv old w" "meta_inv digest w" using assms(1) by (auto simp: winv_def)
  have c: "consecutive None (recs w)"
    using I(1) by (cases "recs w") (auto simp: log_inv_def Let_def consecutive_append)
  have l: "recs w \<noteq> [] \<longrightarrow> fst (last (recs w)) = cmeta w" using I(1) by (auto simp: log_inv_def Let_def)
  have "log_inv digest full [] (w\<lparr>shm := msync_page LOCK_PAGE (shm w)\<rparr>)"
    using I(1) c l by (auto simp: log_inv_def Let_def msync_page_def in_log_append)
  moreover have "page_inv [] (w\<lparr>shm := msync_page LOCK_PAGE (shm w)\<rparr>)"
    using I(2) by (auto simp: page_inv_def Let_def msync_page_def last_image_append)
  moreover have "meta_inv digest (w\<lparr>shm := msync_page LOCK_PAGE (shm w)\<rparr>)" using I(3) by (simp add: meta_inv_def Let_def msync_page_def)
  ultimately show ?thesis by (auto simp: winv_def)
qed

lemma winv_write_back:
  assumes "winv digest full w"
  shows "winv digest full (w\<lparr>shm := msync_page pid (shm w)\<rparr>)"
proof (cases "pid = LOCK_PAGE")
  case True
  then show ?thesis using winv_lock [OF assms] by simp
next
  case False
  have "length (mem (shm w) q) = PAGE_SIZE \<and> length (disk_mem (shm w) q) = PAGE_SIZE" for q
    using assms by (auto simp: winv_def page_inv_def Let_def)
  then show ?thesis unfolding msync_page_def using False by (simp add: winv_disk [OF assms])
qed

lemma winv_checkpoint_data:
  assumes "winv digest full w" "published w" "dm 0 = mem (shm w) 0" "dm 1 = mem (shm w) 1"
    and dm: "\<And>pid. dm pid = mem (shm w) pid \<or> dm pid = disk_mem (shm w) pid \<and> last_image (recs w) pid = None"
  shows "winv digest full (w\<lparr>shm := (shm w)\<lparr>disk_mem := dm, wal_ckpt := wal_len (shm w)\<rparr>, recs := []\<rparr>)" (is "winv _ _ ?w")
proof -
  obtain old where I: "log_inv digest full old w" "page_inv old w" "meta_inv digest w" using assms(1) by (auto simp: winv_def)
  have "log_inv digest full (old @ recs w) ?w" using I(1) by (simp add: log_inv_def Let_def)
  moreover have "length (dm pid) = PAGE_SIZE" for pid using I(2) dm [of pid] by (auto simp: page_inv_def Let_def)
  moreover have "same_view (cmem w pid) (dm pid)" if "data_start (shm w) \<le> pid" "pid < page_count (shm w)" "pid \<notin> loose w" for pid
    using dm [of pid] I(2) that by (auto simp: page_inv_def Let_def)
  ultimately have "log_inv digest full (old @ recs w) ?w" "page_inv (old @ recs w) ?w" using I(2) by (simp_all add: page_inv_def Let_def)
  moreover have "meta_inv digest ?w" using I(3) assms(2-4) by (auto simp: meta_inv_def Let_def)
  ultimately show ?thesis by (auto simp: winv_def)
qed

lemma winv_punch:
  assumes "winv digest full w" "recs w = []" "disk_ckpt (shm w) = wal_len (shm w)"
  shows "winv digest full (w\<lparr>shm := punch_hole n (shm w)\<rparr>)"
proof -
  obtain old where I: "log_inv digest full old w" "page_inv old w" "meta_inv digest w" using assms(1) by (auto simp: winv_def)
  have "disk_ckpt (shm w) + clens full old = wal_ckpt (shm w)" "wal_ckpt (shm w) = wal_len (shm w)"
    using I(1) assms(2) by (simp_all add: log_inv_def Let_def)
  then have "clens full old = 0" using assms(3) by linarith
  then have "old = []" by simp
  then show ?thesis
    unfolding winv_def using I assms(2)
    by (intro exI [of _ "[]"]) (auto simp: log_inv_def page_inv_def meta_inv_def Let_def punch_hole_def)
qed

section \<open>Lemmas: the selective checkpoint\<close>

lemma logged_pages_log:
  assumes "in_log digest full file off cs" "list_all (commit_ok pcount dstart) cs"
  shows "logged_pages digest pcount dstart file off (off + clens full cs) = (map fst (all_pages cs), off + clens full cs)"
  using assms
proof (induction cs arbitrary: off)
  case Nil
  then show ?case by (simp add: logged_pages.simps)
next
  case (Cons c cs)
  have ok: "commit_ok pcount dstart c" using Cons.prems(2) by simp
  note K = commit_okD [OF ok]
  have n: "next_record digest pcount file off = Some (logged full c)"
    by (rule next_record_logged) (use Cons.prems(1) K(1) in auto)
  have ids: "filter (\<lambda>pid. dstart \<le> pid) (map fst (rec_pages (logged full c))) = map fst (snd c)"
    using K(3) by (subst filter_True) (auto simp: logged_def list_all_iff)
  have IH: "logged_pages digest pcount dstart file (off + clen full c) (off + clen full c + clens full cs)
      = (map fst (all_pages cs), off + clen full c + clens full cs)"
    by (rule Cons.IH) (use Cons.prems in auto)
  have pos: "off < off + (clen full c + clens full cs)" by (simp add: clen_def WAL_RECORD_FIXED_def)
  show ?case
    using pos IH by (subst logged_pages.simps) (simp add: n ids rec_len_logged [OF K(1)] add.assoc)
qed

lemma foldl_msync:
  assumes "\<forall>pid\<in>set ids. pid \<noteq> LOCK_PAGE"
  shows "foldl (\<lambda>s pid. msync_page pid s) s ids = s\<lparr>disk_mem := override_on (disk_mem s) (mem s) (set ids)\<rparr>"
  using assms
proof (induction ids arbitrary: s)
  case (Cons pid ids)
  have "foldl (\<lambda>s pid. msync_page pid s) s (pid # ids)
      = foldl (\<lambda>s pid. msync_page pid s) (s\<lparr>disk_mem := (disk_mem s)(pid := mem s pid)\<rparr>) ids"
    using Cons.prems by (simp add: msync_page_def)
  also have "\<dots> = s\<lparr>disk_mem := override_on ((disk_mem s)(pid := mem s pid)) (mem s) (set ids)\<rparr>"
    using Cons by simp
  finally show ?case by (simp add: override_on_def fun_eq_iff)
qed simp

lemma wal_msync_logged:
  assumes "log_inv digest full old w" "page_inv old w"
  shows "wal_msync_logged_pages digest (wal_ckpt (shm w)) (wal_len (shm w)) (shm w)
    = (True, (shm w)\<lparr>disk_mem := override_on (disk_mem (shm w)) (mem (shm w)) (fst ` set (all_pages (recs w)))\<rparr>)"
proof (cases "recs w = []")
  case True
  then have "wal_ckpt (shm w) = wal_len (shm w)" using assms(1) by (simp add: log_inv_def Let_def)
  then show ?thesis by (simp add: wal_msync_logged_pages_def True)
next
  case False
  let ?s = "shm w"
  have L: "wal_ckpt ?s + clens full (recs w) = wal_len ?s" "in_log digest full (wal_bytes ?s) (wal_ckpt ?s) (recs w)"
    "list_all (commit_ok (page_count ?s) (data_start ?s)) (recs w)"
    using assms(1) by (auto simp: log_inv_def Let_def in_log_append)
  have lp: "logged_pages digest (page_count ?s) (data_start ?s) (wal_bytes ?s) (wal_ckpt ?s) (wal_len ?s) = (map fst (all_pages (recs w)), wal_len ?s)"
    using logged_pages_log [OF L(2,3)] L(1) by simp
  have "data_start ?s \<le> pid" if "(pid, img) \<in> set (all_pages (recs w))" for pid img
    using that L(3) by (auto simp: list_all_iff commit_ok_def)
  moreover have "3 \<le> data_start ?s" using assms(2) by (simp add: page_inv_def Let_def)
  ultimately have "3 \<le> pid" if "(pid, img) \<in> set (all_pages (recs w))" for pid img using that order_trans by blast
  then have ids: "\<forall>pid\<in>set (map fst (all_pages (recs w))). pid \<noteq> LOCK_PAGE" using low_pages by fastforce
  have lt: "wal_ckpt ?s < wal_len ?s"
  proof -
    have "clens full (recs w) \<noteq> 0" using False by simp
    then show ?thesis using L(1) by linarith
  qed
  show ?thesis
    using lt by (simp only: wal_msync_logged_pages_def lp prod.case foldl_msync [OF ids]) simp
qed

lemma last_image_None: "last_image cs pid = None \<longleftrightarrow> pid \<notin> fst ` set (all_pages cs)"
  by (simp add: last_image_def map_of_eq_None_iff)

text \<open>The first half of a checkpoint, in either arm.\<close>

lemma winv_checkpoint_synced:
  assumes "winv digest full w" "published w"
  shows "winv digest full (w\<lparr>shm := (msync_all (shm w))\<lparr>wal_ckpt := wal_len (shm w)\<rparr>, recs := []\<rparr>)"
    "\<exists>s. wal_msync_logged_pages digest (wal_ckpt (shm w)) (wal_len (shm w)) (shm w) = (True, s) \<and> durability s = Wal \<and> wal_len s = wal_len (shm w)
      \<and> winv digest full (w\<lparr>shm := (msync_page META_PAGE_B (msync_page META_PAGE_A s))\<lparr>wal_ckpt := wal_len (shm w)\<rparr>, recs := []\<rparr>)"
proof -
  let ?s = "shm w"
  let ?w = "w\<lparr>shm := msync_page LOCK_PAGE ?s\<rparr>"
  have "winv digest full (?w\<lparr>shm := (shm ?w)\<lparr>disk_mem := mem (shm ?w), wal_ckpt := wal_len (shm ?w)\<rparr>, recs := []\<rparr>)"
    by (rule winv_checkpoint_data [OF winv_lock [OF assms(1)]]) (simp_all add: assms(2))
  moreover have "(shm ?w)\<lparr>disk_mem := mem (shm ?w), wal_ckpt := wal_len (shm ?w)\<rparr> = (msync_all ?s)\<lparr>wal_ckpt := wal_len ?s\<rparr>"
    by (simp add: msync_page_def msync_all_def)
  ultimately show "winv digest full (w\<lparr>shm := (msync_all ?s)\<lparr>wal_ckpt := wal_len ?s\<rparr>, recs := []\<rparr>)" by simp
  obtain old where I: "log_inv digest full old w" "page_inv old w" using assms(1) by (auto simp: winv_def)
  define dm where "dm = override_on (disk_mem ?s) (mem ?s) (fst ` set (all_pages (recs w)))"
  define dm' where "dm' = dm(0 := mem ?s 0, 1 := mem ?s 1)"
  have "winv digest full (w\<lparr>shm := ?s\<lparr>disk_mem := dm', wal_ckpt := wal_len ?s\<rparr>, recs := []\<rparr>)"
    by (rule winv_checkpoint_data [OF assms]) (auto simp: dm'_def dm_def override_on_def last_image_None)
  moreover have "msync_page META_PAGE_B (msync_page META_PAGE_A (?s\<lparr>disk_mem := dm\<rparr>)) = ?s\<lparr>disk_mem := dm'\<rparr>"
    by (simp add: msync_page_def META_PAGE_A_def META_PAGE_B_def LOCK_PAGE_def dm'_def)
  moreover have "durability ?s = Wal" using I(1) by (simp add: log_inv_def Let_def)
  ultimately show "\<exists>s. wal_msync_logged_pages digest (wal_ckpt ?s) (wal_len ?s) ?s = (True, s) \<and> durability s = Wal \<and> wal_len s = wal_len ?s
      \<and> winv digest full (w\<lparr>shm := (msync_page META_PAGE_B (msync_page META_PAGE_A s))\<lparr>wal_ckpt := wal_len ?s\<rparr>, recs := []\<rparr>)"
    using wal_msync_logged [OF I] by (simp add: dm_def)
qed

lemma World_swap: "w\<lparr>recs := cs, shm := s\<rparr> = w\<lparr>shm := s, recs := cs\<rparr>"
  by (cases w) simp

lemma winv_checkpoint:
  assumes w: "winv digest full w" "published w"
    and c: "wal_checkpoint_if digest whole data_ok lock_ok punched threshold (shm w) = (r, s)"
  shows "winv digest full (w\<lparr>shm := s, recs := (if wal_ckpt s = wal_len s then [] else recs w)\<rparr>)"
proof -
  let ?s = "shm w"
  obtain old where I: "log_inv digest full old w" using w(1) by (auto simp: winv_def)
  have D: "durability ?s = Wal" "wal_ckpt ?s + clens full (recs w) = wal_len ?s" using I by (simp_all add: log_inv_def Let_def)
  obtain s0 where s0: "(if whole then msync_all ?s else case wal_msync_logged_pages digest (wal_ckpt ?s) (wal_len ?s) ?s of
        (True, s) \<Rightarrow> msync_page META_PAGE_B (msync_page META_PAGE_A s) | (False, s) \<Rightarrow> msync_all s) = s0"
      "winv digest full (w\<lparr>shm := s0\<lparr>wal_ckpt := wal_len ?s\<rparr>, recs := []\<rparr>)" "durability s0 = Wal" "wal_len s0 = wal_len ?s"
    using winv_checkpoint_synced [OF w] D(1)
    by (cases whole) (auto simp: msync_all_def msync_page_def META_PAGE_A_def META_PAGE_B_def LOCK_PAGE_def)
  define s1 where "s1 = s0\<lparr>wal_ckpt := wal_len ?s\<rparr>"
  let ?w1 = "w\<lparr>shm := s1, recs := []\<rparr>"
  have 1: "winv digest full ?w1" using s0(2) by (simp add: s1_def)
  have 2: "winv digest full (w\<lparr>shm := msync_page LOCK_PAGE s1, recs := []\<rparr>)" using winv_lock [OF 1] by (simp add: World_swap)
  have 3: "winv digest full (w\<lparr>shm := punch_hole (wal_len ?s) (msync_page LOCK_PAGE s1), recs := []\<rparr>)"
    using winv_punch [OF 2, of "wal_len ?s"] s0(4) by (simp add: msync_page_def s1_def World_swap)
  consider "s = ?s" | "s = s1" | "s = msync_page LOCK_PAGE s1" | "s = punch_hole (wal_len ?s) (msync_page LOCK_PAGE s1)"
  proof -
    have A: "(Wal = Async) = False" by simp
    have "s = ?s \<or> s = s1 \<or> s = msync_page LOCK_PAGE s1 \<or> s = punch_hole (wal_len ?s) (msync_page LOCK_PAGE s1)"
      using c unfolding wal_checkpoint_if_def Let_def D(1) A if_False s0(1) s0(3)
      by (auto simp: s1_def split: if_splits)
    then show thesis using that by blast
  qed
  then show ?thesis
  proof cases
    case 1
    have "recs w = []" if "wal_ckpt ?s = wal_len ?s"
    proof -
      have "clens full (recs w) = 0" using D(2) that by linarith
      then show ?thesis by simp
    qed
    then have "w\<lparr>shm := s, recs := (if wal_ckpt s = wal_len s then [] else recs w)\<rparr> = w" using 1 by auto
    then show ?thesis using w(1) by simp
  qed (use 1 2 3 s0(4) in \<open>simp_all add: s1_def msync_page_def punch_hole_def\<close>)
qed

section \<open>Lemmas: recovery\<close>

lemma consecutive_None: "consecutive prev cs \<Longrightarrow> consecutive None cs"
  by (cases cs) auto

lemma all_pages_ok: "list_all (commit_ok pcount dstart) cs \<Longrightarrow> list_all (\<lambda>(pid, img). length img = PAGE_SIZE) (all_pages cs)"
  by (induction cs) (auto dest: commit_okD(4))

text \<open>Replaying everything from the durable checkpoint offset on gives each page its committed view.\<close>

lemma replay_view:
  assumes P: "page_inv old w" and ok: "list_all (commit_ok (page_count (shm w)) (data_start (shm w))) (old @ recs w @ cs)"
    and pid: "data_start (shm w) \<le> pid" "pid < page_count (shm w)" "pid \<notin> loose w \<or> last_image cs pid \<noteq> None"
  shows "same_view (committed cs (cmem w) pid) (replay_pages full (all_pages (old @ recs w @ cs)) (disk_mem (shm w)) pid)"
proof -
  have dl: "\<And>pid. length (disk_mem (shm w) pid) = PAGE_SIZE" using P by (simp add: page_inv_def Let_def)
  note V = replay_pages_view(1) [OF all_pages_ok [OF ok] dl, where pid = pid and full = full, folded last_image_def]
  show ?thesis
  proof (cases "last_image (old @ recs w @ cs) pid")
    case None
    then have "last_image cs pid = None" "last_image (recs w) pid = None" by (auto simp: last_image_append split: option.splits)
    then show ?thesis using V None P pid by (simp add: committed_def page_inv_def Let_def)
  next
    case (Some img)
    have "committed cs (cmem w) pid = img"
      using Some P last_image_append [of "old @ recs w" cs pid]
      by (auto simp: committed_def page_inv_def Let_def split: option.splits)
    then show ?thesis using V Some by simp
  qed
qed

lemma wal_recover_log:
  assumes L: "log_inv digest full old w" and P: "page_inv old w" and M: "meta_inv digest w" and U: "unacknowledged digest full w cs"
  obtains m off where "wal_recover digest True True (power_loss (shm w)) = (Ok off, (shm w)\<lparr>mem := m, wal_bytes := disk_log (shm w),
      wal_alloc := length (disk_log (shm w)), wal_len := off, wal_appended := off, wal_ckpt := off, disk_mem := m, disk_len := off, disk_appended := off, disk_ckpt := off\<rparr>)"
    "off = wal_len (shm w) + clens full cs" "\<And>pid. length (m pid) = PAGE_SIZE"
    "\<And>pid. data_start (shm w) \<le> pid \<Longrightarrow> pid < page_count (shm w) \<Longrightarrow> pid \<notin> loose w \<or> last_image cs pid \<noteq> None
      \<Longrightarrow> same_view (committed cs (cmem w) pid) (m pid)"
    "\<exists>snap. newest_meta_ungated digest m = Ok snap \<and> same_meta (last_meta cs (cmeta w)) snap"
proof -
  let ?s = "shm w"
  let ?p = "power_loss ?s"
  define all where "all = old @ recs w @ cs"
  define off where "off = wal_len ?s + clens full cs"
  define R where "R = replay_pages full (all_pages all) (disk_mem ?s)"
  have O: "disk_ckpt ?s + clens full (old @ recs w) = wal_len ?s" "disk_len ?s \<le> wal_len ?s" "durability ?s = Wal"
    using L by (simp_all add: log_inv_def Let_def)
  have ok: "list_all (commit_ok (page_count ?s) (data_start ?s)) all"
    using L U by (simp add: log_inv_def unacknowledged_def Let_def all_def)
  have il: "in_log digest full (disk_log ?s) (disk_ckpt ?s) all"
    using L U unfolding all_def append_assoc [symmetric] in_log_append [where ys = cs] O(1) by (simp add: log_inv_def unacknowledged_def Let_def)
  have co: "consecutive None all"
    using L U consecutive_None [of "Some (txn_id (cmeta w))" cs] unfolding all_def append_assoc [symmetric] consecutive_append [where ys = cs]
    by (auto simp: log_inv_def unacknowledged_def Let_def simp del: append_assoc append_is_Nil_conv)
  have eo: "disk_ckpt ?s + clens full all = off" using O(1) by (simp add: all_def off_def)
  have lt: "last_txn None all = last_txn (if disk_ckpt ?s = wal_len ?s then None else Some (txn_id (cmeta w))) cs"
  proof -
    have "disk_ckpt ?s = wal_len ?s \<longleftrightarrow> old @ recs w = []" using O(1) clens_0 [of full "old @ recs w"] by auto
    then show ?thesis using L by (auto simp: last_txn_def all_def log_inv_def Let_def)
  qed
  have "replay digest (disk_ckpt ?s) None None (disk_log ?s) ?p
      = Ok (off, if all = [] then None else Some (replayed_meta (logged full (last all))), ?p\<lparr>mem := R\<rparr>)"
    unfolding eo [symmetric] R_def
    using replay_log [where s = ?p and cs = all, OF _ _ co] il ok U eo scan_ends_cong [of ?p ?s]
    by (simp add: power_loss_def unacknowledged_def off_def lt)
  then have rp: "replay digest (wal_ckpt ?p) None None (wal_bytes ?p) ?p
      = Ok (off, if all = [] then None else Some (replayed_meta (logged full (last all))), ?p\<lparr>mem := R\<rparr>)"
    by (simp add: power_loss_def)
  have Rl: "length (R pid) = PAGE_SIZE" for pid
    unfolding R_def by (rule replay_pages_view(2) [OF all_pages_ok [OF ok]]) (use P in \<open>simp add: page_inv_def Let_def\<close>)
  define s3 where "s3 = (case if all = [] then None else Some (replayed_meta (logged full (last all))) of
      Some m \<Rightarrow> write_meta digest META_PAGE_B m (write_meta digest META_PAGE_A m (?p\<lparr>mem := R\<rparr>)) | None \<Rightarrow> ?p\<lparr>mem := R\<rparr>)"
  define m where "m = mem s3"
  have s3: "s3 = ?p\<lparr>mem := m\<rparr>" by (simp add: s3_def m_def write_meta_def)
  have ab: "META_PAGE_A = 0 \<or> META_PAGE_A = 1" "META_PAGE_B = 0 \<or> META_PAGE_B = 1" by (simp_all add: META_PAGE_A_def META_PAGE_B_def)
  have 1: "length (mem (write_meta digest META_PAGE_A sn (?p\<lparr>mem := R\<rparr>)) pid) = PAGE_SIZE" for sn pid
    by (rule write_meta_frame(2) [OF ab(1)]) (simp add: Rl)
  have ml: "length (m pid) = PAGE_SIZE" for pid
    using write_meta_frame(2) [OF ab(2) 1] Rl by (simp add: m_def s3_def)
  have mh: "m pid = R pid" if "3 \<le> pid" for pid
    using that write_meta_frame(1) [OF ab(2) 1] write_meta_frame(1) [OF ab(1), of "?p\<lparr>mem := R\<rparr>"] Rl by (simp add: m_def s3_def)
  have "wal_recover digest True True ?p = (Ok off, msync_page LOCK_PAGE ((msync_all s3)\<lparr>wal_ckpt := off, wal_len := off, wal_appended := off\<rparr>))"
    unfolding wal_recover_def Let_def rp sum.case prod.case s3_def [symmetric]
    using O(2,3) by (simp add: power_loss_def uses_wal_def off_def)
  then have A: "wal_recover digest True True ?p = (Ok off, ?s\<lparr>mem := m, wal_bytes := disk_log ?s,
      wal_alloc := length (disk_log ?s), wal_len := off, wal_appended := off, wal_ckpt := off, disk_mem := m, disk_len := off, disk_appended := off, disk_ckpt := off\<rparr>)"
    unfolding s3 by (simp add: msync_page_def msync_all_def power_loss_def)
  have B: "same_view (committed cs (cmem w) pid) (m pid)"
    if "data_start ?s \<le> pid" "pid < page_count ?s" "pid \<notin> loose w \<or> last_image cs pid \<noteq> None" for pid
  proof -
    have "3 \<le> data_start ?s" using P by (simp add: page_inv_def Let_def)
    then have "3 \<le> pid" using that(1) by (rule order_trans)
    then show ?thesis using replay_view [OF P ok [unfolded all_def] that] mh by (simp add: R_def all_def)
  qed
  have C: "\<exists>snap. newest_meta_ungated digest m = Ok snap \<and> same_meta (last_meta cs (cmeta w)) snap"
  proof (cases "all = []")
    case True
    then have "recs w = []" "cs = []" by (simp_all add: all_def)
    moreover have "m = disk_mem ?s" using True by (simp add: m_def s3_def R_def replay_pages_def)
    ultimately show ?thesis using M newest_cong [of "disk_mem ?s" "mem ?s" digest] by (auto simp: meta_inv_def Let_def last_meta_def)
  next
    case False
    have "newest_meta_ungated digest m = Ok ((replayed_meta (logged full (last all)))\<lparr>slot_of := 0\<rparr>)"
      using newest_both_slots [of "?p\<lparr>mem := R\<rparr>"] Rl False by (simp add: m_def s3_def)
    moreover have "fst (last all) = last_meta cs (cmeta w)"
      using L False by (cases "cs = []") (auto simp: all_def last_meta_def log_inv_def Let_def)
    ultimately show ?thesis by (auto simp: same_meta_def replayed_meta_def logged_def)
  qed
  show thesis by (rule that [OF A off_def ml B C])
qed

lemma winv_reboot:
  assumes "winv digest full w" "unacknowledged digest full w cs" "wal_recover digest True True (power_loss (shm w)) = (Ok off, s)"
  shows "winv digest full (w\<lparr>shm := s, cmem := committed cs (cmem w), cmeta := last_meta cs (cmeta w),
          loose := {pid \<in> loose w. last_image cs pid = None}, recs := [], published := True\<rparr>)" (is "winv _ _ ?w")
proof -
  obtain old where I: "log_inv digest full old w" "page_inv old w" "meta_inv digest w" using assms(1) by (auto simp: winv_def)
  show ?thesis
  proof (rule wal_recover_log [OF I assms(2)])
    fix m off'
    assume r: "wal_recover digest True True (power_loss (shm w)) = (Ok off', (shm w)\<lparr>mem := m, wal_bytes := disk_log (shm w),
      wal_alloc := length (disk_log (shm w)), wal_len := off', wal_appended := off', wal_ckpt := off', disk_mem := m, disk_len := off', disk_appended := off', disk_ckpt := off'\<rparr>)"
    and off: "off' = wal_len (shm w) + clens full cs" and ml: "\<And>pid. length (m pid) = PAGE_SIZE"
    and view: "\<And>pid. data_start (shm w) \<le> pid \<Longrightarrow> pid < page_count (shm w) \<Longrightarrow> pid \<notin> loose w \<or> last_image cs pid \<noteq> None
      \<Longrightarrow> same_view (committed cs (cmem w) pid) (m pid)"
    and snap: "\<exists>snap. newest_meta_ungated digest m = Ok snap \<and> same_meta (last_meta cs (cmeta w)) snap"
    have s: "s = (shm w)\<lparr>mem := m, wal_bytes := disk_log (shm w), wal_alloc := length (disk_log (shm w)), wal_len := off, wal_appended := off,
      wal_ckpt := off, disk_mem := m, disk_len := off, disk_appended := off, disk_ckpt := off\<rparr>" "off' = off"
      using assms(3) r by auto
    have ok: "list_all (\<lambda>(pid, img). length img = PAGE_SIZE) (all_pages cs)"
      using assms(2) by (intro all_pages_ok [of "page_count (shm w)" "data_start (shm w)"]) (simp add: unacknowledged_def)
    have len: "length (committed cs (cmem w) pid) = PAGE_SIZE" for pid
    proof (cases "last_image cs pid")
      case None
      then show ?thesis using I(2) by (simp add: committed_def page_inv_def Let_def)
    next
      case (Some img)
      have "(pid, img) \<in> set (all_pages cs)" using map_of_SomeD [OF Some [unfolded last_image_def]] unfolding set_rev .
      from bspec [OF ok [unfolded list_all_iff] this] show ?thesis using Some by (simp add: committed_def)
    qed
    have "off \<le> length (disk_log (shm w))"
      using assms(2) in_log_length [of digest full "disk_log (shm w)" "wal_len (shm w)" cs] off s(2) by (simp add: unacknowledged_def)
    then have "log_inv digest full [] ?w" using I(1) by (simp add: log_inv_def Let_def s(1))
    moreover have "page_inv [] ?w" using I(2) ml view len by (auto simp: page_inv_def Let_def s(1))
    moreover have "meta_inv digest ?w" using snap by (simp add: meta_inv_def Let_def s(1))
    ultimately show ?thesis by (auto simp: winv_def)
  qed
qed

lemma winv_step:
  assumes "wstep digest full w w'" "winv digest full w"
  shows "winv digest full w'"
  using assms
proof cases
  case (torn_write_back pid p)
  have "length (mem (shm w) q) = PAGE_SIZE \<and> length (disk_mem (shm w) q) = PAGE_SIZE" for q
    using assms(2) by (auto simp: winv_def page_inv_def Let_def)
  then show ?thesis unfolding torn_write_back(1) using torn_write_back(2,3) by (intro winv_disk [OF assms(2)]) auto
next
  case (checkpoint whole data_ok lock_ok punched threshold r s)
  then show ?thesis using winv_checkpoint [OF assms(2)] by blast
next
  case (log_write_back f)
  obtain old where "log_inv digest full old w" using assms(2) by (auto simp: winv_def)
  then have "wal_len (shm w) \<le> length (wal_bytes (shm w))" using log_inv_wal_len by blast
  then show ?thesis
    unfolding log_write_back(1)
    by (intro winv_log [OF assms(2), where f = "wal_bytes (shm w)" and a = "wal_alloc (shm w)" and g = f]) (use log_write_back in simp_all)
qed (use assms(2) in \<open>auto intro: winv_store_page winv_commit winv_commit_fails winv_publish winv_write_back winv_checkpoint winv_reboot\<close>)

lemma winv_reachable: "(wstep digest full)\<^sup>*\<^sup>* w0 w \<Longrightarrow> winv digest full w0 \<Longrightarrow> winv digest full w"
  by (induction rule: rtranclp_induct) (auto intro: winv_step)

section \<open>Properties\<close>

text \<open>
  C2: No power loss loses an acknowledged commit in WAL mode. From a formatted database, after any interleaving of stores, commits, failed
  commits, publications, (torn) write-backs of pages, of the lock page and of the log, checkpoints of either kind with failures, power
  losses and recoveries: if the power fails now, \<open>wal_recover\<close> succeeds, every data page the running transaction has not touched shows the
  tree code what the last commit gave it, and the newest meta has the last commit's id and roots. Records past the acknowledged
  ones that happen to be whole on the disk are replayed as further commits, in full; after them nothing on the disk validates as a
  record, as the checksum of a record is there for. Extent payloads are not logged and count as touched.
\<close>

theorem wal_durable:
  assumes "formatted digest w0" "(wstep digest full)\<^sup>*\<^sup>* w0 w" "unacknowledged digest full w cs"
  shows "\<exists>s. wal_recover digest True True (power_loss (shm w)) = (Ok (wal_len (shm w) + clens full cs), s)
    \<and> (\<forall>pid. data_start (shm w) \<le> pid \<and> pid < page_count (shm w) \<and> (pid \<notin> loose w \<or> last_image cs pid \<noteq> None)
        \<longrightarrow> same_view (committed cs (cmem w) pid) (mem s pid))
    \<and> (\<exists>m. newest_meta_ungated digest (mem s) = Ok m \<and> same_meta (last_meta cs (cmeta w)) m)"
proof -
  have "winv digest full w" by (rule winv_reachable [OF assms(2) winv_formatted [OF assms(1)]])
  then obtain old where I: "log_inv digest full old w" "page_inv old w" "meta_inv digest w" by (auto simp: winv_def)
  show ?thesis by (rule wal_recover_log [OF I assms(3)]) auto
qed

text \<open>A small database with one commit of one page, not yet published.\<close>

definition sample_shm :: Shm where
  "sample_shm = \<lparr>durability = Wal, page_count = 16, data_start = 4, mem = sample_map, wal_bytes = replicate WAL_GROW_CHUNK 0,
     wal_alloc = WAL_GROW_CHUNK, wal_len = 0, wal_appended = 0, wal_ckpt = 0, disk_mem = sample_map, disk_log = replicate WAL_GROW_CHUNK 0,
     disk_len = 0, disk_appended = 0, disk_ckpt = 0\<rparr>"

definition sample_world :: World where
  "sample_world = \<lparr>shm = sample_shm, cmem = sample_map, cmeta = sample_meta, loose = {}, recs = [], published = True\<rparr>"

definition sample_page :: bytes where
  "sample_page = replicate PAGE_SIZE 7"

definition sample_stored :: World where
  "sample_stored = sample_world\<lparr>shm := sample_shm\<lparr>mem := sample_map(5 := sample_page)\<rparr>, loose := {5}\<rparr>"

definition sample_commit :: commit where
  "sample_commit = (sample_meta\<lparr>txn_id := 2\<rparr>, [(5, sample_page)])"

lemma next_record_zeros:
  assumes "drop off file = replicate n 0"
  shows "next_record digest pcount file off = None"
proof -
  have h: "read_full_at file 20 off = replicate (min 20 n) 0" by (simp add: read_full_at_def WAL_HDR_LEN_def assms)
  show ?thesis
  proof (cases "n < 20")
    case True
    then show ?thesis by (simp add: next_record_def h WAL_HDR_LEN_def)
  next
    case False
    have "from_le_bytes (replicate 4 (0 :: byte)) = (0 :: u32)" by (simp add: from_le_bytes_def numeral_eq_Suc)
    then have "from_le_bytes (replicate 4 (0 :: byte)) \<noteq> WAL_MAGIC" by (simp add: WAL_MAGIC_def)
    then show ?thesis using False by (simp add: next_record_def h WAL_HDR_LEN_def min_absorb1)
  qed
qed

definition sample_committed :: World where
  "sample_committed = sample_stored\<lparr>shm := snd (wal_commit (\<lambda>_. 1) False NoFault [5] (fst sample_commit) (shm sample_stored)),
     cmem := committed [sample_commit] sample_map, cmeta := fst sample_commit, loose := {}, recs := [sample_commit], published := False\<rparr>"

lemma sample_formatted: "formatted (\<lambda>_. 1) sample_world"
  by (simp add: formatted_def sample_world_def sample_shm_def sample_map(2-4) newest_meta_ungated_def META_PAGE_A_def META_PAGE_B_def
    newer_def same_meta_def)

lemma sample_commit_record:
  defines "b \<equiv> commit_record (\<lambda>_. 1) False 0 (snd sample_commit) (fst sample_commit)"
  shows "wal_commit (\<lambda>_. 1) False NoFault [5] (fst sample_commit) (shm sample_stored)
      = (Ok (), (shm sample_stored)\<lparr>wal_bytes := b @ replicate (WAL_GROW_CHUNK - length b) 0,
          disk_log := b @ replicate (WAL_GROW_CHUNK - length b) 0, wal_len := length b\<rparr>)"
    "images (shm sample_stored) [5] = Ok (snd sample_commit)"
proof -
  show im: "images (shm sample_stored) [5] = Ok (snd sample_commit)"
    by (simp add: sample_stored_def sample_shm_def page_def sample_commit_def)
  have ok: "pages_ok 16 (snd sample_commit)"
    by (simp add: sample_commit_def pages_ok_def sample_page_def WAL_RECORD_FIXED_def WAL_PAGE_ENTRY_def sizes)
  have "length b \<le> WAL_RECORD_FIXED + WAL_PAGE_ENTRY"
    unfolding b_def length_commit_record [OF ok] clen_def using pages_okD(4) [OF ok, of False] by (simp add: sample_commit_def)
  then have le: "length b \<le> WAL_GROW_CHUNK" by (simp add: WAL_RECORD_FIXED_def WAL_PAGE_ENTRY_def WAL_GROW_CHUNK_def sizes)
  have S: "durability (shm sample_stored) = Wal" "wal_len (shm sample_stored) = 0" "wal_alloc (shm sample_stored) = WAL_GROW_CHUNK"
    "wal_bytes (shm sample_stored) = replicate WAL_GROW_CHUNK 0"
    by (simp_all add: sample_stored_def sample_shm_def)
  have al: "wal_ensure_alloc NoFault (0 + length b) (shm sample_stored) = (Ok (), shm sample_stored)"
    using le by (simp add: wal_ensure_alloc_def S)
  have wr: "write_at (replicate WAL_GROW_CHUNK 0) 0 b = b @ replicate (WAL_GROW_CHUNK - length b) 0"
    using le by (simp add: write_at_def put_at_def)
  show "wal_commit (\<lambda>_. 1) False NoFault [5] (fst sample_commit) (shm sample_stored)
      = (Ok (), (shm sample_stored)\<lparr>wal_bytes := b @ replicate (WAL_GROW_CHUNK - length b) 0,
          disk_log := b @ replicate (WAL_GROW_CHUNK - length b) 0, wal_len := length b\<rparr>)"
    unfolding wal_commit_def S im Let_def sum.case b_def [symmetric] al prod.case by (simp add: uses_wal_def wr S)
qed

lemma sample_reachable: "(wstep (\<lambda>_. 1) False)\<^sup>*\<^sup>* sample_world sample_committed"
proof -
  have "wstep (\<lambda>_. 1) False sample_world (sample_world\<lparr>shm := (shm sample_world)\<lparr>mem := (mem (shm sample_world))(5 := sample_page)\<rparr>,
      loose := insert 5 (loose sample_world)\<rparr>)"
    by (rule store_page) (simp_all add: sample_world_def sample_shm_def sample_page_def)
  then have 1: "wstep (\<lambda>_. 1) False sample_world sample_stored"
    by (simp add: sample_world_def sample_stored_def sample_shm_def)
  let ?s = "snd (wal_commit (\<lambda>_. 1) False NoFault [5] (fst sample_commit) (shm sample_stored))"
  have "wstep (\<lambda>_. 1) False sample_stored (sample_stored\<lparr>shm := ?s, cmem := committed [(fst sample_commit, snd sample_commit)] (cmem sample_stored),
      cmeta := fst sample_commit, loose := loose sample_stored - set [5], recs := recs sample_stored @ [(fst sample_commit, snd sample_commit)], published := False\<rparr>)"
    by (rule commit [OF _ _ _ _ _ _ sample_commit_record(2)])
      (use sample_commit_record(1) in \<open>simp_all add: sample_stored_def sample_world_def sample_shm_def sample_commit_def sample_meta_def
        WAL_RECORD_FIXED_def WAL_PAGE_ENTRY_def sizes\<close>)
  then have "wstep (\<lambda>_. 1) False sample_stored sample_committed"
    by (simp add: sample_committed_def sample_stored_def sample_world_def)
  then show ?thesis using 1 by (meson converse_rtranclp_into_rtranclp rtranclp.rtrancl_refl)
qed

lemma sample_committed_fields:
  "data_start (shm sample_committed) = 4" "page_count (shm sample_committed) = 16" "durability (shm sample_committed) = Wal"
  "mem (shm sample_committed) = sample_map(5 := sample_page)" "loose sample_committed = {}" "cmem sample_committed 5 = sample_page"
  "cmeta sample_committed = sample_meta\<lparr>txn_id := 2\<rparr>" "\<not> published sample_committed"
proof -
  have s: "shm sample_committed = snd (wal_commit (\<lambda>_. 1) False NoFault [5] (fst sample_commit) (shm sample_stored))"
    by (simp add: sample_committed_def)
  show "data_start (shm sample_committed) = 4" "page_count (shm sample_committed) = 16" "durability (shm sample_committed) = Wal"
    "mem (shm sample_committed) = sample_map(5 := sample_page)"
    unfolding s sample_commit_record(1) by (simp_all add: sample_stored_def sample_shm_def)
qed (simp_all add: sample_committed_def committed_def last_image_def sample_commit_def)

theorem wal_durable_witness:
  "\<exists>s off. wal_recover (\<lambda>_. 1) True True (power_loss (shm sample_committed)) = (Ok off, s) \<and> same_view sample_page (mem s 5)
    \<and> (\<exists>m. newest_meta_ungated (\<lambda>_. 1) (mem s) = Ok m \<and> txn_id m = 2)"
proof -
  have "\<exists>n. drop (wal_len (shm sample_committed)) (disk_log (shm sample_committed)) = replicate n 0"
    by (simp add: sample_committed_def sample_commit_record(1))
  then have "unacknowledged (\<lambda>_. 1) False sample_committed []"
    using next_record_zeros by (auto simp: unacknowledged_def scan_ends_def sample_committed_def sample_commit_record(1))
  from wal_durable [OF sample_formatted sample_reachable this]
  obtain s where s: "wal_recover (\<lambda>_. 1) True True (power_loss (shm sample_committed)) = (Ok (wal_len (shm sample_committed) + clens False []), s)"
    "data_start (shm sample_committed) \<le> 5 \<and> 5 < page_count (shm sample_committed) \<and> (5 \<notin> loose sample_committed \<or> last_image [] 5 \<noteq> None)
      \<longrightarrow> same_view (committed [] (cmem sample_committed) 5) (mem s 5)"
    "\<exists>m. newest_meta_ungated (\<lambda>_. 1) (mem s) = Ok m \<and> same_meta (last_meta [] (cmeta sample_committed)) m"
    by blast
  then show ?thesis using sample_committed_fields by (auto simp: committed_def last_meta_def same_meta_def)
qed

text \<open>
  C40: A writer that dies between the two steps of a commit can cost a later, acknowledged one. When \<open>wal_commit\<close> has advanced the
  log and the process dies before \<open>write_meta_slot\<close>, the next writer reads the old meta, gives its commit the dead writer's id and appends it
  behind the orphan record. That commit is durable in the log, published and acknowledged, but recovery takes it for the end of the log since
  its id is not the successor of the orphan's: a power loss brings back the dead writer's commit instead, or, once the lock page has
  reached the disk, the database does not open.
\<close>

theorem owner_death_loses_commit:
  assumes "formatted digest w0" "(wstep digest full)\<^sup>*\<^sup>* w0 w" "\<not> published w"
    "newest_meta_ungated digest (mem (shm w)) = Ok base" "txn_id m = txn_id base + 1"
    "distinct ds" "list_all (\<lambda>pid. data_start (shm w) \<le> pid) ds" "WAL_RECORD_FIXED + length ds * WAL_PAGE_ENTRY < 2 ^ 32"
    "images (shm w) ds = Ok pages" "wal_commit digest full NoFault ds m (shm w) = (Ok (), s)" "t = write_meta digest (slot_of base) m s"
  shows "newest_meta_ungated digest (mem t) = Ok (m\<lparr>slot_of := 1 - slot_of base\<rparr>)
    \<and> (\<exists>u snap. wal_recover digest True True (power_loss t) = (Ok (wal_len (shm w)), u)
        \<and> newest_meta_ungated digest (mem u) = Ok snap \<and> same_meta (cmeta w) snap)
    \<and> fst (wal_recover digest True True (power_loss (msync_page LOCK_PAGE t))) = Err Corrupt"
proof -
  have inv: "winv digest full w" by (rule winv_reachable [OF assms(2) winv_formatted [OF assms(1)]])
  then obtain old where I: "log_inv digest full old w" "page_inv old w" "meta_inv digest w" by (auto simp: winv_def)
  have pl: "length (mem (shm w) pid) = PAGE_SIZE" for pid using I(2) by (simp add: page_inv_def Let_def)
  have tx: "txn_id (cmeta w) = txn_id m" "txn_id base < txn_id m" and r: "recs w \<noteq> []"
    using I(3) assms(3-5) by (auto simp: meta_inv_def Let_def)
  have len: "wal_len (shm w) \<le> length (wal_bytes (shm w))" using log_inv_wal_len [OF I(1)] by blast
  let ?buf = "commit_record digest full (wal_len (shm w)) pages m"
  obtain f a where s: "s = (shm w)\<lparr>wal_bytes := f, wal_alloc := a, disk_log := f, wal_len := wal_len (shm w) + length ?buf\<rparr>"
    "take (wal_len (shm w)) f = take (wal_len (shm w)) (wal_bytes (shm w))" "take (length ?buf) (drop (wal_len (shm w)) f) = ?buf"
    "wal_len (shm w) + length ?buf \<le> length f"
    by (rule wal_commit_ok [OF assms(10) len assms(9)])
  have ok: "commit_ok (page_count (shm w)) (data_start (shm w)) (m, pages)" by (rule commit_ok_images [OF assms(9,6,7) pl assms(8)])
  have lb: "length ?buf = clen full (m, pages)" using length_commit_record [OF commit_okD(1) [OF ok]] by simp
  have nx: "next_record digest (page_count (shm w)) f (wal_len (shm w)) = Some (logged full (m, pages))"
    by (rule next_record_logged) (use s(3) lb commit_okD(1) [OF ok] in simp_all)
  have se: "scan_ends digest v f (wal_len (shm w)) (Some (txn_id (cmeta w)))" if "page_count v = page_count (shm w)" for v
    using nx that by (simp add: scan_ends_def logged_def tx(1))
  have off: "disk_ckpt (shm w) + clens full (old @ recs w) = wal_len (shm w)" "wal_ckpt (shm w) + clens full (recs w) = wal_len (shm w)"
    using I(1) by (simp_all add: log_inv_def Let_def)
  have il: "in_log digest full f (disk_ckpt (shm w)) (old @ recs w)"
    using in_log_below [OF _ s(2)] s(4) I(1) off by (simp add: log_inv_def Let_def)
  have 1: "newest_meta_ungated digest (mem t) = Ok (m\<lparr>slot_of := 1 - slot_of base\<rparr>)"
    using publish_newest [OF pl pl assms(4) tx(2)] by (simp add: assms(11) write_meta_def s(1))
  let ?w = "w\<lparr>shm := (shm w)\<lparr>disk_log := f\<rparr>\<rparr>"
  have J: "log_inv digest full old ?w" "page_inv old ?w" "meta_inv digest ?w"
    using I il by (simp_all add: log_inv_def page_inv_def meta_inv_def Let_def)
  have "disk_ckpt (shm w) \<noteq> wal_len (shm w)" using off(1) clens_0 [of full "old @ recs w"] r by auto
  then have U: "unacknowledged digest full ?w []"
    using s(4) se [of "(shm w)\<lparr>disk_log := f\<rparr>"] by (simp add: unacknowledged_def last_txn_def)
  have pw: "power_loss t = power_loss (shm ?w)" by (simp add: power_loss_def assms(11) write_meta_def s(1))
  have 2: "\<exists>u snap. wal_recover digest True True (power_loss t) = (Ok (wal_len (shm w)), u)
      \<and> newest_meta_ungated digest (mem u) = Ok snap \<and> same_meta (cmeta w) snap"
    unfolding pw by (rule wal_recover_log [OF J U]) (auto simp: last_meta_def)
  let ?p = "power_loss (msync_page LOCK_PAGE t)"
  have P: "wal_ckpt ?p = wal_ckpt (shm w)" "wal_bytes ?p = f" "page_count ?p = page_count (shm w)" "data_start ?p = data_start (shm w)"
    "durability ?p = Wal" "wal_len ?p = wal_len (shm w) + length ?buf"
    using I(1) by (simp_all add: power_loss_def msync_page_def assms(11) write_meta_def s(1) log_inv_def Let_def)
  have "replay digest (wal_ckpt ?p) None None (wal_bytes ?p) ?p = Ok (wal_ckpt (shm w) + clens full (recs w),
      if recs w = [] then None else Some (replayed_meta (logged full (last (recs w)))), ?p\<lparr>mem := replay_pages full (all_pages (recs w)) (mem ?p)\<rparr>)"
    unfolding P(1,2)
    by (rule replay_log)
      (use I(1) il r off se [OF P(3)] in \<open>auto simp: P(3,4) log_inv_def Let_def in_log_append consecutive_append last_txn_def intro: consecutive_None split: if_splits\<close>)
  moreover have "0 < length ?buf" by (simp add: lb clen_def WAL_RECORD_FIXED_def)
  ultimately have "fst (wal_recover digest True True ?p) = Err Corrupt"
    by (simp add: wal_recover_def uses_wal_def P(5,6) off(2) Let_def)
  then show ?thesis using 1 2 by blast
qed

theorem owner_death_loses_commit_witness:
  "\<exists>s. wal_commit (\<lambda>_. 1) False NoFault [6] (sample_meta\<lparr>txn_id := 2, catalog_root := 6\<rparr>) (shm sample_committed) = (Ok (), s)
    \<and> fst (wal_recover (\<lambda>_. 1) True True (power_loss (msync_page LOCK_PAGE (write_meta (\<lambda>_. 1) 0 (sample_meta\<lparr>txn_id := 2, catalog_root := 6\<rparr>) s)))) = Err Corrupt"
proof -
  let ?m = "sample_meta\<lparr>txn_id := 2, catalog_root := 6\<rparr>"
  note F = sample_committed_fields
  have im: "images (shm sample_committed) [6] = Ok [(6, sample_map 6)]" by (simp add: page_def F)
  have "fst (wal_commit (\<lambda>_. 1) False NoFault [6] ?m (shm sample_committed)) = Ok ()"
    unfolding wal_commit_def im by (simp add: F(3) uses_wal_def wal_ensure_alloc_def Let_def)
  then obtain s where s: "wal_commit (\<lambda>_. 1) False NoFault [6] ?m (shm sample_committed) = (Ok (), s)" by (metis prod.collapse)
  have n: "newest_meta_ungated (\<lambda>_. 1) (mem (shm sample_committed)) = Ok sample_meta"
    unfolding F(4) using newest_cong [of "sample_map(5 := sample_page)" sample_map "\<lambda>_. 1"]
    by (simp add: newest_meta_ungated_def sample_map(3,4) META_PAGE_A_def META_PAGE_B_def newer_def)
  have sz: "WAL_RECORD_FIXED + length [6 :: u64] * WAL_PAGE_ENTRY < 2 ^ 32" by (simp add: WAL_RECORD_FIXED_def WAL_PAGE_ENTRY_def sizes)
  from owner_death_loses_commit [OF sample_formatted sample_reachable F(8) n _ _ _ sz im s refl]
  show ?thesis using s by (simp add: F sample_meta_def)
qed

end
