(* ===== verification/Spec2Isabelle.thy ===== *)
theory Spec2Isabelle
  imports Mpedb_Prelude Float64 Rust_Str Calendar Decimal Sql_Value Value_Codec Numeric_Key Keycode Footprint
    Collab_Edit Row_Codec Policy Intent_Ring Ring_Protocol Node_Page Wal_Record Meta_Page Wal_Log Wal_Recovery
begin

text \<open>
  A verification development for mpedb, an embedded SQL database whose processes share one memory-mapped
  file. This theory imports the library; each component has its own theory.

  \<^bold>\<open>The program.\<close> Values of a few SQL types are compared, ordered and encoded
  (\<open>mpedb-types\<close>); rows are payloads of copy-on-write B+trees whose keys are order-preserving byte strings
  (\<open>mpedb-core\<close>); a commit writes fresh pages, logs them, and publishes a meta page; concurrent writers hand
  their statements to one leader through a ring of slots in shared memory (\<open>mpedb-core\<close>, \<open>mpedb\<close>).

  \<^bold>\<open>Conventions.\<close> A byte is an \<open>8 word\<close>; \<open>u16\<close>, \<open>u32\<close>, \<open>u64\<close>, \<open>i64\<close> and \<open>f64\<close> are words of their
  width, so that arithmetic wraps as in a release build. A Rust \<open>String\<close> is the list of its UTF-8 bytes as
  \<open>char\<close>s. A \<open>Result\<close> is \<open>error + 'a\<close>, with the \<open>?\<close> operator as \<open>rbind\<close>; error messages are not
  modelled, and \<open>Panic\<close> stands for a panic. A decoder takes the buffer and a position, as in the source.
  Lengths and indices (\<open>usize\<close>) are natural numbers where the source cannot reach their bound.

  \<^bold>\<open>Theories.\<close>
  \<^item> \<open>Mpedb_Prelude\<close>: machine types, errors, bounds-checked reads, little- and big-endian images, UTF-8; the
    interfaces \<open>pos_codec\<close> (a decoder at a position) and \<open>ordered_code\<close> (an order-preserving code), whose
    lemmas give lists and composite keys once.
  \<^item> \<open>Float64\<close>, \<open>Decimal\<close>, \<open>Calendar\<close>, \<open>Rust_Str\<close>, \<open>Sql_Value\<close> (\<open>value.rs\<close>): bit patterns of floats with
    the number they denote, exact decimals as texts, civil dates and their texts, the string functions used,
    and the values with their types, comparisons and collations.
  \<^item> \<open>Value_Codec\<close> (\<open>value.rs\<close>), \<open>Numeric_Key\<close> and \<open>Keycode\<close> (\<open>keycode.rs\<close>), \<open>Row_Codec\<close> (\<open>row.rs\<close>),
    \<open>Policy\<close> (\<open>policy.rs\<close>, \<open>ident.rs\<close>), \<open>Footprint\<close> (\<open>footprint.rs\<close>, \<open>cdc.rs\<close>): wire, key, row and
    catalog encodings. Shown: round trips, totality on arbitrary bytes, canonicity, agreement of the fast and
    the simple decoder, and that byte order of keys is SQL order of rows.
  \<^item> \<open>Collab_Edit\<close> (\<open>subedit.rs\<close>, \<open>ordkey.rs\<close>): rebasing of concurrent splices and fractional keys.
  \<^item> \<open>Node_Page\<close> (\<open>btree.rs\<close>): a tree node as a page of 4096 bytes. The interface \<open>cell_format\<close> says what
    the page operations need of a kind of cell; it is interpreted for leaf and branch cells. Shown: the
    operations work on the list of cells, whatever the fragmentation.
  \<^item> \<open>Wal_Record\<close> (\<open>shm.rs\<close>) and \<open>Meta_Page\<close> (\<open>shm/pages.rs\<close>): commit records with lean page images, and the
    two meta slots. The digests are parameters; what is asked of them is a hypothesis where it is needed: that
    the bytes of a half-written slot do not digest to the checksum that stands there. Shown: a record reads
    back, the checksum covers every logical byte of a slot, and a publication is atomic for readers.
  \<^item> \<open>Wal_Log\<close> (\<open>shm/wal.rs\<close>): appends, the deferred flush, checkpoints and recovery, as functions on a record
    that tells the mapping and the log file as processes see them from their durable images; where a system
    call may fail, the failure is an argument. \<open>Wal_Recovery\<close>: every interleaving of the steps of a writer in WAL
    mode with write-backs by the kernel, checkpoints and power losses. The payload pages of extents are synced
    in place instead of logged; they are outside this model. Shown: recovery brings back the last
    acknowledged commit; and that a writer's death between logging and publishing can cost a later commit.
  \<^item> \<open>Intent_Ring\<close> (\<open>ring.rs\<close>, \<open>ring_exec.rs\<close>): the slots and the leader's round as functions; a statement is a
    function on an abstract transaction. Shown: a round, its restarts included, commits the serial execution.
  \<^item> \<open>Ring_Protocol\<close>: the same protocol as interleaved atomic steps of several processes that may die, with
    the invariant that acknowledged and committed executions agree, and the runs in which they do not. The
    relation \<open>step\<close> spells out, one atomic access at a time, what \<open>enqueue\<close>, \<open>release\<close>, \<open>recover_orphans\<close>,
    \<open>post_done\<close>, \<open>collect_ready\<close> and \<open>reclaim_dead\<close> (\<open>ring.rs\<close>), the waiting loop of \<open>run_write_plan\<close>
    (\<open>database_query.rs\<close>), the round of \<open>lead_and_execute\<close> (\<open>ring_exec.rs\<close>) and a writer outside the ring do.
    The invariant holds unless a leader dies between the two steps of a post, or somebody commits outside a
    round while a dead leader's uncommitted results are staged; each of the two has its run.

  \<^bold>\<open>Bounds.\<close> Loops of the source are recursive functions with a termination proof or structural recursion.
  One definition takes fuel: \<open>Value_Codec.read_nested\<close>, the reader of nested lists, gets one more than the
  length of the buffer; each level of nesting consumes a byte, and any fuel above the number of remaining
  bytes is shown to give the same result.

  \<^bold>\<open>Not modelled.\<close> The SQL front end, the executor, the catalog and freelist bookkeeping of a write
  transaction, the optimistic arm of the writer, readers' pins, files and locks of the operating system, and the interfaces to other languages
  and databases: they are either system calls or language processing without a specification next to it. Error
  messages, statistics and debug output carry nothing the code branches on.
\<close>

end
